(* ===== verification/Prelude.thy ===== *)
theory Prelude
  imports Main "HOL-Library.Sublist"
begin

text \<open>
  The prelude of the development: names for the bytes the formats single out, error values
  as Go builds them (sentinels, wrapping, joining), the shape shared by every effectful
  operation (a result paired with the next world), and the small list lemmas the components
  have in common.

  A Go \<open>string\<close> is a sequence of bytes, and so is HOL's \<open>string\<close> (a list of 8-bit
  characters), so \<open>length\<close> counts bytes on both sides.
\<close>

section \<open>Bytes\<close>

abbreviation byte :: "char \<Rightarrow> nat" where
  "byte c \<equiv> of_char c"

abbreviation (input) LF :: char where "LF \<equiv> CHR 0x0A"
abbreviation (input) CR :: char where "CR \<equiv> CHR 0x0D"
abbreviation (input) NUL :: char where "NUL \<equiv> CHR 0x00"
abbreviation (input) SPC :: char where "SPC \<equiv> CHR 0x20"
abbreviation (input) TAB :: char where "TAB \<equiv> CHR 0x09"
abbreviation (input) QUOTE :: char where "QUOTE \<equiv> CHR 0x22"
abbreviation (input) BACKSLASH :: char where "BACKSLASH \<equiv> CHR 0x5C"

lemma char_of_eqI: "byte c = n \<Longrightarrow> char_of n = c"
  by auto

section \<open>Errors\<close>

text \<open>
  An error is a chain, as in Go: a sentinel value, an error wrapped with a message
  (\<open>ctxerrors.Wrap\<close>), one wrapped with a format and its arguments (\<open>ctxerrors.Wrapf\<close>, the
  text kept unformatted), or several errors joined (\<open>errors.Join\<close>). \<open>ErrOther\<close> stands
  for any error produced by code outside the repository (a broken connection, a failing
  writer). A Go \<open>error\<close> result that may be nil is a \<open>goerr option\<close>.
\<close>

datatype goerr =
    ErrNoMoreEvents
  | ErrInvalidCapacity
  | ErrNotAFlusher
  | ErrRoundStreamNotInitialized
  | ErrToolResultMissing
  | ErrTooLong
  | ErrNoProgress
  | ErrContextDone string
  | ErrOther string
  | Wrapped goerr string
  | Wrappedf goerr string "string list"
  | Joined "goerr list"

text \<open>\<open>errors.Is\<close>: the target occurs in the chain, through wraps and joins.\<close>

fun errors_is :: "goerr \<Rightarrow> goerr \<Rightarrow> bool" where
  "errors_is (Wrapped e m) t = (Wrapped e m = t \<or> errors_is e t)"
| "errors_is (Wrappedf e m args) t = (Wrappedf e m args = t \<or> errors_is e t)"
| "errors_is (Joined es) t = (Joined es = t \<or> list_ex (\<lambda>e. errors_is e t) es)"
| "errors_is e t = (e = t)"

text \<open>\<open>ctxerrors.Wrap\<close> maps nil to nil and any other error to a wrapped one.\<close>

definition wrap_err :: "string \<Rightarrow> goerr option \<Rightarrow> goerr option" where
  "wrap_err m e = map_option (\<lambda>x. Wrapped x m) e"

lemma wrap_err_simps [simp]:
  "wrap_err m None = None"
  "wrap_err m (Some e) = Some (Wrapped e m)"
  "wrap_err m r = None \<longleftrightarrow> r = None"
  by (simp_all add: wrap_err_def)

lemma errors_is_refl [simp]: "errors_is e e"
  by (cases e) auto

lemma errors_is_wrap: "errors_is e t \<Longrightarrow> errors_is (Wrapped e m) t"
  by simp

end
