(* ===== verification/Utf8.thy ===== *)
theory Utf8
  imports Prelude
begin

text \<open>
  Which byte sequences are runes (\<open>unicode/utf8\<close> of Go's standard library), and the
  coercion both directions of \<open>encoding/json\<close> apply to a string: every byte that belongs
  to no rune is replaced by U+FFFD. Valid strings pass unchanged, and the result of the
  coercion is always valid.
\<close>

section \<open>Runes\<close>

text \<open>
  \<open>lead b\<close> reads the leading byte of a rune: the number of bytes of the rune and the range
  its second byte must lie in (\<open>utf8.acceptRanges\<close>); \<open>None\<close> for a byte no rune starts with.
\<close>

definition lead :: "char \<Rightarrow> (nat \<times> nat \<times> nat) option" where
  "lead b =
     (if byte b < 0x80 then Some (1, 0, 0)
      else if byte b < 0xC2 then None
      else if byte b \<le> 0xDF then Some (2, 0x80, 0xBF)
      else if byte b = 0xE0 then Some (3, 0xA0, 0xBF)
      else if byte b = 0xED then Some (3, 0x80, 0x9F)
      else if byte b \<le> 0xEF then Some (3, 0x80, 0xBF)
      else if byte b = 0xF0 then Some (4, 0x90, 0xBF)
      else if byte b \<le> 0xF3 then Some (4, 0x80, 0xBF)
      else if byte b = 0xF4 then Some (4, 0x80, 0x8F)
      else None)"

definition cont :: "char \<Rightarrow> bool" where
  "cont b \<longleftrightarrow> 0x80 \<le> byte b \<and> byte b \<le> 0xBF"

text \<open>
  \<open>utf8.DecodeRune\<close>: the width of the rune the string starts with, 0 where Go answers
  \<open>(RuneError, 1)\<close> (a byte that starts no valid rune) or the string is empty.
\<close>

definition rune_width :: "string \<Rightarrow> nat" where
  "rune_width s = (case s of [] \<Rightarrow> 0
     | b # t \<Rightarrow> (case lead b of None \<Rightarrow> 0
         | Some (w, lo, hi) \<Rightarrow>
             if w = 1 then 1
             else if w \<le> length s \<and> lo \<le> byte (t ! 0) \<and> byte (t ! 0) \<le> hi
                     \<and> list_all cont (take (w - 2) (drop 1 t))
             then w else 0))"

text \<open>The three bytes of U+FFFD, which both encoder and decoder put in place of a bad byte.\<close>

definition replacement :: string where
  "replacement = [CHR 0xEF, CHR 0xBF, CHR 0xBD]"

function to_valid_utf8 :: "string \<Rightarrow> string" where
  "to_valid_utf8 s =
     (if s = [] then []
      else if rune_width s = 0 then replacement @ to_valid_utf8 (tl s)
      else take (rune_width s) s @ to_valid_utf8 (drop (rune_width s) s))"
  by pat_completeness auto
termination
  by (relation "measure length") (auto simp: neq_Nil_conv)

function valid_utf8 :: "string \<Rightarrow> bool" where
  "valid_utf8 s =
     (if s = [] then True
      else if rune_width s = 0 then False
      else valid_utf8 (drop (rune_width s) s))"
  by pat_completeness auto
termination
  by (relation "measure length") (auto simp: neq_Nil_conv)

declare to_valid_utf8.simps [simp del] valid_utf8.simps [simp del]

lemma lead_cases:
  assumes "lead b = Some (w, lo, hi)"
  shows "(w = 1 \<and> byte b < 0x80) \<or> (w \<in> {2, 3, 4} \<and> 0xC2 \<le> byte b \<and> 0x80 \<le> lo \<and> hi \<le> 0xBF)"
  using assms by (auto simp: lead_def split: if_splits)

lemma rune_width_Nil [simp]: "rune_width [] = 0"
  by (simp add: rune_width_def)

lemma rune_width_ascii [simp]: "byte b < 0x80 \<Longrightarrow> rune_width (b # t) = 1"
  by (simp add: rune_width_def lead_def)

lemma rune_width_le: "rune_width s \<le> length s"
  by (auto simp: rune_width_def split: list.splits option.splits)

lemma rune_width_not_ascii:
  assumes "\<not> byte b < 0x80"
  shows "rune_width (b # t) \<in> {0, 2, 3, 4}"
  using assms by (auto simp: rune_width_def split: option.splits dest: lead_cases)

text \<open>A valid rune stays the first rune whatever follows it.\<close>

lemma rune_width_prefix:
  assumes "rune_width s = w" and "w \<noteq> 0"
  shows "rune_width (take w s @ t) = w"
proof (cases s)
  case Nil
  with assms show ?thesis by simp
next
  case (Cons b u)
  with assms obtain lo hi where l: "lead b = Some (w, lo, hi)"
    by (auto simp: rune_width_def split: option.splits if_splits)
  from lead_cases [OF l] consider "w = 1" | "w = 2" | "w = 3" | "w = 4" by auto
  then show ?thesis
  proof cases
    case 1
    with l Cons show ?thesis by (simp add: rune_width_def)
  next
    case 2
    with l Cons assms show ?thesis
      by (cases u) (auto simp: rune_width_def split: if_splits)
  next
    case 3
    with l Cons assms show ?thesis
      by (cases u; cases "tl u")
        (auto simp: rune_width_def numeral_3_eq_3 split: if_splits)
  next
    case 4
    with l Cons assms show ?thesis
      by (cases u; cases "tl u"; cases "tl (tl u)")
        (auto simp: rune_width_def numeral_eq_Suc split: if_splits)
  qed
qed

lemma rune_width_high:
  assumes "rune_width (b # t) = w" and "\<not> byte b < 0x80" and "c \<in> set (take w (b # t))"
  shows "0x80 \<le> byte c"
proof (cases "w = 0")
  case True
  with assms show ?thesis by simp
next
  case False
  with assms(1) obtain lo hi where l: "lead b = Some (w, lo, hi)"
    by (auto simp: rune_width_def split: option.splits if_splits)
  from lead_cases [OF l] assms(2) have w: "w \<in> {2, 3, 4}" and lo: "0x80 \<le> lo" by auto
  from w l assms(1) have t0: "lo \<le> byte (t ! 0)" "w \<le> Suc (length t)"
    and rest: "list_all cont (take (w - 2) (drop 1 t))"
    by (auto simp: rune_width_def split: if_splits)
  from w t0 obtain d u where t: "t = d # u" by (cases t) auto
  from w have "take w (b # t) = b # d # take (w - 2) u"
    by (auto simp: t numeral_eq_Suc)
  with assms(3) consider "c = b" | "c = d" | "c \<in> set (take (w - 2) u)" by auto
  then show ?thesis
    using assms(2) t0 lo rest by cases (auto simp: t cont_def list_all_iff)
qed

lemma to_valid_utf8_Nil [simp]: "to_valid_utf8 [] = []"
  by (simp add: to_valid_utf8.simps)

lemma valid_utf8_Nil [simp]: "valid_utf8 []"
  by (simp add: valid_utf8.simps)

lemma to_valid_utf8_id: "valid_utf8 s \<Longrightarrow> to_valid_utf8 s = s"
proof (induction s rule: valid_utf8.induct)
  case (1 s)
  show ?case
  proof (cases "s = []")
    case False
    with 1 have "rune_width s \<noteq> 0" and "to_valid_utf8 (drop (rune_width s) s) = drop (rune_width s) s"
      using valid_utf8.simps [of s] by (simp_all split: if_splits)
    with False show ?thesis by (subst to_valid_utf8.simps) simp
  qed simp
qed

lemma valid_utf8_rune_append:
  assumes "rune_width r = length r" and "r \<noteq> []" and "valid_utf8 t"
  shows "valid_utf8 (r @ t)"
proof -
  from assms rune_width_prefix [of r "length r" t] have "rune_width (r @ t) = length r" by simp
  with assms show ?thesis by (subst valid_utf8.simps) simp
qed

lemma valid_to_valid_utf8: "valid_utf8 (to_valid_utf8 s)"
proof (induction s rule: to_valid_utf8.induct)
  case (1 s)
  consider "s = []" | "s \<noteq> []" "rune_width s = 0" | "s \<noteq> []" "rune_width s \<noteq> 0" by auto
  then show ?case
  proof cases
    case 2
    have "rune_width replacement = length replacement" and "replacement \<noteq> []"
      by (simp_all add: replacement_def rune_width_def lead_def cont_def)
    with 2 1 show ?thesis
      by (subst to_valid_utf8.simps) (simp add: valid_utf8_rune_append)
  next
    case 3
    have "rune_width (take (rune_width s) s) = length (take (rune_width s) s)"
      using rune_width_prefix [of s _ "[]"] 3 rune_width_le [of s] by simp
    with 3 1 show ?thesis
      by (subst to_valid_utf8.simps) (simp add: valid_utf8_rune_append)
  qed simp
qed

lemma valid_utf8_ascii_Cons: "byte c < 0x80 \<Longrightarrow> valid_utf8 (c # s) = valid_utf8 s"
  by (subst valid_utf8.simps) simp

lemma valid_utf8_ascii: "list_all (\<lambda>c. byte c < 0x80) s \<Longrightarrow> valid_utf8 s"
  by (induction s) (simp_all add: valid_utf8_ascii_Cons)

end
