(* ===== verification/Json_String.thy ===== *)
theory Json_String
  imports Utf8
begin

text \<open>
  JSON string literals as Go's \<open>encoding/json\<close> writes and reads them. The encoder
  (\<open>appendString\<close> with HTML escaping, which \<open>json.Marshal\<close> always asks for) and the
  decoder (the scanner's string states followed by \<open>unquote\<close>) are standard library code;
  the lemma at the end is the round trip: decoding an encoded string gives the string with
  its invalid bytes replaced.
\<close>

section \<open>Encoding\<close>

definition hexdig :: "nat \<Rightarrow> char" where
  "hexdig n = ''0123456789abcdef'' ! n"

definition escape_ascii :: "char \<Rightarrow> string" where
  "escape_ascii c =
     (if c = BACKSLASH \<or> c = QUOTE then [BACKSLASH, c]
      else if c = CHR 0x08 then [BACKSLASH, CHR ''b'']
      else if c = CHR 0x0C then [BACKSLASH, CHR ''f'']
      else if c = LF then [BACKSLASH, CHR ''n'']
      else if c = CR then [BACKSLASH, CHR ''r'']
      else if c = TAB then [BACKSLASH, CHR ''t'']
      else if byte c < 0x20 \<or> c \<in> set ''<>&'' then
        [BACKSLASH, CHR ''u'', CHR ''0'', CHR ''0'', hexdig (byte c div 16), hexdig (byte c mod 16)]
      else [c])"

text \<open>U+2028 and U+2029 are written as escapes, so the output is also a JavaScript literal.\<close>

definition escape_rune :: "string \<Rightarrow> string" where
  "escape_rune r =
     (if r = [CHR 0xE2, CHR 0x80, CHR 0xA8] then BACKSLASH # ''u2028''
      else if r = [CHR 0xE2, CHR 0x80, CHR 0xA9] then BACKSLASH # ''u2029''
      else r)"

function json_escape :: "string \<Rightarrow> string" where
  "json_escape s =
     (if s = [] then []
      else if rune_width s = 0 then (BACKSLASH # ''ufffd'') @ json_escape (tl s)
      else if rune_width s = 1 then escape_ascii (hd s) @ json_escape (tl s)
      else escape_rune (take (rune_width s) s) @ json_escape (drop (rune_width s) s))"
  by pat_completeness auto
termination
  by (relation "measure length") (auto simp: neq_Nil_conv)

declare json_escape.simps [simp del]

definition quote_string :: "string \<Rightarrow> string" where
  "quote_string s = QUOTE # json_escape s @ [QUOTE]"

section \<open>Decoding\<close>

definition unhex :: "char \<Rightarrow> nat option" where
  "unhex c =
     (if 48 \<le> byte c \<and> byte c \<le> 57 then Some (byte c - 48)
      else if 97 \<le> byte c \<and> byte c \<le> 102 then Some (byte c - 87)
      else if 65 \<le> byte c \<and> byte c \<le> 70 then Some (byte c - 55)
      else None)"

fun hex4 :: "string \<Rightarrow> nat option" where
  "hex4 (a # b # c # d # _) =
     (case (unhex a, unhex b, unhex c, unhex d) of
        (Some i, Some j, Some k, Some l) \<Rightarrow> Some (4096 * i + 256 * j + 16 * k + l)
      | _ \<Rightarrow> None)"
| "hex4 _ = None"

text \<open>\<open>utf8.AppendRune\<close> for a code point that is not a surrogate.\<close>

definition encode_rune :: "nat \<Rightarrow> string" where
  "encode_rune n =
     (if n < 0x80 then [char_of n]
      else if n < 0x800 then [char_of (0xC0 + n div 64), char_of (0x80 + n mod 64)]
      else if n < 0x10000 then
        [char_of (0xE0 + n div 4096), char_of (0x80 + n div 64 mod 64), char_of (0x80 + n mod 64)]
      else
        [char_of (0xF0 + n div 262144), char_of (0x80 + n div 4096 mod 64),
         char_of (0x80 + n div 64 mod 64), char_of (0x80 + n mod 64)])"

definition simple_escape :: "char \<Rightarrow> char option" where
  "simple_escape e =
     (if e = QUOTE \<or> e = BACKSLASH \<or> e = CHR ''/'' then Some e
      else if e = CHR ''b'' then Some (CHR 0x08)
      else if e = CHR ''f'' then Some (CHR 0x0C)
      else if e = CHR ''n'' then Some LF
      else if e = CHR ''r'' then Some CR
      else if e = CHR ''t'' then Some TAB
      else None)"

text \<open>
  After the four digits \<open>u\<close> of a \<open>\u\<close> escape: the bytes it stands for and how many more
  bytes it uses (the low half of a surrogate pair). A lone surrogate becomes U+FFFD and
  consumes its own digits only.
\<close>

definition unicode_escape :: "nat \<Rightarrow> string \<Rightarrow> string \<times> nat" where
  "unicode_escape u r =
     (if 0xD800 \<le> u \<and> u < 0xE000 then
        (if take 2 r = [BACKSLASH, CHR ''u''] then
           (case hex4 (drop 2 r) of
              Some v \<Rightarrow>
                if u < 0xDC00 \<and> 0xDC00 \<le> v \<and> v < 0xE000
                then (encode_rune (0x10000 + (u - 0xD800) * 1024 + (v - 0xDC00)), 6)
                else (replacement, 0)
            | None \<Rightarrow> (replacement, 0))
         else (replacement, 0))
      else (encode_rune u, 0))"

definition prepend :: "string \<Rightarrow> (string \<times> string) option \<Rightarrow> (string \<times> string) option" where
  "prepend p r = map_option (\<lambda>(t, rest). (p @ t, rest)) r"

text \<open>
  \<open>scan_str s\<close> reads the literal whose opening quote has been consumed: its value and the
  input after the closing quote, or \<open>None\<close> where the scanner reports a syntax error.
\<close>

function scan_str :: "string \<Rightarrow> (string \<times> string) option" where
  "scan_str [] = None"
| "scan_str (c # cs) =
     (if c = QUOTE then Some ([], cs)
      else if c = BACKSLASH then
        (case cs of
           [] \<Rightarrow> None
         | e # r \<Rightarrow>
             (case simple_escape e of
                Some d \<Rightarrow> prepend [d] (scan_str r)
              | None \<Rightarrow>
                  if e \<noteq> CHR ''u'' then None
                  else (case hex4 r of
                          None \<Rightarrow> None
                        | Some u \<Rightarrow>
                            prepend (fst (unicode_escape u (drop 4 r)))
                              (scan_str (drop (snd (unicode_escape u (drop 4 r))) (drop 4 r))))))
      else if byte c < 0x20 then None
      else if rune_width (c # cs) = 0 then prepend replacement (scan_str cs)
      else prepend (take (rune_width (c # cs)) (c # cs))
             (scan_str (drop (rune_width (c # cs)) (c # cs))))"
  by pat_completeness auto
termination
  by (relation "measure length") auto

lemmas scan_str_Cons = scan_str.simps(2)
declare scan_str.simps(2) [simp del]

lemma prepend_simps [simp]:
  "prepend p None = None"
  "prepend p (Some (t, r)) = Some (p @ t, r)"
  "prepend p (prepend q x) = prepend (p @ q) x"
  by (auto simp: prepend_def split: option.splits prod.splits intro: option.expand)

lemma prepend_eq_Some: "prepend p x = Some (t, r) \<longleftrightarrow> (\<exists>u. x = Some (u, r) \<and> t = p @ u)"
  by (auto simp: prepend_def)

section \<open>The round trip\<close>

lemma unhex_hexdig: "n < 16 \<Longrightarrow> unhex (hexdig n) = Some n"
proof -
  assume "n < 16"
  then have "n \<in> {0, 1, 2, 3, 4, 5, 6, 7, 8, 9, 10, 11, 12, 13, 14, 15}"
    by (simp only: insert_iff empty_iff) arith
  then show ?thesis by (auto simp: hexdig_def unhex_def)
qed

lemma hex4_byte:
  assumes "byte c < 0x80"
  shows "hex4 (CHR ''0'' # CHR ''0'' # hexdig (byte c div 16) # hexdig (byte c mod 16) # r)
    = Some (byte c)"
proof -
  from assms have "unhex (hexdig (byte c div 16)) = Some (byte c div 16)"
    and "unhex (hexdig (byte c mod 16)) = Some (byte c mod 16)"
    by (simp_all add: unhex_hexdig)
  then show ?thesis by (simp add: unhex_def)
qed

lemma scan_escape_ascii:
  assumes "byte c < 0x80"
  shows "scan_str (escape_ascii c @ r) = prepend [c] (scan_str r)"
proof -
  consider (simple) "c \<in> {BACKSLASH, QUOTE, CHR 0x08, CHR 0x0C, LF, CR, TAB}"
    | (hex) "c \<notin> {BACKSLASH, QUOTE, CHR 0x08, CHR 0x0C, LF, CR, TAB}" "byte c < 0x20 \<or> c \<in> set ''<>&''"
    | (plain) "c \<notin> {BACKSLASH, QUOTE, CHR 0x08, CHR 0x0C, LF, CR, TAB}" "\<not> byte c < 0x20" "c \<notin> set ''<>&''"
    by blast
  then show ?thesis
  proof cases
    case simple
    then show ?thesis by (auto simp: escape_ascii_def scan_str_Cons simple_escape_def)
  next
    case hex
    then have e: "escape_ascii c = [BACKSLASH, CHR ''u'', CHR ''0'', CHR ''0'',
        hexdig (byte c div 16), hexdig (byte c mod 16)]"
      by (auto simp: escape_ascii_def)
    have "unicode_escape (byte c) r = ([c], 0)"
      using assms by (simp add: unicode_escape_def encode_rune_def)
    then show ?thesis
      unfolding e using hex4_byte [OF assms, of r]
      by (simp add: scan_str_Cons simple_escape_def)
  next
    case plain
    then have "escape_ascii c = [c]" by (auto simp: escape_ascii_def)
    with plain assms show ?thesis by (simp add: scan_str_Cons)
  qed
qed

lemma scan_replacement_escape:
  "scan_str (BACKSLASH # ''ufffd'' @ r) = prepend replacement (scan_str r)"
proof -
  have "encode_rune 0xFFFD = replacement"
    by (simp add: encode_rune_def replacement_def char_of_eqI)
  then have "unicode_escape 0xFFFD r = (replacement, 0)" by (simp add: unicode_escape_def)
  then show ?thesis by (simp add: scan_str_Cons simple_escape_def unhex_def)
qed

lemma scan_plain_rune:
  assumes "rune_width s = w" and "2 \<le> w"
  shows "scan_str (take w s @ r) = prepend (take w s) (scan_str r)"
proof -
  from assms obtain b t where s: "s = b # t" by (cases s) auto
  from assms s have nb: "\<not> byte b < 0x80"
    using rune_width_ascii [of b t] by (cases "byte b < 0x80") auto
  from assms have len: "length (take w s) = w" using rune_width_le [of s] by simp
  from assms have w: "rune_width (take w s @ r) = w" by (intro rune_width_prefix) auto
  obtain v where v: "take w s = b # v" using assms s by (cases w) auto
  from w v have w': "rune_width (b # v @ r) = w" by simp
  from v len have "take w (b # v @ r) = take w s" and "drop w (b # v @ r) = r"
    by (metis append_Cons append_eq_conv_conj)+
  moreover have "b \<noteq> QUOTE" "b \<noteq> BACKSLASH" "\<not> byte b < 0x20" using nb by auto
  ultimately show ?thesis
    using w' assms(2) by (simp add: v scan_str_Cons)
qed

lemma scan_escape_rune:
  assumes "rune_width s = w" and "2 \<le> w"
  shows "scan_str (escape_rune (take w s) @ r) = prepend (take w s) (scan_str r)"
proof -
  have "unicode_escape 0x2028 r = ([CHR 0xE2, CHR 0x80, CHR 0xA8], 0)"
    and "unicode_escape 0x2029 r = ([CHR 0xE2, CHR 0x80, CHR 0xA9], 0)"
    by (simp_all add: unicode_escape_def encode_rune_def char_of_eqI)
  then have "scan_str (BACKSLASH # ''u2028'' @ r) = prepend [CHR 0xE2, CHR 0x80, CHR 0xA8] (scan_str r)"
    and "scan_str (BACKSLASH # ''u2029'' @ r) = prepend [CHR 0xE2, CHR 0x80, CHR 0xA9] (scan_str r)"
    by (simp_all add: scan_str_Cons simple_escape_def unhex_def)
  then show ?thesis
    using scan_plain_rune [OF assms, of r] by (auto simp: escape_rune_def)
qed

lemma scan_json_escape:
  "scan_str (json_escape s @ QUOTE # r) = Some (to_valid_utf8 s, r)"
proof (induction s rule: json_escape.induct)
  case (1 s)
  consider "s = []" | "s \<noteq> []" "rune_width s = 0" | "s \<noteq> []" "rune_width s = 1"
    | "s \<noteq> []" "2 \<le> rune_width s"
    by (metis One_nat_def Suc_1 less_2_cases not_less)
  then show ?case
  proof cases
    case 1
    then show ?thesis by (simp add: json_escape.simps scan_str_Cons)
  next
    case 2
    with "1.IH"(1) show ?thesis
      by (simp add: json_escape.simps [of s] to_valid_utf8.simps [of s]
          scan_replacement_escape [simplified])
  next
    case 3
    then obtain c t where s: "s = c # t" by (cases s) auto
    with 3 have c: "byte c < 0x80" using rune_width_not_ascii [of c t] by (cases "byte c < 0x80") auto
    with 3 "1.IH"(2) show ?thesis
      by (simp add: s json_escape.simps [of "c # t"] to_valid_utf8.simps [of "c # t"]
          scan_escape_ascii [OF c])
  next
    case 4
    then have "rune_width s \<noteq> 0" "rune_width s \<noteq> 1" by auto
    with 4 "1.IH"(3) show ?thesis
      by (simp add: json_escape.simps [of s] to_valid_utf8.simps [of s] scan_escape_rune)
  qed
qed

lemma scan_quote_string:
  "scan_str (tl (quote_string s @ r)) = Some (to_valid_utf8 s, r)"
  using scan_json_escape [of s r] by (simp add: quote_string_def)

text \<open>A scanned literal is never longer than what was consumed of the input.\<close>

lemma scan_str_shorter: "scan_str s = Some (t, r) \<Longrightarrow> length r < length s"
proof (induction s arbitrary: t r rule: scan_str.induct)
  case 1
  then show ?case by simp
next
  case (2 c cs)
  consider "c = QUOTE" | "c = BACKSLASH" | "c \<noteq> QUOTE" "c \<noteq> BACKSLASH" by blast
  then show ?case
  proof cases
    case 1
    with "2.prems" show ?thesis by (simp add: scan_str_Cons)
  next
    case 2
    with "2.prems" obtain e v where cs: "cs = e # v" by (cases cs) (auto simp: scan_str_Cons)
    show ?thesis
    proof (cases "simple_escape e")
      case (Some d)
      with "2.prems" 2 cs obtain u where "scan_str v = Some (u, r)"
        by (auto simp: scan_str_Cons prepend_eq_Some)
      with "2.IH"(2) 2 cs Some have "length r < length v" by simp
      with cs show ?thesis by simp
    next
      case None
      with "2.prems" 2 cs obtain k u where k: "hex4 v = Some k" "e = CHR ''u''"
        and u: "scan_str (drop (snd (unicode_escape k (drop 4 v))) (drop 4 v)) = Some (u, r)"
        by (auto simp: scan_str_Cons prepend_eq_Some split: if_splits option.splits)
      with "2.IH"(1) 2 cs None have "length r < length (drop (snd (unicode_escape k (drop 4 v))) (drop 4 v))"
        by simp
      with cs show ?thesis by simp
    qed
  next
    case 3
    show ?thesis
    proof (cases "rune_width (c # cs) = 0")
      case True
      with "2.prems" 3 obtain u where "scan_str cs = Some (u, r)" "\<not> byte c < 0x20"
        by (auto simp: scan_str_Cons prepend_eq_Some split: if_splits)
      with "2.IH"(3) 3 True show ?thesis by fastforce
    next
      case False
      with "2.prems" 3 obtain u where u: "scan_str (drop (rune_width (c # cs)) (c # cs)) = Some (u, r)"
        and "\<not> byte c < 0x20"
        by (auto simp: scan_str_Cons prepend_eq_Some split: if_splits)
      with "2.IH"(4) [OF 3 _ False u] show ?thesis by simp
    qed
  qed
qed

end
