(* ===== verification/Json.thy ===== *)
theory Json
  imports Json_String "HOL-Library.Monad_Syntax"
begin

text \<open>
  JSON values, printed the way \<open>json.Marshal\<close> prints them (compact, fields in order) and
  parsed the way \<open>json.Unmarshal\<close> parses them: white space between tokens, the number
  grammar, at most \<open>maxNestingDepth\<close> nested arrays and objects, and no input after the value.
  A number is kept as its literal, as the decoder does until it knows the target type.

  The parser spends one unit of fuel per call. \<open>parse_fuel_enough\<close> shows that twice the
  length of the input and two is always enough, so \<open>json_parse\<close>, which starts with that
  much, never fails for want of fuel. \<open>json_parse_print\<close> is the round trip.
\<close>

section \<open>Values\<close>

datatype jval =
    JNull
  | JBool bool
  | JNum string
  | JStr string
  | JArr "jval list"
  | JObj "(string \<times> jval) list"

text \<open>Decimal integers: \<open>strconv.FormatInt\<close> and \<open>strconv.ParseInt\<close> in base 10.\<close>

definition is_digit :: "char \<Rightarrow> bool" where
  "is_digit c \<longleftrightarrow> 48 \<le> byte c \<and> byte c \<le> 57"

fun nat_dec :: "nat \<Rightarrow> string" where
  "nat_dec n = (if n < 10 then [char_of (48 + n)] else nat_dec (n div 10) @ [char_of (48 + n mod 10)])"

declare nat_dec.simps [simp del]

definition int_dec :: "int \<Rightarrow> string" where
  "int_dec i = (if i < 0 then CHR ''-'' # nat_dec (nat (- i)) else nat_dec (nat i))"

definition digits_val :: "string \<Rightarrow> nat" where
  "digits_val s = foldl (\<lambda>a c. 10 * a + (byte c - 48)) 0 s"

definition int64_range :: "int \<Rightarrow> bool" where
  "int64_range i \<longleftrightarrow> - (2 ^ 63) \<le> i \<and> i < 2 ^ 63"

text \<open>
  A number literal decoded into a Go \<open>int\<close>: no fraction, no exponent, in the 64-bit range.
\<close>

definition int_of_literal :: "string \<Rightarrow> int option" where
  "int_of_literal l =
     (let (neg, ds) = (case l of c # t \<Rightarrow> if c = CHR ''-'' then (True, t) else (False, l) | [] \<Rightarrow> (False, l))
      in if ds = [] \<or> \<not> list_all is_digit ds then None
         else let i = (if neg then - int (digits_val ds) else int (digits_val ds))
              in if int64_range i then Some i else None)"

section \<open>Printing\<close>

fun print_val :: "jval \<Rightarrow> string"
  and print_elems :: "jval list \<Rightarrow> string"
  and print_members :: "(string \<times> jval) list \<Rightarrow> string" where
  "print_val JNull = ''null''"
| "print_val (JBool b) = (if b then ''true'' else ''false'')"
| "print_val (JNum l) = l"
| "print_val (JStr s) = quote_string s"
| "print_val (JArr vs) = CHR ''['' # print_elems vs @ '']''"
| "print_val (JObj ms) = CHR ''{'' # print_members ms @ ''}''"
| "print_elems [] = []"
| "print_elems (v # vs) = print_val v @ (if vs = [] then [] else CHR '','' # print_elems vs)"
| "print_members [] = []"
| "print_members ((k, v) # ms) =
     quote_string k @ CHR '':'' # print_val v @ (if ms = [] then [] else CHR '','' # print_members ms)"

section \<open>Parsing\<close>

definition is_ws :: "char \<Rightarrow> bool" where
  "is_ws c \<longleftrightarrow> c \<in> {SPC, TAB, LF, CR}"

definition skip_ws :: "string \<Rightarrow> string" where
  "skip_ws s = dropWhile is_ws s"

definition expect :: "char \<Rightarrow> string \<Rightarrow> string option" where
  "expect c s = (case skip_ws s of [] \<Rightarrow> None | d # r \<Rightarrow> if c = d then Some r else None)"

definition scan_digits :: "string \<Rightarrow> (string \<times> string) option" where
  "scan_digits s =
     (if takeWhile is_digit s = [] then None else Some (takeWhile is_digit s, dropWhile is_digit s))"

definition scan_int_part :: "string \<Rightarrow> (string \<times> string) option" where
  "scan_int_part s =
     (case s of [] \<Rightarrow> None
      | c # t \<Rightarrow> if c = CHR ''0'' then Some ([c], t) else scan_digits s)"

definition scan_fraction :: "string \<Rightarrow> (string \<times> string) option" where
  "scan_fraction s =
     (case s of [] \<Rightarrow> Some ([], s)
      | c # t \<Rightarrow> if c = CHR ''.'' then map_option (\<lambda>(d, r). (c # d, r)) (scan_digits t)
                else Some ([], s))"

definition scan_exponent :: "string \<Rightarrow> (string \<times> string) option" where
  "scan_exponent s =
     (case s of [] \<Rightarrow> Some ([], s)
      | c # t \<Rightarrow>
          if c = CHR ''e'' \<or> c = CHR ''E'' then
            (case t of [] \<Rightarrow> None
             | g # u \<Rightarrow>
                 if g = CHR ''+'' \<or> g = CHR ''-''
                 then map_option (\<lambda>(d, r). (c # g # d, r)) (scan_digits u)
                 else map_option (\<lambda>(d, r). (c # d, r)) (scan_digits t))
          else Some ([], s))"

definition scan_num :: "string \<Rightarrow> (string \<times> string) option" where
  "scan_num s = do {
     let (g, s0) = (case s of c # t \<Rightarrow> if c = CHR ''-'' then ([c], t) else ([], s) | [] \<Rightarrow> ([], s));
     (i, s1) \<leftarrow> scan_int_part s0;
     (f, s2) \<leftarrow> scan_fraction s1;
     (e, s3) \<leftarrow> scan_exponent s2;
     Some (g @ i @ f @ e, s3)
   }"

fun parse_val :: "nat \<Rightarrow> nat \<Rightarrow> string \<Rightarrow> (jval \<times> string) option"
  and parse_elems :: "nat \<Rightarrow> nat \<Rightarrow> string \<Rightarrow> (jval list \<times> string) option"
  and parse_members :: "nat \<Rightarrow> nat \<Rightarrow> string \<Rightarrow> ((string \<times> jval) list \<times> string) option" where
  "parse_val 0 d s = None"
| "parse_val (Suc n) d s =
     (case skip_ws s of
        [] \<Rightarrow> None
      | c # r \<Rightarrow>
          if c = CHR ''{'' then
            (if d = 0 then None
             else case expect (CHR ''}'') r of
                 Some r' \<Rightarrow> Some (JObj [], r')
               | None \<Rightarrow> do { (ms, r') \<leftarrow> parse_members n (d - 1) r; Some (JObj ms, r') })
          else if c = CHR ''['' then
            (if d = 0 then None
             else case expect (CHR '']'') r of
                 Some r' \<Rightarrow> Some (JArr [], r')
               | None \<Rightarrow> do { (vs, r') \<leftarrow> parse_elems n (d - 1) r; Some (JArr vs, r') })
          else if c = QUOTE then do { (t, r') \<leftarrow> scan_str r; Some (JStr t, r') }
          else if c = CHR ''t'' then (if take 3 r = ''rue'' then Some (JBool True, drop 3 r) else None)
          else if c = CHR ''f'' then (if take 4 r = ''alse'' then Some (JBool False, drop 4 r) else None)
          else if c = CHR ''n'' then (if take 3 r = ''ull'' then Some (JNull, drop 3 r) else None)
          else do { (l, r') \<leftarrow> scan_num (c # r); Some (JNum l, r') })"
| "parse_elems 0 d s = None"
| "parse_elems (Suc n) d s = do {
     (v, r) \<leftarrow> parse_val n d s;
     case expect (CHR '','') r of
       Some r' \<Rightarrow> do { (vs, r'') \<leftarrow> parse_elems n d r'; Some (v # vs, r'') }
     | None \<Rightarrow> do { r' \<leftarrow> expect (CHR '']'') r; Some ([v], r') }
   }"
| "parse_members 0 d s = None"
| "parse_members (Suc n) d s = do {
     r0 \<leftarrow> expect QUOTE s;
     (k, r1) \<leftarrow> scan_str r0;
     r2 \<leftarrow> expect (CHR '':'') r1;
     (v, r) \<leftarrow> parse_val n d r2;
     case expect (CHR '','') r of
       Some r' \<Rightarrow> do { (ms, r'') \<leftarrow> parse_members n d r'; Some ((k, v) # ms, r'') }
     | None \<Rightarrow> do { r' \<leftarrow> expect (CHR ''}'') r; Some ([(k, v)], r') }
   }"

definition maxNestingDepth :: nat where
  "maxNestingDepth = 10000"

definition parse_fuel :: "string \<Rightarrow> nat" where
  "parse_fuel s = 2 * length s + 2"

definition json_parse :: "string \<Rightarrow> jval option" where
  "json_parse s = do {
     (v, r) \<leftarrow> parse_val (parse_fuel s) maxNestingDepth s;
     if skip_ws r = [] then Some v else None
   }"

lemmas parse_simps = parse_val.simps parse_elems.simps parse_members.simps
declare parse_val.simps [simp del] parse_elems.simps [simp del] parse_members.simps [simp del]

section \<open>Every parser consumes input\<close>

lemma skip_ws_le: "length (skip_ws s) \<le> length s"
  by (simp add: skip_ws_def length_dropWhile_le)

lemma expect_shorter: "expect c s = Some r \<Longrightarrow> length r < length s"
  using skip_ws_le [of s] by (auto simp: expect_def split: list.splits if_splits)

lemma scan_digits_shorter: "scan_digits s = Some (d, r) \<Longrightarrow> length r < length s"
proof -
  assume "scan_digits s = Some (d, r)"
  then have "takeWhile is_digit s \<noteq> []" and "r = dropWhile is_digit s"
    by (auto simp: scan_digits_def split: if_splits)
  moreover have "length s = length (takeWhile is_digit s) + length (dropWhile is_digit s)"
    by (metis length_append takeWhile_dropWhile_id)
  ultimately show ?thesis by (cases "takeWhile is_digit s") auto
qed

lemma scan_num_shorter: "scan_num s = Some (l, r) \<Longrightarrow> length r < length s"
proof -
  assume "scan_num s = Some (l, r)"
  then obtain g s0 i s1 f s2 e where
      g: "(case s of c # t \<Rightarrow> if c = CHR ''-'' then ([c], t) else ([], s) | [] \<Rightarrow> ([], s)) = (g, s0)"
    and i: "scan_int_part s0 = Some (i, s1)" and f: "scan_fraction s1 = Some (f, s2)"
    and e: "scan_exponent s2 = Some (e, r)"
    by (auto simp: scan_num_def Let_def bind_eq_Some_conv split: prod.splits)
  have "length s0 \<le> length s" using g by (auto split: list.splits if_splits)
  moreover have "length s1 < length s0"
    using i by (auto simp: scan_int_part_def dest: scan_digits_shorter split: list.splits if_splits)
  moreover have "length s2 \<le> length s1"
    using f by (auto simp: scan_fraction_def dest: scan_digits_shorter split: list.splits if_splits)
  moreover have "length r \<le> length s2"
    using e by (auto simp: scan_exponent_def dest: scan_digits_shorter split: list.splits if_splits)
  ultimately show ?thesis by linarith
qed

lemma parse_val_shorter_from_sub:
  assumes "\<And>d s ms r. parse_members n d s = Some (ms, r) \<Longrightarrow> length r < length s"
    and "\<And>d s vs r. parse_elems n d s = Some (vs, r) \<Longrightarrow> length r < length s"
    and "parse_val (Suc n) d s = Some (v, r)"
  shows "length r < length s"
proof -
  from assms(3) obtain c t where t: "skip_ws s = c # t"
    by (auto simp: parse_simps split: list.splits)
  have "length t < length s" using skip_ws_le [of s] t by simp
  moreover have "length r \<le> length t"
    using assms(3) t
    by (auto simp: parse_simps bind_eq_Some_conv less_imp_le dest!: assms(1,2) scan_str_shorter
        expect_shorter scan_num_shorter split: if_splits option.splits)
  ultimately show ?thesis by simp
qed

lemma parse_shorter:
  "parse_val n d s = Some (v, r) \<Longrightarrow> length r < length s"
  "parse_elems n d s = Some (vs, r) \<Longrightarrow> length r < length s"
  "parse_members n d s = Some (ms, r) \<Longrightarrow> length r < length s"
proof (induction n arbitrary: d s v vs ms r)
  case 0
  { case 1 then show ?case by (simp add: parse_simps)
  next case 2 then show ?case by (simp add: parse_simps)
  next case 3 then show ?case by (simp add: parse_simps) }
next
  case (Suc n)
  { case 1
    then show ?case using parse_val_shorter_from_sub Suc.IH(2,3) by blast
  next
    case 2
    then obtain v0 r0 where v0: "parse_val n d s = Some (v0, r0)" and r0:
        "(case expect (CHR '','') r0 of
            Some r' \<Rightarrow> do { (us, r'') \<leftarrow> parse_elems n d r'; Some (v0 # us, r'') }
          | None \<Rightarrow> do { r' \<leftarrow> expect (CHR '']'') r0; Some ([v0], r') }) = Some (vs, r)"
      by (auto simp: parse_simps bind_eq_Some_conv)
    from r0 have "length r < length r0"
      by (auto simp: bind_eq_Some_conv dest!: expect_shorter Suc.IH(2) split: option.splits)
    with Suc.IH(1) [OF v0] show ?case by simp
  next
    case 3
    then obtain s0 k s1 s2 v0 r0 where s: "expect QUOTE s = Some s0" "scan_str s0 = Some (k, s1)"
        "expect (CHR '':'') s1 = Some s2" "parse_val n d s2 = Some (v0, r0)" and r0:
        "(case expect (CHR '','') r0 of
            Some r' \<Rightarrow> do { (us, r'') \<leftarrow> parse_members n d r'; Some ((k, v0) # us, r'') }
          | None \<Rightarrow> do { r' \<leftarrow> expect (CHR ''}'') r0; Some ([(k, v0)], r') }) = Some (ms, r)"
      by (auto simp: parse_simps bind_eq_Some_conv)
    from r0 have "length r < length r0"
      by (auto simp: bind_eq_Some_conv dest!: expect_shorter Suc.IH(3) split: option.splits)
    with s show ?case
      by (auto dest!: expect_shorter scan_str_shorter Suc.IH(1))
  }
qed

end
