(* ===== verification/Json_Correct.thy ===== *)
theory Json_Correct
  imports Json
begin

text \<open>
  The two facts about the JSON model that the wire format rests on: the fuel the parser is
  started with is always enough (any larger amount gives the same result), and parsing what
  was printed gives back the value with its strings coerced to valid UTF-8.
\<close>

section \<open>Enough fuel\<close>

lemma parse_fuel_irrelevant:
  "\<lbrakk>2 * length s < n; 2 * length s < m\<rbrakk> \<Longrightarrow> parse_val n d s = parse_val m d s"
  "\<lbrakk>2 * length s + 1 < n; 2 * length s + 1 < m\<rbrakk> \<Longrightarrow> parse_elems n d s = parse_elems m d s"
  "\<lbrakk>2 * length s + 1 < n; 2 * length s + 1 < m\<rbrakk> \<Longrightarrow> parse_members n d s = parse_members m d s"
proof (induction n arbitrary: m d s)
  case 0
  { case 1 then show ?case by simp
  next case 2 then show ?case by simp
  next case 3 then show ?case by simp }
next
  case (Suc n)
  { case 1
    then obtain k where m: "m = Suc k" by (cases m) auto
    have "parse_members n e r = parse_members k e r" "parse_elems n e r = parse_elems k e r"
      if "skip_ws s = c # r" for c r e
      using 1 that skip_ws_le [of s] by (auto simp: m intro!: Suc.IH(2,3))
    then show ?case
      by (cases "skip_ws s") (simp_all add: m parse_simps split: option.split)
  next
    case 2
    then obtain k where m: "m = Suc k" by (cases m) auto
    have "parse_val n d s = parse_val k d s" using 2 m by (intro Suc.IH(1)) auto
    moreover have "parse_elems n d r' = parse_elems k d r'"
      if "parse_val k d s = Some (v, r)" "expect (CHR '','') r = Some r'" for v r r'
      using 2 m parse_shorter(1) [OF that(1)] expect_shorter [OF that(2)]
      by (intro Suc.IH(2)) auto
    ultimately show ?case
      by (auto simp: m parse_simps intro!: bind_option_cong split: option.splits)
  next
    case 3
    then obtain k where m: "m = Suc k" by (cases m) auto
    have "parse_val n d s2 = parse_val k d s2"
      if "expect QUOTE s = Some s0" "scan_str s0 = Some (l, s1)" "expect (CHR '':'') s1 = Some s2"
      for s0 l s1 s2
      using 3 m that by (intro Suc.IH(1)) (auto dest!: expect_shorter scan_str_shorter)
    moreover have "parse_members n d r' = parse_members k d r'"
      if "expect QUOTE s = Some s0" "scan_str s0 = Some (l, s1)" "expect (CHR '':'') s1 = Some s2"
        "parse_val k d s2 = Some (v, r)" "expect (CHR '','') r = Some r'" for s0 l s1 s2 v r r'
      using 3 m that parse_shorter(1) [OF that(4)]
      by (intro Suc.IH(3)) (auto dest!: expect_shorter scan_str_shorter)
    ultimately show ?case
      by (auto simp: m parse_simps intro!: bind_option_cong split: option.splits)
  }
qed

lemma parse_fuel_enough:
  "parse_fuel s \<le> n \<Longrightarrow> parse_val n d s = parse_val (parse_fuel s) d s"
  by (rule parse_fuel_irrelevant) (auto simp: parse_fuel_def)

section \<open>Decimal literals\<close>

lemma byte_digit: "n < 10 \<Longrightarrow> byte (char_of (48 + n)) = 48 + n"
  by simp

lemma nat_dec_digits: "list_all is_digit (nat_dec n)"
proof (induction n rule: nat_dec.induct)
  case (1 n)
  have "n mod 10 < 10" by simp
  with 1 show ?case by (cases "n < 10") (simp_all add: nat_dec.simps [of n] is_digit_def)
qed

lemma nat_dec_Nil [simp]: "nat_dec n \<noteq> []"
  by (subst nat_dec.simps) simp

lemma digits_val_snoc: "digits_val (s @ [c]) = 10 * digits_val s + (byte c - 48)"
  by (simp add: digits_val_def)

lemma digits_val_nat_dec: "digits_val (nat_dec n) = n"
proof (induction n rule: nat_dec.induct)
  case (1 n)
  show ?case
  proof (cases "n < 10")
    case True
    then show ?thesis by (simp add: nat_dec.simps [of n] digits_val_def)
  next
    case False
    with 1 show ?thesis by (simp add: nat_dec.simps [of n] digits_val_snoc)
  qed
qed

lemma nat_dec_head: "nat_dec n = c # t \<Longrightarrow> is_digit c \<and> (c = CHR ''0'' \<longrightarrow> n = 0 \<and> t = [])"
proof (induction n arbitrary: c t rule: nat_dec.induct)
  case (1 n)
  show ?case
  proof (cases "n < 10")
    case True
    have "char_of (48 + n) \<noteq> CHR ''0''" if "n \<noteq> 0"
    proof
      assume "char_of (48 + n) = CHR ''0''"
      then have "byte (char_of (48 + n)) = 48" by simp
      with True that show False by simp
    qed
    with True 1 show ?thesis by (auto simp: nat_dec.simps [of n] is_digit_def)
  next
    case False
    with "1.prems" obtain u where "nat_dec (n div 10) = c # u"
      by (auto simp: nat_dec.simps [of n] append_eq_Cons_conv)
    with 1 False show ?thesis by auto
  qed
qed

definition number_end :: "string \<Rightarrow> bool" where
  "number_end r \<longleftrightarrow> r = [] \<or> \<not> (is_digit (hd r) \<or> hd r \<in> set ''.eE'')"

lemma takeWhile_digits:
  assumes "list_all is_digit ds" and "number_end r"
  shows "takeWhile is_digit (ds @ r) = ds" and "dropWhile is_digit (ds @ r) = r"
  using assms by (induction ds) (auto simp: number_end_def takeWhile_eq_Nil_iff dropWhile_eq_self_iff)

lemma scan_int_part_nat_dec: "number_end r \<Longrightarrow> scan_int_part (nat_dec n @ r) = Some (nat_dec n, r)"
proof -
  assume r: "number_end r"
  obtain c t where c: "nat_dec n = c # t" by (cases "nat_dec n") auto
  have "scan_digits (nat_dec n @ r) = Some (nat_dec n, r)"
    using takeWhile_digits [OF nat_dec_digits r, of n] by (simp add: scan_digits_def)
  with c nat_dec_head [OF c] show ?thesis by (simp add: scan_int_part_def)
qed

lemma scan_num_int_dec: "number_end r \<Longrightarrow> scan_num (int_dec i @ r) = Some (int_dec i, r)"
proof -
  assume r: "number_end r"
  have tail: "scan_fraction r = Some ([], r)" "scan_exponent r = Some ([], r)"
    using r by (auto simp: number_end_def scan_fraction_def scan_exponent_def split: list.splits)
  obtain c t where c: "nat_dec (nat i) = c # t" by (cases "nat_dec (nat i)") auto
  with nat_dec_head [OF c] have "c \<noteq> CHR ''-''" by (auto simp: is_digit_def)
  with c tail r show ?thesis
    using scan_int_part_nat_dec [OF r, of "nat i"] scan_int_part_nat_dec [OF r, of "nat (- i)"]
    by (simp add: scan_num_def int_dec_def)
qed

lemma int_of_literal_int_dec: "int64_range i \<Longrightarrow> int_of_literal (int_dec i) = Some i"
proof -
  assume i: "int64_range i"
  obtain c t where c: "nat_dec (nat i) = c # t" by (cases "nat_dec (nat i)") auto
  with nat_dec_head [OF c] have "c \<noteq> CHR ''-''" by (auto simp: is_digit_def)
  with c i nat_dec_digits [of "nat i"] digits_val_nat_dec [of "nat i"] show ?thesis
    by (simp add: int_of_literal_def int_dec_def nat_dec_digits digits_val_nat_dec)
qed

lemma int_dec_head: "int_dec i = c # t \<Longrightarrow> is_digit c \<or> c = CHR ''-''"
  by (auto simp: int_dec_def dest: nat_dec_head split: if_splits)

section \<open>Printing, then parsing\<close>

text \<open>What a value becomes on its way through the wire: every string and key coerced.\<close>

fun coerce_val :: "jval \<Rightarrow> jval"
  and coerce_elems :: "jval list \<Rightarrow> jval list"
  and coerce_members :: "(string \<times> jval) list \<Rightarrow> (string \<times> jval) list" where
  "coerce_val JNull = JNull"
| "coerce_val (JBool b) = JBool b"
| "coerce_val (JNum l) = JNum l"
| "coerce_val (JStr s) = JStr (to_valid_utf8 s)"
| "coerce_val (JArr vs) = JArr (coerce_elems vs)"
| "coerce_val (JObj ms) = JObj (coerce_members ms)"
| "coerce_elems [] = []"
| "coerce_elems (v # vs) = coerce_val v # coerce_elems vs"
| "coerce_members [] = []"
| "coerce_members ((k, v) # ms) = (to_valid_utf8 k, coerce_val v) # coerce_members ms"

text \<open>
  The values the printer is used on: number literals that are decimal integers, nested no
  deeper than the parser accepts.
\<close>

fun printable :: "nat \<Rightarrow> jval \<Rightarrow> bool"
  and printable_elems :: "nat \<Rightarrow> jval list \<Rightarrow> bool"
  and printable_members :: "nat \<Rightarrow> (string \<times> jval) list \<Rightarrow> bool" where
  "printable d (JNum l) = (\<exists>i. l = int_dec i)"
| "printable d (JArr vs) = (0 < d \<and> printable_elems (d - 1) vs)"
| "printable d (JObj ms) = (0 < d \<and> printable_members (d - 1) ms)"
| "printable d v = True"
| "printable_elems d [] = True"
| "printable_elems d (v # vs) = (printable d v \<and> printable_elems d vs)"
| "printable_members d [] = True"
| "printable_members d ((k, v) # ms) = (printable d v \<and> printable_members d ms)"

lemma skip_ws_Cons [simp]: "\<not> is_ws c \<Longrightarrow> skip_ws (c # t) = c # t"
  by (simp add: skip_ws_def)

lemma is_ws_simps [simp]:
  "\<not> is_ws (CHR ''{'')" "\<not> is_ws (CHR ''}'')" "\<not> is_ws (CHR ''['')" "\<not> is_ws (CHR '']'')"
  "\<not> is_ws (CHR '','')" "\<not> is_ws (CHR '':'')" "\<not> is_ws QUOTE" "\<not> is_ws (CHR ''t'')"
  "\<not> is_ws (CHR ''f'')" "\<not> is_ws (CHR ''n'')" "\<not> is_ws (CHR ''-'')"
  by (simp_all add: is_ws_def)

lemma expect_simps [simp]:
  "\<not> is_ws c \<Longrightarrow> expect c (c # r) = Some r"
  "\<not> is_ws d \<Longrightarrow> c \<noteq> d \<Longrightarrow> expect c (d # r) = None"
  by (simp_all add: expect_def)

text \<open>A printed value starts with a character that is neither white space nor punctuation.\<close>

lemma int_dec_Cons: obtains c t where "int_dec i = c # t" and "is_digit c \<or> c = CHR ''-''"
  using int_dec_head by (cases "int_dec i") (auto simp: int_dec_def split: if_splits)

lemma print_val_head:
  assumes "printable d v"
  obtains c t where "print_val v = c # t" and "\<not> is_ws c" and "c \<notin> set '']},:''"
proof (cases v)
  case (JNum l)
  with assms obtain i where "l = int_dec i" by auto
  moreover obtain c t where "int_dec i = c # t" and c: "is_digit c \<or> c = CHR ''-''"
    by (rule int_dec_Cons)
  moreover from c have "\<not> is_ws c" "c \<notin> set '']},:''" by (auto simp: is_digit_def is_ws_def)
  ultimately show ?thesis using that JNum by simp
next
  case (JBool b)
  then show ?thesis using that by (cases b) auto
qed (use that in \<open>auto simp: quote_string_def\<close>)

lemma parse_val_int:
  assumes "number_end r"
  shows "parse_val (Suc n) d (int_dec i @ r) = Some (JNum (int_dec i), r)"
proof -
  obtain c t where c: "int_dec i = c # t" "is_digit c \<or> c = CHR ''-''" by (rule int_dec_Cons)
  then have "\<not> is_ws c" "c \<notin> {CHR ''{'', CHR ''['', QUOTE, CHR ''t'', CHR ''f'', CHR ''n''}"
    by (auto simp: is_digit_def is_ws_def)
  then show ?thesis using scan_num_int_dec [OF assms, of i] c(1) by (simp add: parse_simps)
qed

lemma number_end_simps [simp]:
  "number_end []" "number_end (CHR '','' # r)" "number_end (CHR '']'' # r)"
  "number_end (CHR ''}'' # r)"
  by (simp_all add: number_end_def is_digit_def)

lemma all_from_Suc: "(\<forall>n\<ge>Suc N. P n) \<longleftrightarrow> (\<forall>n\<ge>N. P (Suc n))"
  by (metis Suc_le_D Suc_le_mono)

lemma parse_print:
  "\<lbrakk>printable d v; number_end r\<rbrakk>
    \<Longrightarrow> \<exists>N. \<forall>n\<ge>N. parse_val n d (print_val v @ r) = Some (coerce_val v, r)"
  "\<lbrakk>printable_elems d vs; vs \<noteq> []\<rbrakk>
    \<Longrightarrow> \<exists>N. \<forall>n\<ge>N. parse_elems n d (print_elems vs @ CHR '']'' # r) = Some (coerce_elems vs, r)"
  "\<lbrakk>printable_members d ms; ms \<noteq> []\<rbrakk>
    \<Longrightarrow> \<exists>N. \<forall>n\<ge>N. parse_members n d (print_members ms @ CHR ''}'' # r) = Some (coerce_members ms, r)"
proof (induction v and vs and ms arbitrary: d r and d r and d r
    rule: print_val_print_elems_print_members.induct)
  case 1
  have "\<forall>n\<ge>1. parse_val n d (print_val JNull @ r) = Some (coerce_val JNull, r)"
    by (auto simp: Suc_le_eq gr0_conv_Suc parse_simps)
  then show ?case by blast
next
  case (2 b)
  have "\<forall>n\<ge>1. parse_val n d (print_val (JBool b) @ r) = Some (coerce_val (JBool b), r)"
    by (auto simp: Suc_le_eq gr0_conv_Suc parse_simps)
  then show ?case by blast
next
  case (3 l)
  then obtain i where "l = int_dec i" by auto
  with 3 have "\<forall>n\<ge>1. parse_val n d (print_val (JNum l) @ r) = Some (coerce_val (JNum l), r)"
    by (auto simp: Suc_le_eq gr0_conv_Suc parse_val_int)
  then show ?case by blast
next
  case (4 s)
  have "\<forall>n\<ge>1. parse_val n d (print_val (JStr s) @ r) = Some (coerce_val (JStr s), r)"
    by (auto simp: Suc_le_eq gr0_conv_Suc parse_simps quote_string_def scan_json_escape)
  then show ?case by blast
next
  case (5 vs)
  show ?case
  proof (cases vs)
    case Nil
    with 5 have "\<forall>n\<ge>1. parse_val n d (print_val (JArr vs) @ r) = Some (coerce_val (JArr vs), r)"
      by (auto simp: Suc_le_eq gr0_conv_Suc parse_simps)
    then show ?thesis by blast
  next
    case (Cons w ws)
    from 5 obtain N where N: "\<forall>n\<ge>N. parse_elems n (d - 1) (print_elems vs @ CHR '']'' # r)
        = Some (coerce_elems vs, r)"
      using Cons by fastforce
    from 5 Cons have "printable (d - 1) w" by simp
    then obtain c t where w: "print_val w = c # t" "\<not> is_ws c" "c \<notin> set '']},:''"
      by (rule print_val_head)
    then have "expect (CHR '']'') (print_elems vs @ CHR '']'' # r) = None" by (auto simp: Cons expect_def)
    with N 5 have "\<forall>n\<ge>Suc N. parse_val n d (print_val (JArr vs) @ r) = Some (coerce_val (JArr vs), r)"
      by (auto simp: parse_simps all_from_Suc)
    then show ?thesis by blast
  qed
next
  case (6 ms)
  show ?case
  proof (cases ms)
    case Nil
    with 6 have "\<forall>n\<ge>1. parse_val n d (print_val (JObj ms) @ r) = Some (coerce_val (JObj ms), r)"
      by (auto simp: Suc_le_eq gr0_conv_Suc parse_simps)
    then show ?thesis by blast
  next
    case (Cons w ws)
    from 6 obtain N where N: "\<forall>n\<ge>N. parse_members n (d - 1) (print_members ms @ CHR ''}'' # r)
        = Some (coerce_members ms, r)"
      using Cons by fastforce
    have "expect (CHR ''}'') (print_members ms @ CHR ''}'' # r) = None"
      by (cases w) (simp add: Cons quote_string_def)
    with N 6 have "\<forall>n\<ge>Suc N. parse_val n d (print_val (JObj ms) @ r) = Some (coerce_val (JObj ms), r)"
      by (auto simp: parse_simps all_from_Suc)
    then show ?thesis by blast
  qed
next
  case 7
  then show ?case by simp
next
  case (8 v vs)
  have tail: "number_end ((if vs = [] then [] else CHR '','' # print_elems vs) @ CHR '']'' # r)"
    by simp
  from 8 have "printable d v" by simp
  from "8.IH"(1) [OF this tail] obtain N1 where N1: "\<forall>n\<ge>N1. parse_val n d
      (print_val v @ (if vs = [] then [] else CHR '','' # print_elems vs) @ CHR '']'' # r)
      = Some (coerce_val v, (if vs = [] then [] else CHR '','' # print_elems vs) @ CHR '']'' # r)"
    by blast
  show ?case
  proof (cases vs)
    case Nil
    with N1 have "\<forall>n\<ge>Suc N1. parse_elems n d (print_elems (v # vs) @ CHR '']'' # r)
        = Some (coerce_elems (v # vs), r)"
      by (auto simp: parse_simps all_from_Suc)
    then show ?thesis by blast
  next
    case (Cons w ws)
    with 8 obtain N2 where "\<forall>n\<ge>N2. parse_elems n d (print_elems vs @ CHR '']'' # r) = Some (coerce_elems vs, r)"
      by fastforce
    with N1 Cons have "\<forall>n\<ge>Suc (max N1 N2). parse_elems n d (print_elems (v # vs) @ CHR '']'' # r)
        = Some (coerce_elems (v # vs), r)"
      by (auto simp: parse_simps all_from_Suc)
    then show ?thesis by blast
  qed
next
  case 9
  then show ?case by simp
next
  case (10 k v ms)
  have tail: "number_end ((if ms = [] then [] else CHR '','' # print_members ms) @ CHR ''}'' # r)"
    by simp
  from 10 have "printable d v" by simp
  from "10.IH"(1) [OF this tail] obtain N1 where N1: "\<forall>n\<ge>N1. parse_val n d
      (print_val v @ (if ms = [] then [] else CHR '','' # print_members ms) @ CHR ''}'' # r)
      = Some (coerce_val v, (if ms = [] then [] else CHR '','' # print_members ms) @ CHR ''}'' # r)"
    by blast
  show ?case
  proof (cases ms)
    case Nil
    with N1 have "\<forall>n\<ge>Suc N1. parse_members n d (print_members ((k, v) # ms) @ CHR ''}'' # r)
        = Some (coerce_members ((k, v) # ms), r)"
      by (auto simp: parse_simps quote_string_def scan_json_escape all_from_Suc)
    then show ?thesis by blast
  next
    case (Cons w ws)
    with 10 obtain N2 where "\<forall>n\<ge>N2. parse_members n d (print_members ms @ CHR ''}'' # r)
        = Some (coerce_members ms, r)"
      by fastforce
    with N1 Cons have "\<forall>n\<ge>Suc (max N1 N2). parse_members n d (print_members ((k, v) # ms) @ CHR ''}'' # r)
        = Some (coerce_members ((k, v) # ms), r)"
      by (auto simp: parse_simps quote_string_def scan_json_escape all_from_Suc)
    then show ?thesis by blast
  qed
qed

lemma json_parse_print:
  assumes "printable maxNestingDepth v"
  shows "json_parse (print_val v) = Some (coerce_val v)"
proof -
  obtain N where "\<forall>n\<ge>N. parse_val n maxNestingDepth (print_val v) = Some (coerce_val v, [])"
    using parse_print(1) [OF assms, of "[]"] by auto
  then have "parse_val (parse_fuel (print_val v)) maxNestingDepth (print_val v) = Some (coerce_val v, [])"
    using parse_fuel_enough [of "print_val v" "max N (parse_fuel (print_val v))" maxNestingDepth]
    by (metis max.cobounded1 max.cobounded2)
  then show ?thesis by (simp add: json_parse_def skip_ws_def)
qed

end
