(* ===== verification/Wire.thy ===== *)
theory Wire
  imports Json_Correct
begin

text \<open>
  The wire types of \<open>types.go\<close> and \<open>event.go\<close>: the event every binding carries, the
  payload structs with their JSON field names, and how \<open>encoding/json\<close> writes and reads
  them. A Go struct is a record; marshalling goes through a JSON value, unmarshalling folds
  the members of an object over the struct that is being filled, as the decoder does.
\<close>

named_theorems wire_consts \<open>the protocol's string constants\<close>
named_theorems wire_enc \<open>the encoders of the payload structs\<close>
named_theorems wire_dec \<open>the decoders of the payload structs\<close>

section \<open>Events\<close>

text \<open>\<open>Event\<close> of \<open>event.go\<close>: \<open>Data\<close> is the raw JSON, as bytes.\<close>

record event =
  ev_ID :: string
  ev_Event :: string
  ev_Data :: string

section \<open>Names\<close>

definition EventTypeMessageStart :: string where [wire_consts]: "EventTypeMessageStart = ''message_start''"
definition EventTypeContentBlockStart :: string where [wire_consts]: "EventTypeContentBlockStart = ''content_block_start''"
definition EventTypePing :: string where [wire_consts]: "EventTypePing = ''ping''"
definition EventTypeContentBlockDelta :: string where [wire_consts]: "EventTypeContentBlockDelta = ''content_block_delta''"
definition EventTypeContentBlockStop :: string where [wire_consts]: "EventTypeContentBlockStop = ''content_block_stop''"
definition EventTypeMessageDelta :: string where [wire_consts]: "EventTypeMessageDelta = ''message_delta''"
definition EventTypeMessageStop :: string where [wire_consts]: "EventTypeMessageStop = ''message_stop''"

definition MessageTypeMessage :: string where [wire_consts]: "MessageTypeMessage = ''message''"

definition ContentBlockTypeText :: string where [wire_consts]: "ContentBlockTypeText = ''text''"
definition ContentBlockTypeTextDelta :: string where [wire_consts]: "ContentBlockTypeTextDelta = ''text_delta''"
definition ContentBlockTypeThinking :: string where [wire_consts]: "ContentBlockTypeThinking = ''thinking''"
definition ContentBlockTypeThinkingDelta :: string where [wire_consts]: "ContentBlockTypeThinkingDelta = ''thinking_delta''"
definition ContentBlockTypeToolUse :: string where [wire_consts]: "ContentBlockTypeToolUse = ''tool_use''"
definition ContentBlockTypeToolResult :: string where [wire_consts]: "ContentBlockTypeToolResult = ''tool_result''"
definition ContentBlockTypeInputJSON :: string where [wire_consts]: "ContentBlockTypeInputJSON = ''input_json_delta''"
definition ContentBlockTypeJSONPartial :: string where [wire_consts]: "ContentBlockTypeJSONPartial = ''json_partial''"

definition StopReasonEndTurn :: string where [wire_consts]: "StopReasonEndTurn = ''end_turn''"
definition StopReasonToolUse :: string where [wire_consts]: "StopReasonToolUse = ''tool_use''"
definition StopReasonMaxTokens :: string where [wire_consts]: "StopReasonMaxTokens = ''max_tokens''"

definition RoleAssistant :: string where [wire_consts]: "RoleAssistant = ''assistant''"

text \<open>The JSON default when a tool call carries no input.\<close>

definition emptyToolInput :: string where [wire_consts]: "emptyToolInput = ''{}''"

section \<open>Payload structs\<close>

text \<open>
  A nil pointer is \<open>None\<close>; \<open>any\<close> values are JSON values (a nil \<open>any\<close> is \<open>JNull\<close>, the
  empty map \<open>JObj []\<close>); a slice that may be nil is an option.
\<close>

record UsageStart =
  InputTokens :: int
  OutputTokens :: int

record MessageMeta =
  MM_ID :: string
  MM_StreamID :: string
  MM_Type :: string
  MM_Role :: string
  MM_Content :: "jval list option"
  MM_Model :: string
  MM_StopReason :: "string option"
  MM_StopSequence :: "string option"
  MM_Usage :: UsageStart

record MessageStartData =
  MSD_Type :: string
  MSD_Message :: MessageMeta

record ContentBlock =
  CB_Type :: string
  CB_Text :: string

record ContentBlockStartData =
  CBS_Type :: string
  CBS_Index :: int
  CBS_ContentBlock :: ContentBlock

record PingData =
  PD_Type :: string

record TextDelta =
  TD_Type :: string
  TD_Text :: string

record ContentBlockDeltaData =
  CBD_Type :: string
  CBD_Index :: int
  CBD_Delta :: TextDelta

record ContentBlockStopData =
  CBP_Type :: string
  CBP_Index :: int

record UsageEnd =
  UE_OutputTokens :: int

record MessageDeltaInfo =
  MDI_StopReason :: string
  MDI_StopSequence :: "string option"

record MessageDeltaData =
  MDD_Type :: string
  MDD_Delta :: MessageDeltaInfo
  MDD_Usage :: UsageEnd

record MessageStopData =
  MPD_Type :: string

record ToolUseBlock =
  TUB_Type :: string
  TUB_ID :: string
  TUB_Name :: string
  TUB_Input :: jval

record ContentBlockStartToolUseData =
  CTU_Type :: string
  CTU_Index :: int
  CTU_ContentBlock :: ToolUseBlock

record ToolResultBlock =
  TRB_Type :: string
  TRB_ToolUseID :: string
  TRB_Content :: string
  TRB_IsError :: bool

record ContentBlockStartToolResultData =
  CTR_Type :: string
  CTR_Index :: int
  CTR_ContentBlock :: ToolResultBlock

record InputJSONDelta =
  IJD_Type :: string
  IJD_PartialJSON :: string

record ContentBlockDeltaToolInputData =
  CDI_Type :: string
  CDI_Index :: int
  CDI_Delta :: InputJSONDelta

record ToolResultDelta =
  TRD_Type :: string
  TRD_Text :: string

record ContentBlockDeltaToolResultData =
  CDR_Type :: string
  CDR_Index :: int
  CDR_Delta :: ToolResultDelta

text \<open>
  What \<open>Publish\<close> is handed: one of the payload structs above, or any other value, of which
  only the outcome of \<open>json.Marshal\<close> matters.
\<close>

datatype payload =
    PMessageStart MessageStartData
  | PPing PingData
  | PBlockStart ContentBlockStartData
  | PBlockDelta ContentBlockDeltaData
  | PBlockStop ContentBlockStopData
  | PMessageDelta MessageDeltaData
  | PMessageStop MessageStopData
  | PToolUseStart ContentBlockStartToolUseData
  | PToolInputDelta ContentBlockDeltaToolInputData
  | PToolResultStart ContentBlockStartToolResultData
  | PToolResultDelta ContentBlockDeltaToolResultData
  | POther "goerr + string"

section \<open>Marshalling\<close>

definition enc_ptr :: "string option \<Rightarrow> jval" where
  "enc_ptr p = (case p of None \<Rightarrow> JNull | Some s \<Rightarrow> JStr s)"

text \<open>An \<open>omitempty\<close> member is left out when its value is the zero value.\<close>

definition omit_empty :: "bool \<Rightarrow> string \<Rightarrow> jval \<Rightarrow> (string \<times> jval) list" where
  "omit_empty e k v = (if e then [] else [(k, v)])"

definition enc_UsageStart :: "UsageStart \<Rightarrow> jval" where [wire_enc]:
  "enc_UsageStart u = JObj [(''input_tokens'', JNum (int_dec (InputTokens u))),
     (''output_tokens'', JNum (int_dec (OutputTokens u)))]"

definition enc_MessageMeta :: "MessageMeta \<Rightarrow> jval" where [wire_enc]:
  "enc_MessageMeta m = JObj [
     (''id'', JStr (MM_ID m)),
     (''stream_id'', JStr (MM_StreamID m)),
     (''type'', JStr (MM_Type m)),
     (''role'', JStr (MM_Role m)),
     (''content'', case MM_Content m of None \<Rightarrow> JNull | Some vs \<Rightarrow> JArr vs),
     (''model'', JStr (MM_Model m)),
     (''stop_reason'', enc_ptr (MM_StopReason m)),
     (''stop_sequence'', enc_ptr (MM_StopSequence m)),
     (''usage'', enc_UsageStart (MM_Usage m))]"

definition enc_MessageStartData :: "MessageStartData \<Rightarrow> jval" where [wire_enc]:
  "enc_MessageStartData d = JObj [(''type'', JStr (MSD_Type d)),
     (''message'', enc_MessageMeta (MSD_Message d))]"

definition enc_ContentBlockStartData :: "ContentBlockStartData \<Rightarrow> jval" where [wire_enc]:
  "enc_ContentBlockStartData d = JObj [(''type'', JStr (CBS_Type d)),
     (''index'', JNum (int_dec (CBS_Index d))),
     (''content_block'', JObj ((''type'', JStr (CB_Type (CBS_ContentBlock d))) #
        omit_empty (CB_Text (CBS_ContentBlock d) = []) ''text'' (JStr (CB_Text (CBS_ContentBlock d)))))]"

definition enc_PingData :: "PingData \<Rightarrow> jval" where [wire_enc]:
  "enc_PingData d = JObj [(''type'', JStr (PD_Type d))]"

definition enc_ContentBlockDeltaData :: "ContentBlockDeltaData \<Rightarrow> jval" where [wire_enc]:
  "enc_ContentBlockDeltaData d = JObj [(''type'', JStr (CBD_Type d)),
     (''index'', JNum (int_dec (CBD_Index d))),
     (''delta'', JObj [(''type'', JStr (TD_Type (CBD_Delta d))), (''text'', JStr (TD_Text (CBD_Delta d)))])]"

definition enc_ContentBlockStopData :: "ContentBlockStopData \<Rightarrow> jval" where [wire_enc]:
  "enc_ContentBlockStopData d = JObj [(''type'', JStr (CBP_Type d)),
     (''index'', JNum (int_dec (CBP_Index d)))]"

definition enc_MessageDeltaData :: "MessageDeltaData \<Rightarrow> jval" where [wire_enc]:
  "enc_MessageDeltaData d = JObj [(''type'', JStr (MDD_Type d)),
     (''delta'', JObj [(''stop_reason'', JStr (MDI_StopReason (MDD_Delta d))),
        (''stop_sequence'', enc_ptr (MDI_StopSequence (MDD_Delta d)))]),
     (''usage'', JObj [(''output_tokens'', JNum (int_dec (UE_OutputTokens (MDD_Usage d))))])]"

definition enc_MessageStopData :: "MessageStopData \<Rightarrow> jval" where [wire_enc]:
  "enc_MessageStopData d = JObj [(''type'', JStr (MPD_Type d))]"

definition enc_ContentBlockStartToolUseData :: "ContentBlockStartToolUseData \<Rightarrow> jval" where [wire_enc]:
  "enc_ContentBlockStartToolUseData d = JObj [(''type'', JStr (CTU_Type d)),
     (''index'', JNum (int_dec (CTU_Index d))),
     (''content_block'', JObj [(''type'', JStr (TUB_Type (CTU_ContentBlock d))),
        (''id'', JStr (TUB_ID (CTU_ContentBlock d))),
        (''name'', JStr (TUB_Name (CTU_ContentBlock d))),
        (''input'', TUB_Input (CTU_ContentBlock d))])]"

definition enc_ContentBlockStartToolResultData :: "ContentBlockStartToolResultData \<Rightarrow> jval" where [wire_enc]:
  "enc_ContentBlockStartToolResultData d = JObj [(''type'', JStr (CTR_Type d)),
     (''index'', JNum (int_dec (CTR_Index d))),
     (''content_block'', JObj ((''type'', JStr (TRB_Type (CTR_ContentBlock d))) #
        (''tool_use_id'', JStr (TRB_ToolUseID (CTR_ContentBlock d))) #
        omit_empty (TRB_Content (CTR_ContentBlock d) = []) ''content'' (JStr (TRB_Content (CTR_ContentBlock d))) @
        omit_empty (\<not> TRB_IsError (CTR_ContentBlock d)) ''is_error'' (JBool (TRB_IsError (CTR_ContentBlock d)))))]"

definition enc_ContentBlockDeltaToolInputData :: "ContentBlockDeltaToolInputData \<Rightarrow> jval" where [wire_enc]:
  "enc_ContentBlockDeltaToolInputData d = JObj [(''type'', JStr (CDI_Type d)),
     (''index'', JNum (int_dec (CDI_Index d))),
     (''delta'', JObj [(''type'', JStr (IJD_Type (CDI_Delta d))),
        (''partial_json'', JStr (IJD_PartialJSON (CDI_Delta d)))])]"

definition enc_ContentBlockDeltaToolResultData :: "ContentBlockDeltaToolResultData \<Rightarrow> jval" where [wire_enc]:
  "enc_ContentBlockDeltaToolResultData d = JObj [(''type'', JStr (CDR_Type d)),
     (''index'', JNum (int_dec (CDR_Index d))),
     (''delta'', JObj [(''type'', JStr (TRD_Type (CDR_Delta d))), (''text'', JStr (TRD_Text (CDR_Delta d)))])]"

text \<open>\<open>json.Marshal\<close> of a payload.\<close>

fun json_marshal :: "payload \<Rightarrow> goerr + string" where
  "json_marshal (PMessageStart d) = Inr (print_val (enc_MessageStartData d))"
| "json_marshal (PPing d) = Inr (print_val (enc_PingData d))"
| "json_marshal (PBlockStart d) = Inr (print_val (enc_ContentBlockStartData d))"
| "json_marshal (PBlockDelta d) = Inr (print_val (enc_ContentBlockDeltaData d))"
| "json_marshal (PBlockStop d) = Inr (print_val (enc_ContentBlockStopData d))"
| "json_marshal (PMessageDelta d) = Inr (print_val (enc_MessageDeltaData d))"
| "json_marshal (PMessageStop d) = Inr (print_val (enc_MessageStopData d))"
| "json_marshal (PToolUseStart d) = Inr (print_val (enc_ContentBlockStartToolUseData d))"
| "json_marshal (PToolInputDelta d) = Inr (print_val (enc_ContentBlockDeltaToolInputData d))"
| "json_marshal (PToolResultStart d) = Inr (print_val (enc_ContentBlockStartToolResultData d))"
| "json_marshal (PToolResultDelta d) = Inr (print_val (enc_ContentBlockDeltaToolResultData d))"
| "json_marshal (POther r) = r"

section \<open>Unmarshalling\<close>

text \<open>
  A member is matched to a field by its exact name first, then without regard to case
  (\<open>foldName\<close>: ASCII letters, and the two runes that fold to an ASCII letter, U+017F and
  U+212A). Unknown members are skipped; \<open>null\<close> leaves the field as it is; a value of
  the wrong type makes the whole call fail.
\<close>

function fold_name :: "string \<Rightarrow> nat list" where
  "fold_name [] = []"
| "fold_name (c # s) =
     (if take 2 (c # s) = [CHR 0xC5, CHR 0xBF] then 83 # fold_name (drop 1 s)
      else if take 3 (c # s) = [CHR 0xE2, CHR 0x84, CHR 0xAA] then 75 # fold_name (drop 2 s)
      else (if 97 \<le> byte c \<and> byte c \<le> 122 then byte c - 32 else byte c) # fold_name s)"
  by pat_completeness auto
termination
  by (relation "measure length") auto

type_synonym 'r field = "string \<times> ('r \<Rightarrow> jval \<Rightarrow> 'r option)"

definition find_field :: "'r field list \<Rightarrow> string \<Rightarrow> ('r \<Rightarrow> jval \<Rightarrow> 'r option) option" where
  "find_field fs k =
     (case map_of fs k of
        Some g \<Rightarrow> Some g
      | None \<Rightarrow> map_option snd (find (\<lambda>f. fold_name (fst f) = fold_name k) fs))"

fun dec_members :: "'r field list \<Rightarrow> 'r \<Rightarrow> (string \<times> jval) list \<Rightarrow> 'r option" where
  "dec_members fs r [] = Some r"
| "dec_members fs r ((k, v) # ms) = do {
     r' \<leftarrow> (case find_field fs k of None \<Rightarrow> Some r | Some g \<Rightarrow> g r v);
     dec_members fs r' ms
   }"

fun dec_struct :: "'r field list \<Rightarrow> 'r \<Rightarrow> jval \<Rightarrow> 'r option" where
  "dec_struct fs r JNull = Some r"
| "dec_struct fs r (JObj ms) = dec_members fs r ms"
| "dec_struct fs r v = None"

fun dec_string :: "string \<Rightarrow> jval \<Rightarrow> string option" where
  "dec_string old JNull = Some old"
| "dec_string old (JStr s) = Some s"
| "dec_string old v = None"

fun dec_int :: "int \<Rightarrow> jval \<Rightarrow> int option" where
  "dec_int old JNull = Some old"
| "dec_int old (JNum l) = int_of_literal l"
| "dec_int old v = None"

fun dec_bool :: "bool \<Rightarrow> jval \<Rightarrow> bool option" where
  "dec_bool old JNull = Some old"
| "dec_bool old (JBool b) = Some b"
| "dec_bool old v = None"

fun dec_ptr :: "string option \<Rightarrow> jval \<Rightarrow> string option option" where
  "dec_ptr old JNull = Some None"
| "dec_ptr old (JStr s) = Some (Some s)"
| "dec_ptr old v = None"

text \<open>
  A number decoded into \<open>any\<close> becomes a float64; a literal whose value rounds to infinity
  is an error. The largest finite float64 is \<open>2^1024 - 2^971\<close>, so the bound is the midpoint
  above it.
\<close>

definition exponent_val :: "string \<Rightarrow> int" where
  "exponent_val e =
     (case e of [] \<Rightarrow> 0
      | _ # t \<Rightarrow> (case t of [] \<Rightarrow> 0
          | g # u \<Rightarrow> if g = CHR ''-'' then - int (digits_val u)
                    else if g = CHR ''+'' then int (digits_val u)
                    else int (digits_val t)))"

definition float64_ok :: "string \<Rightarrow> bool" where
  "float64_ok l =
     (let ds = takeWhile (\<lambda>c. c \<noteq> CHR ''e'' \<and> c \<noteq> CHR ''E'') l;
          m = int (digits_val (filter is_digit ds));
          x = exponent_val (drop (length ds) l) - int (length (drop 1 (dropWhile (\<lambda>c. c \<noteq> CHR ''.'') ds)));
          T = 2 ^ 1024 - 2 ^ 970
      in if 0 \<le> x then m * 10 ^ nat x < T else m < T * 10 ^ nat (- x))"

fun any_ok :: "jval \<Rightarrow> bool"
  and any_ok_elems :: "jval list \<Rightarrow> bool"
  and any_ok_members :: "(string \<times> jval) list \<Rightarrow> bool" where
  "any_ok (JNum l) = float64_ok l"
| "any_ok (JArr vs) = any_ok_elems vs"
| "any_ok (JObj ms) = any_ok_members ms"
| "any_ok v = True"
| "any_ok_elems [] = True"
| "any_ok_elems (v # vs) = (any_ok v \<and> any_ok_elems vs)"
| "any_ok_members [] = True"
| "any_ok_members ((k, v) # ms) = (any_ok v \<and> any_ok_members ms)"

definition dec_any :: "jval \<Rightarrow> jval option" where
  "dec_any v = (if any_ok v then Some v else None)"

fun dec_any_slice :: "jval list option \<Rightarrow> jval \<Rightarrow> jval list option option" where
  "dec_any_slice old JNull = Some None"
| "dec_any_slice old (JArr vs) = (if any_ok_elems vs then Some (Some vs) else None)"
| "dec_any_slice old v = None"

definition dec_UsageStart :: "UsageStart \<Rightarrow> jval \<Rightarrow> UsageStart option" where [wire_dec]:
  "dec_UsageStart = dec_struct [
     (''input_tokens'', \<lambda>r v. map_option (\<lambda>x. r\<lparr>InputTokens := x\<rparr>) (dec_int (InputTokens r) v)),
     (''output_tokens'', \<lambda>r v. map_option (\<lambda>x. r\<lparr>OutputTokens := x\<rparr>) (dec_int (OutputTokens r) v))]"

definition dec_MessageMeta :: "MessageMeta \<Rightarrow> jval \<Rightarrow> MessageMeta option" where [wire_dec]:
  "dec_MessageMeta = dec_struct [
     (''id'', \<lambda>r v. map_option (\<lambda>x. r\<lparr>MM_ID := x\<rparr>) (dec_string (MM_ID r) v)),
     (''stream_id'', \<lambda>r v. map_option (\<lambda>x. r\<lparr>MM_StreamID := x\<rparr>) (dec_string (MM_StreamID r) v)),
     (''type'', \<lambda>r v. map_option (\<lambda>x. r\<lparr>MM_Type := x\<rparr>) (dec_string (MM_Type r) v)),
     (''role'', \<lambda>r v. map_option (\<lambda>x. r\<lparr>MM_Role := x\<rparr>) (dec_string (MM_Role r) v)),
     (''content'', \<lambda>r v. map_option (\<lambda>x. r\<lparr>MM_Content := x\<rparr>) (dec_any_slice (MM_Content r) v)),
     (''model'', \<lambda>r v. map_option (\<lambda>x. r\<lparr>MM_Model := x\<rparr>) (dec_string (MM_Model r) v)),
     (''stop_reason'', \<lambda>r v. map_option (\<lambda>x. r\<lparr>MM_StopReason := x\<rparr>) (dec_ptr (MM_StopReason r) v)),
     (''stop_sequence'', \<lambda>r v. map_option (\<lambda>x. r\<lparr>MM_StopSequence := x\<rparr>) (dec_ptr (MM_StopSequence r) v)),
     (''usage'', \<lambda>r v. map_option (\<lambda>x. r\<lparr>MM_Usage := x\<rparr>) (dec_UsageStart (MM_Usage r) v))]"

definition dec_MessageStartData :: "MessageStartData \<Rightarrow> jval \<Rightarrow> MessageStartData option" where [wire_dec]:
  "dec_MessageStartData = dec_struct [
     (''type'', \<lambda>r v. map_option (\<lambda>x. r\<lparr>MSD_Type := x\<rparr>) (dec_string (MSD_Type r) v)),
     (''message'', \<lambda>r v. map_option (\<lambda>x. r\<lparr>MSD_Message := x\<rparr>) (dec_MessageMeta (MSD_Message r) v))]"

definition dec_ContentBlockStopData :: "ContentBlockStopData \<Rightarrow> jval \<Rightarrow> ContentBlockStopData option" where [wire_dec]:
  "dec_ContentBlockStopData = dec_struct [
     (''type'', \<lambda>r v. map_option (\<lambda>x. r\<lparr>CBP_Type := x\<rparr>) (dec_string (CBP_Type r) v)),
     (''index'', \<lambda>r v. map_option (\<lambda>x. r\<lparr>CBP_Index := x\<rparr>) (dec_int (CBP_Index r) v))]"

definition dec_ToolUseBlock :: "ToolUseBlock \<Rightarrow> jval \<Rightarrow> ToolUseBlock option" where [wire_dec]:
  "dec_ToolUseBlock = dec_struct [
     (''type'', \<lambda>r v. map_option (\<lambda>x. r\<lparr>TUB_Type := x\<rparr>) (dec_string (TUB_Type r) v)),
     (''id'', \<lambda>r v. map_option (\<lambda>x. r\<lparr>TUB_ID := x\<rparr>) (dec_string (TUB_ID r) v)),
     (''name'', \<lambda>r v. map_option (\<lambda>x. r\<lparr>TUB_Name := x\<rparr>) (dec_string (TUB_Name r) v)),
     (''input'', \<lambda>r v. map_option (\<lambda>x. r\<lparr>TUB_Input := x\<rparr>) (dec_any v))]"

definition dec_ContentBlockStartToolUseData ::
    "ContentBlockStartToolUseData \<Rightarrow> jval \<Rightarrow> ContentBlockStartToolUseData option" where [wire_dec]:
  "dec_ContentBlockStartToolUseData = dec_struct [
     (''type'', \<lambda>r v. map_option (\<lambda>x. r\<lparr>CTU_Type := x\<rparr>) (dec_string (CTU_Type r) v)),
     (''index'', \<lambda>r v. map_option (\<lambda>x. r\<lparr>CTU_Index := x\<rparr>) (dec_int (CTU_Index r) v)),
     (''content_block'', \<lambda>r v. map_option (\<lambda>x. r\<lparr>CTU_ContentBlock := x\<rparr>)
        (dec_ToolUseBlock (CTU_ContentBlock r) v))]"

definition dec_ToolResultBlock :: "ToolResultBlock \<Rightarrow> jval \<Rightarrow> ToolResultBlock option" where [wire_dec]:
  "dec_ToolResultBlock = dec_struct [
     (''type'', \<lambda>r v. map_option (\<lambda>x. r\<lparr>TRB_Type := x\<rparr>) (dec_string (TRB_Type r) v)),
     (''tool_use_id'', \<lambda>r v. map_option (\<lambda>x. r\<lparr>TRB_ToolUseID := x\<rparr>) (dec_string (TRB_ToolUseID r) v)),
     (''content'', \<lambda>r v. map_option (\<lambda>x. r\<lparr>TRB_Content := x\<rparr>) (dec_string (TRB_Content r) v)),
     (''is_error'', \<lambda>r v. map_option (\<lambda>x. r\<lparr>TRB_IsError := x\<rparr>) (dec_bool (TRB_IsError r) v))]"

definition dec_ContentBlockStartToolResultData ::
    "ContentBlockStartToolResultData \<Rightarrow> jval \<Rightarrow> ContentBlockStartToolResultData option" where [wire_dec]:
  "dec_ContentBlockStartToolResultData = dec_struct [
     (''type'', \<lambda>r v. map_option (\<lambda>x. r\<lparr>CTR_Type := x\<rparr>) (dec_string (CTR_Type r) v)),
     (''index'', \<lambda>r v. map_option (\<lambda>x. r\<lparr>CTR_Index := x\<rparr>) (dec_int (CTR_Index r) v)),
     (''content_block'', \<lambda>r v. map_option (\<lambda>x. r\<lparr>CTR_ContentBlock := x\<rparr>)
        (dec_ToolResultBlock (CTR_ContentBlock r) v))]"

definition dec_TextDelta :: "TextDelta \<Rightarrow> jval \<Rightarrow> TextDelta option" where [wire_dec]:
  "dec_TextDelta = dec_struct [
     (''type'', \<lambda>r v. map_option (\<lambda>x. r\<lparr>TD_Type := x\<rparr>) (dec_string (TD_Type r) v)),
     (''text'', \<lambda>r v. map_option (\<lambda>x. r\<lparr>TD_Text := x\<rparr>) (dec_string (TD_Text r) v))]"

definition dec_ContentBlockDeltaData :: "ContentBlockDeltaData \<Rightarrow> jval \<Rightarrow> ContentBlockDeltaData option" where [wire_dec]:
  "dec_ContentBlockDeltaData = dec_struct [
     (''type'', \<lambda>r v. map_option (\<lambda>x. r\<lparr>CBD_Type := x\<rparr>) (dec_string (CBD_Type r) v)),
     (''index'', \<lambda>r v. map_option (\<lambda>x. r\<lparr>CBD_Index := x\<rparr>) (dec_int (CBD_Index r) v)),
     (''delta'', \<lambda>r v. map_option (\<lambda>x. r\<lparr>CBD_Delta := x\<rparr>) (dec_TextDelta (CBD_Delta r) v))]"

definition dec_InputJSONDelta :: "InputJSONDelta \<Rightarrow> jval \<Rightarrow> InputJSONDelta option" where [wire_dec]:
  "dec_InputJSONDelta = dec_struct [
     (''type'', \<lambda>r v. map_option (\<lambda>x. r\<lparr>IJD_Type := x\<rparr>) (dec_string (IJD_Type r) v)),
     (''partial_json'', \<lambda>r v. map_option (\<lambda>x. r\<lparr>IJD_PartialJSON := x\<rparr>) (dec_string (IJD_PartialJSON r) v))]"

definition dec_ContentBlockDeltaToolInputData ::
    "ContentBlockDeltaToolInputData \<Rightarrow> jval \<Rightarrow> ContentBlockDeltaToolInputData option" where [wire_dec]:
  "dec_ContentBlockDeltaToolInputData = dec_struct [
     (''type'', \<lambda>r v. map_option (\<lambda>x. r\<lparr>CDI_Type := x\<rparr>) (dec_string (CDI_Type r) v)),
     (''index'', \<lambda>r v. map_option (\<lambda>x. r\<lparr>CDI_Index := x\<rparr>) (dec_int (CDI_Index r) v)),
     (''delta'', \<lambda>r v. map_option (\<lambda>x. r\<lparr>CDI_Delta := x\<rparr>) (dec_InputJSONDelta (CDI_Delta r) v))]"

definition dec_ToolResultDelta :: "ToolResultDelta \<Rightarrow> jval \<Rightarrow> ToolResultDelta option" where [wire_dec]:
  "dec_ToolResultDelta = dec_struct [
     (''type'', \<lambda>r v. map_option (\<lambda>x. r\<lparr>TRD_Type := x\<rparr>) (dec_string (TRD_Type r) v)),
     (''text'', \<lambda>r v. map_option (\<lambda>x. r\<lparr>TRD_Text := x\<rparr>) (dec_string (TRD_Text r) v))]"

definition dec_ContentBlockDeltaToolResultData ::
    "ContentBlockDeltaToolResultData \<Rightarrow> jval \<Rightarrow> ContentBlockDeltaToolResultData option" where [wire_dec]:
  "dec_ContentBlockDeltaToolResultData = dec_struct [
     (''type'', \<lambda>r v. map_option (\<lambda>x. r\<lparr>CDR_Type := x\<rparr>) (dec_string (CDR_Type r) v)),
     (''index'', \<lambda>r v. map_option (\<lambda>x. r\<lparr>CDR_Index := x\<rparr>) (dec_int (CDR_Index r) v)),
     (''delta'', \<lambda>r v. map_option (\<lambda>x. r\<lparr>CDR_Delta := x\<rparr>) (dec_ToolResultDelta (CDR_Delta r) v))]"

text \<open>
  \<open>json.Unmarshal\<close> into a zero value, \<open>None\<close> for any error: the callers look at nothing
  else of a failed call.
\<close>

definition json_unmarshal :: "('r \<Rightarrow> jval \<Rightarrow> 'r option) \<Rightarrow> 'r \<Rightarrow> string \<Rightarrow> 'r option" where
  "json_unmarshal dec zero s = do { v \<leftarrow> json_parse s; dec zero v }"

definition unmarshal_MessageStartData :: "string \<Rightarrow> MessageStartData option" where
  "unmarshal_MessageStartData = json_unmarshal dec_MessageStartData
     \<lparr>MSD_Type = [], MSD_Message = \<lparr>MM_ID = [], MM_StreamID = [], MM_Type = [], MM_Role = [],
        MM_Content = None, MM_Model = [], MM_StopReason = None, MM_StopSequence = None,
        MM_Usage = \<lparr>InputTokens = 0, OutputTokens = 0\<rparr>\<rparr>\<rparr>"

definition unmarshal_ContentBlockStopData :: "string \<Rightarrow> ContentBlockStopData option" where
  "unmarshal_ContentBlockStopData = json_unmarshal dec_ContentBlockStopData \<lparr>CBP_Type = [], CBP_Index = 0\<rparr>"

definition unmarshal_ContentBlockStartToolUseData :: "string \<Rightarrow> ContentBlockStartToolUseData option" where
  "unmarshal_ContentBlockStartToolUseData = json_unmarshal dec_ContentBlockStartToolUseData
     \<lparr>CTU_Type = [], CTU_Index = 0,
      CTU_ContentBlock = \<lparr>TUB_Type = [], TUB_ID = [], TUB_Name = [], TUB_Input = JNull\<rparr>\<rparr>"

definition unmarshal_ContentBlockStartToolResultData :: "string \<Rightarrow> ContentBlockStartToolResultData option" where
  "unmarshal_ContentBlockStartToolResultData = json_unmarshal dec_ContentBlockStartToolResultData
     \<lparr>CTR_Type = [], CTR_Index = 0,
      CTR_ContentBlock = \<lparr>TRB_Type = [], TRB_ToolUseID = [], TRB_Content = [], TRB_IsError = False\<rparr>\<rparr>"

definition unmarshal_ContentBlockDeltaData :: "string \<Rightarrow> ContentBlockDeltaData option" where
  "unmarshal_ContentBlockDeltaData = json_unmarshal dec_ContentBlockDeltaData
     \<lparr>CBD_Type = [], CBD_Index = 0, CBD_Delta = \<lparr>TD_Type = [], TD_Text = []\<rparr>\<rparr>"

definition unmarshal_ContentBlockDeltaToolInputData :: "string \<Rightarrow> ContentBlockDeltaToolInputData option" where
  "unmarshal_ContentBlockDeltaToolInputData = json_unmarshal dec_ContentBlockDeltaToolInputData
     \<lparr>CDI_Type = [], CDI_Index = 0, CDI_Delta = \<lparr>IJD_Type = [], IJD_PartialJSON = []\<rparr>\<rparr>"

definition unmarshal_ContentBlockDeltaToolResultData :: "string \<Rightarrow> ContentBlockDeltaToolResultData option" where
  "unmarshal_ContentBlockDeltaToolResultData = json_unmarshal dec_ContentBlockDeltaToolResultData
     \<lparr>CDR_Type = [], CDR_Index = 0, CDR_Delta = \<lparr>TRD_Type = [], TRD_Text = []\<rparr>\<rparr>"

end
