(* ===== verification/Wire_Roundtrip.thy ===== *)
theory Wire_Roundtrip
  imports Wire
begin

text \<open>
  What the consumer's decoders make of what the producer marshalled. \<open>Reassemble\<close> decodes
  one event into several struct types in turn, so there is one lemma per decoder and payload
  that can meet. Every string comes back coerced to valid UTF-8, every index exactly (indices
  are 64-bit, which is the hypothesis \<open>int64_range\<close>).
\<close>

named_theorems wire_rt \<open>decoding what was marshalled\<close>
named_theorems wire_eval \<open>evaluating a decoder on a printed struct\<close>

declare print_val.simps [simp del] print_elems.simps [simp del] print_members.simps [simp del]

lemma to_valid_ascii [wire_eval]: "list_all (\<lambda>c. byte c < 0x80) s \<Longrightarrow> to_valid_utf8 s = s"
  by (rule to_valid_utf8_id [OF valid_utf8_ascii])

lemma printable_int_dec [simp]: "\<exists>j. int_dec i = int_dec j" by blast

lemma printable_enc_ptr [simp]: "printable d (enc_ptr p)"
  by (cases p) (simp_all add: enc_ptr_def)

lemma coerce_enc_ptr [simp]: "coerce_val (enc_ptr p) = enc_ptr (map_option to_valid_utf8 p)"
  by (cases p) (simp_all add: enc_ptr_def)

lemma dec_ptr_enc_ptr [simp]: "dec_ptr old (enc_ptr p) = Some p"
  by (cases p) (simp_all add: enc_ptr_def)

lemma printable_members_append [simp]:
  "printable_members d (xs @ ys) \<longleftrightarrow> printable_members d xs \<and> printable_members d ys"
  by (induction xs) auto

lemma coerce_members_append [simp]:
  "coerce_members (xs @ ys) = coerce_members xs @ coerce_members ys"
  by (induction xs) auto

lemma json_unmarshal_print:
  "printable maxNestingDepth v \<Longrightarrow> json_unmarshal dec z (print_val v) = dec z (coerce_val v)"
  by (simp add: json_unmarshal_def json_parse_print)

lemmas [wire_eval] = wire_enc wire_dec omit_empty_def find_field_def dec_any_def maxNestingDepth_def
  int_of_literal_int_dec json_unmarshal_print

section \<open>Stream start\<close>

lemma rt_MessageStart [wire_rt]:
  assumes "MM_Content (MSD_Message d) = Some []"
    and "int64_range (InputTokens (MM_Usage (MSD_Message d)))"
    and "int64_range (OutputTokens (MM_Usage (MSD_Message d)))"
  shows "map_option (\<lambda>m. MM_StreamID (MSD_Message m))
      (unmarshal_MessageStartData (print_val (enc_MessageStartData d)))
    = Some (to_valid_utf8 (MM_StreamID (MSD_Message d)))"
  using assms by (simp add: unmarshal_MessageStartData_def wire_eval)

section \<open>Block starts\<close>

lemma rt_Stop_BlockStart [wire_rt]:
  "int64_range (CBS_Index d) \<Longrightarrow>
    unmarshal_ContentBlockStopData (print_val (enc_ContentBlockStartData d))
    = Some \<lparr>CBP_Type = to_valid_utf8 (CBS_Type d), CBP_Index = CBS_Index d\<rparr>"
  by (simp add: unmarshal_ContentBlockStopData_def wire_eval)

lemma rt_ToolUse_BlockStart [wire_rt]:
  "int64_range (CBS_Index d) \<Longrightarrow>
    unmarshal_ContentBlockStartToolUseData (print_val (enc_ContentBlockStartData d))
    = Some \<lparr>CTU_Type = to_valid_utf8 (CBS_Type d), CTU_Index = CBS_Index d,
        CTU_ContentBlock = \<lparr>TUB_Type = to_valid_utf8 (CB_Type (CBS_ContentBlock d)), TUB_ID = [],
          TUB_Name = [], TUB_Input = JNull\<rparr>\<rparr>"
  by (simp add: unmarshal_ContentBlockStartToolUseData_def wire_eval)

lemma rt_ToolResult_BlockStart [wire_rt]:
  "int64_range (CBS_Index d) \<Longrightarrow>
    unmarshal_ContentBlockStartToolResultData (print_val (enc_ContentBlockStartData d))
    = Some \<lparr>CTR_Type = to_valid_utf8 (CBS_Type d), CTR_Index = CBS_Index d,
        CTR_ContentBlock = \<lparr>TRB_Type = to_valid_utf8 (CB_Type (CBS_ContentBlock d)),
          TRB_ToolUseID = [], TRB_Content = [], TRB_IsError = False\<rparr>\<rparr>"
  by (simp add: unmarshal_ContentBlockStartToolResultData_def wire_eval)

lemma rt_Stop_ToolUse [wire_rt]:
  "\<lbrakk>int64_range (CTU_Index d); TUB_Input (CTU_ContentBlock d) = JObj []\<rbrakk> \<Longrightarrow>
    unmarshal_ContentBlockStopData (print_val (enc_ContentBlockStartToolUseData d))
    = Some \<lparr>CBP_Type = to_valid_utf8 (CTU_Type d), CBP_Index = CTU_Index d\<rparr>"
  by (simp add: unmarshal_ContentBlockStopData_def wire_eval)

lemma rt_ToolUse_ToolUse [wire_rt]:
  "\<lbrakk>int64_range (CTU_Index d); TUB_Input (CTU_ContentBlock d) = JObj []\<rbrakk> \<Longrightarrow>
    unmarshal_ContentBlockStartToolUseData (print_val (enc_ContentBlockStartToolUseData d))
    = Some \<lparr>CTU_Type = to_valid_utf8 (CTU_Type d), CTU_Index = CTU_Index d,
        CTU_ContentBlock = \<lparr>TUB_Type = to_valid_utf8 (TUB_Type (CTU_ContentBlock d)),
          TUB_ID = to_valid_utf8 (TUB_ID (CTU_ContentBlock d)),
          TUB_Name = to_valid_utf8 (TUB_Name (CTU_ContentBlock d)), TUB_Input = JObj []\<rparr>\<rparr>"
  by (simp add: unmarshal_ContentBlockStartToolUseData_def wire_eval)

lemma rt_Stop_ToolResult [wire_rt]:
  "int64_range (CTR_Index d) \<Longrightarrow>
    unmarshal_ContentBlockStopData (print_val (enc_ContentBlockStartToolResultData d))
    = Some \<lparr>CBP_Type = to_valid_utf8 (CTR_Type d), CBP_Index = CTR_Index d\<rparr>"
  by (simp add: unmarshal_ContentBlockStopData_def wire_eval)

lemma rt_ToolUse_ToolResult [wire_rt]:
  "int64_range (CTR_Index d) \<Longrightarrow>
    unmarshal_ContentBlockStartToolUseData (print_val (enc_ContentBlockStartToolResultData d))
    = Some \<lparr>CTU_Type = to_valid_utf8 (CTR_Type d), CTU_Index = CTR_Index d,
        CTU_ContentBlock = \<lparr>TUB_Type = to_valid_utf8 (TRB_Type (CTR_ContentBlock d)), TUB_ID = [],
          TUB_Name = [], TUB_Input = JNull\<rparr>\<rparr>"
  by (simp add: unmarshal_ContentBlockStartToolUseData_def wire_eval)

lemma rt_ToolResult_ToolResult [wire_rt]:
  "int64_range (CTR_Index d) \<Longrightarrow>
    unmarshal_ContentBlockStartToolResultData (print_val (enc_ContentBlockStartToolResultData d))
    = Some \<lparr>CTR_Type = to_valid_utf8 (CTR_Type d), CTR_Index = CTR_Index d,
        CTR_ContentBlock = \<lparr>TRB_Type = to_valid_utf8 (TRB_Type (CTR_ContentBlock d)),
          TRB_ToolUseID = to_valid_utf8 (TRB_ToolUseID (CTR_ContentBlock d)),
          TRB_Content = to_valid_utf8 (TRB_Content (CTR_ContentBlock d)),
          TRB_IsError = TRB_IsError (CTR_ContentBlock d)\<rparr>\<rparr>"
  by (simp add: unmarshal_ContentBlockStartToolResultData_def wire_eval)

section \<open>Deltas and stops\<close>

lemma rt_Delta_Delta [wire_rt]:
  "int64_range (CBD_Index d) \<Longrightarrow>
    unmarshal_ContentBlockDeltaData (print_val (enc_ContentBlockDeltaData d))
    = Some \<lparr>CBD_Type = to_valid_utf8 (CBD_Type d), CBD_Index = CBD_Index d,
        CBD_Delta = \<lparr>TD_Type = to_valid_utf8 (TD_Type (CBD_Delta d)),
          TD_Text = to_valid_utf8 (TD_Text (CBD_Delta d))\<rparr>\<rparr>"
  by (simp add: unmarshal_ContentBlockDeltaData_def wire_eval)

lemma rt_Delta_ToolInput [wire_rt]:
  "int64_range (CDI_Index d) \<Longrightarrow>
    unmarshal_ContentBlockDeltaData (print_val (enc_ContentBlockDeltaToolInputData d))
    = Some \<lparr>CBD_Type = to_valid_utf8 (CDI_Type d), CBD_Index = CDI_Index d,
        CBD_Delta = \<lparr>TD_Type = to_valid_utf8 (IJD_Type (CDI_Delta d)), TD_Text = []\<rparr>\<rparr>"
  by (simp add: unmarshal_ContentBlockDeltaData_def wire_eval)

lemma rt_ToolInput_ToolInput [wire_rt]:
  "int64_range (CDI_Index d) \<Longrightarrow>
    unmarshal_ContentBlockDeltaToolInputData (print_val (enc_ContentBlockDeltaToolInputData d))
    = Some \<lparr>CDI_Type = to_valid_utf8 (CDI_Type d), CDI_Index = CDI_Index d,
        CDI_Delta = \<lparr>IJD_Type = to_valid_utf8 (IJD_Type (CDI_Delta d)),
          IJD_PartialJSON = to_valid_utf8 (IJD_PartialJSON (CDI_Delta d))\<rparr>\<rparr>"
  by (simp add: unmarshal_ContentBlockDeltaToolInputData_def wire_eval)

lemma rt_Delta_ToolResult [wire_rt]:
  "int64_range (CDR_Index d) \<Longrightarrow>
    unmarshal_ContentBlockDeltaData (print_val (enc_ContentBlockDeltaToolResultData d))
    = Some \<lparr>CBD_Type = to_valid_utf8 (CDR_Type d), CBD_Index = CDR_Index d,
        CBD_Delta = \<lparr>TD_Type = to_valid_utf8 (TRD_Type (CDR_Delta d)),
          TD_Text = to_valid_utf8 (TRD_Text (CDR_Delta d))\<rparr>\<rparr>"
  by (simp add: unmarshal_ContentBlockDeltaData_def wire_eval)

lemma rt_ToolInput_ToolResult [wire_rt]:
  "int64_range (CDR_Index d) \<Longrightarrow>
    unmarshal_ContentBlockDeltaToolInputData (print_val (enc_ContentBlockDeltaToolResultData d))
    = Some \<lparr>CDI_Type = to_valid_utf8 (CDR_Type d), CDI_Index = CDR_Index d,
        CDI_Delta = \<lparr>IJD_Type = to_valid_utf8 (TRD_Type (CDR_Delta d)), IJD_PartialJSON = []\<rparr>\<rparr>"
  by (simp add: unmarshal_ContentBlockDeltaToolInputData_def wire_eval)

lemma rt_ToolResultDelta_ToolResult [wire_rt]:
  "int64_range (CDR_Index d) \<Longrightarrow>
    unmarshal_ContentBlockDeltaToolResultData (print_val (enc_ContentBlockDeltaToolResultData d))
    = Some \<lparr>CDR_Type = to_valid_utf8 (CDR_Type d), CDR_Index = CDR_Index d,
        CDR_Delta = \<lparr>TRD_Type = to_valid_utf8 (TRD_Type (CDR_Delta d)),
          TRD_Text = to_valid_utf8 (TRD_Text (CDR_Delta d))\<rparr>\<rparr>"
  by (simp add: unmarshal_ContentBlockDeltaToolResultData_def wire_eval)

lemma rt_Stop_Stop [wire_rt]:
  "int64_range (CBP_Index d) \<Longrightarrow>
    unmarshal_ContentBlockStopData (print_val (enc_ContentBlockStopData d))
    = Some \<lparr>CBP_Type = to_valid_utf8 (CBP_Type d), CBP_Index = CBP_Index d\<rparr>"
  by (simp add: unmarshal_ContentBlockStopData_def wire_eval)

end
