(* ===== verification/Publisher.thy ===== *)
theory Publisher
  imports Wire_Roundtrip
begin

text \<open>
  \<open>publisher.go\<close>: one \<open>Send\<close> method per protocol event, each of them one call of \<open>Publish\<close>,
  and the composite methods that stop at the first event that fails. A sink is a function
  from an event and the state of whatever it writes to; a publisher holds a sink. Every
  method returns the error (or none) and the next state. The request context only reaches
  the logger and the sink, and has no model; what is logged is \<open>logFields\<close>.

  The interface \<open>Sink\<close> of \<open>event.go\<close> is the locale \<open>sink_contract\<close>: what has been
  delivered grows by exactly the emitted event, unless emitting failed. The publisher's
  lemmas are proved against it.
\<close>

type_synonym 'w sink = "event \<Rightarrow> 'w \<Rightarrow> goerr option \<times> 'w"

datatype 'w publisher = NewPublisher (pub_sink: "'w sink")

section \<open>Publish and the log line\<close>

definition Publish :: "'w publisher \<Rightarrow> string \<Rightarrow> payload \<Rightarrow> 'w \<Rightarrow> goerr option \<times> 'w" where
  "Publish p eventType data w =
     (case json_marshal data of
        Inl e \<Rightarrow> (Some (Wrapped e ''marshal event data''), w)
      | Inr jsonData \<Rightarrow>
          (case pub_sink p \<lparr>ev_ID = [], ev_Event = eventType, ev_Data = jsonData\<rparr> w of
             (Some e, w') \<Rightarrow> (Some (Wrapped e ''emit event''), w')
           | (None, w') \<Rightarrow> (None, w')))"

datatype logval = LInt int | LStr string

definition blockStartFields :: "int \<Rightarrow> string \<Rightarrow> (string \<times> logval) list" where
  "blockStartFields index blockType = [(''index'', LInt index), (''block_type'', LStr blockType)]"

definition blockDeltaFields :: "int \<Rightarrow> string \<Rightarrow> nat \<Rightarrow> (string \<times> logval) list" where
  "blockDeltaFields index blockType deltaLen =
     [(''index'', LInt index), (''block_type'', LStr blockType), (''delta_len'', LInt (int deltaLen))]"

fun logFields :: "payload \<Rightarrow> (string \<times> logval) list" where
  "logFields (PBlockStart d) = blockStartFields (CBS_Index d) (CB_Type (CBS_ContentBlock d))"
| "logFields (PToolUseStart d) = blockStartFields (CTU_Index d) (TUB_Type (CTU_ContentBlock d))"
| "logFields (PToolResultStart d) = blockStartFields (CTR_Index d) (TRB_Type (CTR_ContentBlock d))"
| "logFields (PBlockDelta d) =
     blockDeltaFields (CBD_Index d) (TD_Type (CBD_Delta d)) (length (TD_Text (CBD_Delta d)))"
| "logFields (PToolInputDelta d) =
     blockDeltaFields (CDI_Index d) (IJD_Type (CDI_Delta d)) (length (IJD_PartialJSON (CDI_Delta d)))"
| "logFields (PToolResultDelta d) =
     blockDeltaFields (CDR_Index d) (TRD_Type (CDR_Delta d)) (length (TRD_Text (CDR_Delta d)))"
| "logFields (PBlockStop d) = [(''index'', LInt (CBP_Index d))]"
| "logFields (PMessageDelta d) = [(''stop_reason'', LStr (MDI_StopReason (MDD_Delta d))),
     (''output_tokens'', LInt (UE_OutputTokens (MDD_Usage d)))]"
| "logFields _ = []"

text \<open>The fields of the one DEBUG line \<open>Publish\<close> writes for an event it could marshal.\<close>

definition logEvent :: "string \<Rightarrow> payload \<Rightarrow> (string \<times> logval) list" where
  "logEvent eventType data = (''event'', LStr eventType) # logFields data"

section \<open>The events of the protocol\<close>

definition pl_MessageStart :: "string \<Rightarrow> string \<Rightarrow> string \<Rightarrow> payload" where
  "pl_MessageStart msgID streamID model = PMessageStart
     \<lparr>MSD_Type = EventTypeMessageStart,
      MSD_Message = \<lparr>MM_ID = msgID, MM_StreamID = streamID, MM_Type = MessageTypeMessage,
        MM_Role = RoleAssistant, MM_Content = Some [], MM_Model = model, MM_StopReason = None,
        MM_StopSequence = None, MM_Usage = \<lparr>InputTokens = 0, OutputTokens = 0\<rparr>\<rparr>\<rparr>"

definition SendMessageStart :: "'w publisher \<Rightarrow> string \<Rightarrow> string \<Rightarrow> string \<Rightarrow> 'w \<Rightarrow> goerr option \<times> 'w" where
  "SendMessageStart p msgID streamID model =
     Publish p EventTypeMessageStart (pl_MessageStart msgID streamID model)"

definition SendPing :: "'w publisher \<Rightarrow> 'w \<Rightarrow> goerr option \<times> 'w" where
  "SendPing p = Publish p EventTypePing (PPing \<lparr>PD_Type = EventTypePing\<rparr>)"

definition pl_BlockStart :: "string \<Rightarrow> int \<Rightarrow> payload" where
  "pl_BlockStart blockType index = PBlockStart
     \<lparr>CBS_Type = EventTypeContentBlockStart, CBS_Index = index,
      CBS_ContentBlock = \<lparr>CB_Type = blockType, CB_Text = []\<rparr>\<rparr>"

definition pl_BlockDelta :: "string \<Rightarrow> int \<Rightarrow> string \<Rightarrow> payload" where
  "pl_BlockDelta deltaType index text = PBlockDelta
     \<lparr>CBD_Type = EventTypeContentBlockDelta, CBD_Index = index,
      CBD_Delta = \<lparr>TD_Type = deltaType, TD_Text = text\<rparr>\<rparr>"

definition pl_BlockStop :: "int \<Rightarrow> payload" where
  "pl_BlockStop index = PBlockStop \<lparr>CBP_Type = EventTypeContentBlockStop, CBP_Index = index\<rparr>"

definition SendContentBlockStartText :: "'w publisher \<Rightarrow> int \<Rightarrow> 'w \<Rightarrow> goerr option \<times> 'w" where
  "SendContentBlockStartText p index =
     Publish p EventTypeContentBlockStart (pl_BlockStart ContentBlockTypeText index)"

definition SendContentBlockDeltaText :: "'w publisher \<Rightarrow> int \<Rightarrow> string \<Rightarrow> 'w \<Rightarrow> goerr option \<times> 'w" where
  "SendContentBlockDeltaText p index text =
     Publish p EventTypeContentBlockDelta (pl_BlockDelta ContentBlockTypeTextDelta index text)"

definition SendContentBlockStartThinking :: "'w publisher \<Rightarrow> int \<Rightarrow> 'w \<Rightarrow> goerr option \<times> 'w" where
  "SendContentBlockStartThinking p index =
     Publish p EventTypeContentBlockStart (pl_BlockStart ContentBlockTypeThinking index)"

definition SendContentBlockDeltaThinking :: "'w publisher \<Rightarrow> int \<Rightarrow> string \<Rightarrow> 'w \<Rightarrow> goerr option \<times> 'w" where
  "SendContentBlockDeltaThinking p index text =
     Publish p EventTypeContentBlockDelta (pl_BlockDelta ContentBlockTypeThinkingDelta index text)"

definition SendContentBlockStop :: "'w publisher \<Rightarrow> int \<Rightarrow> 'w \<Rightarrow> goerr option \<times> 'w" where
  "SendContentBlockStop p index = Publish p EventTypeContentBlockStop (pl_BlockStop index)"

definition pl_MessageDelta :: "string \<Rightarrow> int \<Rightarrow> payload" where
  "pl_MessageDelta stopReason outputTokens = PMessageDelta
     \<lparr>MDD_Type = EventTypeMessageDelta,
      MDD_Delta = \<lparr>MDI_StopReason = stopReason, MDI_StopSequence = None\<rparr>,
      MDD_Usage = \<lparr>UE_OutputTokens = outputTokens\<rparr>\<rparr>"

definition SendMessageDelta :: "'w publisher \<Rightarrow> string \<Rightarrow> int \<Rightarrow> 'w \<Rightarrow> goerr option \<times> 'w" where
  "SendMessageDelta p stopReason outputTokens =
     Publish p EventTypeMessageDelta (pl_MessageDelta stopReason outputTokens)"

definition SendMessageStop :: "'w publisher \<Rightarrow> 'w \<Rightarrow> goerr option \<times> 'w" where
  "SendMessageStop p = Publish p EventTypeMessageStop (PMessageStop \<lparr>MPD_Type = EventTypeMessageStop\<rparr>)"

definition pl_ToolUseStart :: "int \<Rightarrow> string \<Rightarrow> string \<Rightarrow> payload" where
  "pl_ToolUseStart index toolUseID name = PToolUseStart
     \<lparr>CTU_Type = EventTypeContentBlockStart, CTU_Index = index,
      CTU_ContentBlock = \<lparr>TUB_Type = ContentBlockTypeToolUse, TUB_ID = toolUseID,
        TUB_Name = name, TUB_Input = JObj []\<rparr>\<rparr>"

definition pl_ToolInputDelta :: "int \<Rightarrow> string \<Rightarrow> payload" where
  "pl_ToolInputDelta index inputJSON = PToolInputDelta
     \<lparr>CDI_Type = EventTypeContentBlockDelta, CDI_Index = index,
      CDI_Delta = \<lparr>IJD_Type = ContentBlockTypeInputJSON, IJD_PartialJSON = inputJSON\<rparr>\<rparr>"

definition pl_ToolResultStart :: "int \<Rightarrow> string \<Rightarrow> bool \<Rightarrow> payload" where
  "pl_ToolResultStart index toolUseID isError = PToolResultStart
     \<lparr>CTR_Type = EventTypeContentBlockStart, CTR_Index = index,
      CTR_ContentBlock = \<lparr>TRB_Type = ContentBlockTypeToolResult, TRB_ToolUseID = toolUseID,
        TRB_Content = [], TRB_IsError = isError\<rparr>\<rparr>"

definition pl_ToolResultDelta :: "int \<Rightarrow> string \<Rightarrow> payload" where
  "pl_ToolResultDelta index text = PToolResultDelta
     \<lparr>CDR_Type = EventTypeContentBlockDelta, CDR_Index = index,
      CDR_Delta = \<lparr>TRD_Type = ContentBlockTypeJSONPartial, TRD_Text = text\<rparr>\<rparr>"

definition SendToolUseStart :: "'w publisher \<Rightarrow> int \<Rightarrow> string \<Rightarrow> string \<Rightarrow> 'w \<Rightarrow> goerr option \<times> 'w" where
  "SendToolUseStart p index toolUseID name =
     Publish p EventTypeContentBlockStart (pl_ToolUseStart index toolUseID name)"

definition SendToolInputDelta :: "'w publisher \<Rightarrow> int \<Rightarrow> string \<Rightarrow> 'w \<Rightarrow> goerr option \<times> 'w" where
  "SendToolInputDelta p index inputJSON =
     Publish p EventTypeContentBlockDelta (pl_ToolInputDelta index inputJSON)"

definition SendToolResultStart :: "'w publisher \<Rightarrow> int \<Rightarrow> string \<Rightarrow> bool \<Rightarrow> 'w \<Rightarrow> goerr option \<times> 'w" where
  "SendToolResultStart p index toolUseID isError =
     Publish p EventTypeContentBlockStart (pl_ToolResultStart index toolUseID isError)"

definition SendToolResultDelta :: "'w publisher \<Rightarrow> int \<Rightarrow> string \<Rightarrow> 'w \<Rightarrow> goerr option \<times> 'w" where
  "SendToolResultDelta p index text =
     Publish p EventTypeContentBlockDelta (pl_ToolResultDelta index text)"

section \<open>Composite methods\<close>

text \<open>\<open>if err := first; err != nil { return Wrap(err, m) }\<close>, then the next step.\<close>

definition and_then ::
    "string \<Rightarrow> ('w \<Rightarrow> goerr option \<times> 'w) \<Rightarrow> ('w \<Rightarrow> goerr option \<times> 'w) \<Rightarrow> 'w \<Rightarrow> goerr option \<times> 'w" where
  "and_then m f g w = (case f w of (Some e, w') \<Rightarrow> (Some (Wrapped e m), w') | (None, w') \<Rightarrow> g w')"

definition SendStreamPreamble :: "'w publisher \<Rightarrow> string \<Rightarrow> string \<Rightarrow> string \<Rightarrow> 'w \<Rightarrow> goerr option \<times> 'w" where
  "SendStreamPreamble p msgID streamID model =
     and_then ''send stream preamble'' (SendMessageStart p msgID streamID model) (SendPing p)"

definition SendStreamEpilogue :: "'w publisher \<Rightarrow> string \<Rightarrow> int \<Rightarrow> 'w \<Rightarrow> goerr option \<times> 'w" where
  "SendStreamEpilogue p stopReason outputTokens =
     and_then ''send stream epilogue'' (SendMessageDelta p stopReason outputTokens) (SendMessageStop p)"

definition SendToolUseBlock ::
    "'w publisher \<Rightarrow> int \<Rightarrow> string \<Rightarrow> string \<Rightarrow> string \<Rightarrow> 'w \<Rightarrow> goerr option \<times> 'w" where
  "SendToolUseBlock p index toolUseID name inputJSON =
     and_then ''start tool use block'' (SendToolUseStart p index toolUseID name)
       (and_then ''send tool use input'' (SendToolInputDelta p index inputJSON)
         (SendContentBlockStop p index))"

definition SendToolResultBlock ::
    "'w publisher \<Rightarrow> int \<Rightarrow> string \<Rightarrow> string \<Rightarrow> bool \<Rightarrow> 'w \<Rightarrow> goerr option \<times> 'w" where
  "SendToolResultBlock p index toolUseID resultText isError =
     and_then ''start tool result block'' (SendToolResultStart p index toolUseID isError)
       (and_then ''send tool result text'' (SendToolResultDelta p index resultText)
         (SendContentBlockStop p index))"

lemmas send_defs = SendMessageStart_def SendPing_def SendContentBlockStartText_def
  SendContentBlockDeltaText_def SendContentBlockStartThinking_def SendContentBlockDeltaThinking_def
  SendContentBlockStop_def SendMessageDelta_def SendMessageStop_def SendToolUseStart_def
  SendToolInputDelta_def SendToolResultStart_def SendToolResultDelta_def

lemmas payload_defs = pl_MessageStart_def pl_BlockStart_def pl_BlockDelta_def pl_BlockStop_def
  pl_MessageDelta_def pl_ToolUseStart_def pl_ToolInputDelta_def pl_ToolResultStart_def
  pl_ToolResultDelta_def

section \<open>The event sequence a composite method stands for\<close>

text \<open>
  \<open>payload_event\<close> is the event a payload becomes; \<open>emit_all\<close> hands events to a sink until
  one is refused. A composite method is \<open>emit_all\<close> on its events, up to the wrapping of the
  error.
\<close>

definition payload_event :: "string \<Rightarrow> payload \<Rightarrow> event" where
  "payload_event t d = \<lparr>ev_ID = [], ev_Event = t,
     ev_Data = (case json_marshal d of Inr j \<Rightarrow> j | Inl _ \<Rightarrow> [])\<rparr>"

fun emit_all :: "'w sink \<Rightarrow> event list \<Rightarrow> 'w \<Rightarrow> goerr option \<times> 'w" where
  "emit_all snk [] w = (None, w)"
| "emit_all snk (e # es) w =
     (case snk e w of (None, w') \<Rightarrow> emit_all snk es w' | (Some x, w') \<Rightarrow> (Some x, w'))"

text \<open>The same outcome: the same next state, and an error exactly when the other has one, with it in its chain.\<close>

definition same_outcome :: "goerr option \<times> 'w \<Rightarrow> goerr option \<times> 'w \<Rightarrow> bool" where
  "same_outcome r q \<longleftrightarrow> snd r = snd q \<and>
     (case (fst r, fst q) of (None, None) \<Rightarrow> True | (Some e, Some x) \<Rightarrow> errors_is e x | _ \<Rightarrow> False)"

definition marshals :: "payload \<Rightarrow> bool" where
  "marshals d \<longleftrightarrow> (\<exists>j. json_marshal d = Inr j)"

lemma marshals_simps [simp]:
  "marshals (PMessageStart a)" "marshals (PPing b)" "marshals (PBlockStart c)"
  "marshals (PBlockDelta d)" "marshals (PBlockStop e)" "marshals (PMessageDelta f)"
  "marshals (PMessageStop g)" "marshals (PToolUseStart h)" "marshals (PToolInputDelta i)"
  "marshals (PToolResultStart k)" "marshals (PToolResultDelta l)"
  by (simp_all add: marshals_def)

lemma marshals_pl [simp]:
  "marshals (pl_MessageStart a b c)" "marshals (pl_BlockStart d i)" "marshals (pl_BlockDelta e i t)"
  "marshals (pl_BlockStop i)" "marshals (pl_MessageDelta r n)" "marshals (pl_ToolUseStart i u v)"
  "marshals (pl_ToolInputDelta i t)" "marshals (pl_ToolResultStart i u x)"
  "marshals (pl_ToolResultDelta i t)"
  by (simp_all add: payload_defs)

lemma Publish_eq:
  "marshals d \<Longrightarrow> Publish p t d w =
    (case pub_sink p (payload_event t d) w of
       (Some e, w') \<Rightarrow> (Some (Wrapped e ''emit event''), w') | (None, w') \<Rightarrow> (None, w'))"
  by (auto simp: Publish_def payload_event_def marshals_def)

lemma same_outcome_one:
  "marshals d \<Longrightarrow> same_outcome (Publish p t d w) (emit_all (pub_sink p) [payload_event t d] w)"
  by (auto simp: Publish_eq same_outcome_def split: prod.splits option.splits)

lemma same_outcome_then:
  assumes "marshals d" and "\<And>w. same_outcome (g w) (emit_all (pub_sink p) es w)"
  shows "same_outcome (and_then m (Publish p t d) g w)
    (emit_all (pub_sink p) (payload_event t d # es) w)"
proof -
  obtain q w' where q: "pub_sink p (payload_event t d) w = (q, w')"
    by (cases "pub_sink p (payload_event t d) w") auto
  show ?thesis
  proof (cases q)
    case None
    with q assms(2) [of w'] show ?thesis by (simp add: and_then_def Publish_eq [OF assms(1)])
  next
    case (Some x)
    with q show ?thesis by (simp add: and_then_def Publish_eq [OF assms(1)] same_outcome_def)
  qed
qed

definition tool_use_events :: "int \<Rightarrow> string \<Rightarrow> string \<Rightarrow> string \<Rightarrow> event list" where
  "tool_use_events index toolUseID name inputJSON =
     [payload_event EventTypeContentBlockStart (pl_ToolUseStart index toolUseID name),
      payload_event EventTypeContentBlockDelta (pl_ToolInputDelta index inputJSON),
      payload_event EventTypeContentBlockStop (pl_BlockStop index)]"

definition tool_result_events :: "int \<Rightarrow> string \<Rightarrow> string \<Rightarrow> bool \<Rightarrow> event list" where
  "tool_result_events index toolUseID resultText isError =
     [payload_event EventTypeContentBlockStart (pl_ToolResultStart index toolUseID isError),
      payload_event EventTypeContentBlockDelta (pl_ToolResultDelta index resultText),
      payload_event EventTypeContentBlockStop (pl_BlockStop index)]"

definition preamble_events :: "string \<Rightarrow> string \<Rightarrow> string \<Rightarrow> event list" where
  "preamble_events msgID streamID model =
     [payload_event EventTypeMessageStart (pl_MessageStart msgID streamID model),
      payload_event EventTypePing (PPing \<lparr>PD_Type = EventTypePing\<rparr>)]"

definition epilogue_events :: "string \<Rightarrow> int \<Rightarrow> event list" where
  "epilogue_events stopReason outputTokens =
     [payload_event EventTypeMessageDelta (pl_MessageDelta stopReason outputTokens),
      payload_event EventTypeMessageStop (PMessageStop \<lparr>MPD_Type = EventTypeMessageStop\<rparr>)]"

lemma SendToolUseBlock_outcome:
  "same_outcome (SendToolUseBlock p i u n js w) (emit_all (pub_sink p) (tool_use_events i u n js) w)"
  unfolding SendToolUseBlock_def tool_use_events_def send_defs
  by (intro same_outcome_then same_outcome_one) simp_all

lemma SendToolResultBlock_outcome:
  "same_outcome (SendToolResultBlock p i u t x w) (emit_all (pub_sink p) (tool_result_events i u t x) w)"
  unfolding SendToolResultBlock_def tool_result_events_def send_defs
  by (intro same_outcome_then same_outcome_one) simp_all

lemma SendStreamPreamble_outcome:
  "same_outcome (SendStreamPreamble p a b c w) (emit_all (pub_sink p) (preamble_events a b c) w)"
  unfolding SendStreamPreamble_def preamble_events_def send_defs
  by (intro same_outcome_then same_outcome_one) simp_all

lemma SendStreamEpilogue_outcome:
  "same_outcome (SendStreamEpilogue p r k w) (emit_all (pub_sink p) (epilogue_events r k) w)"
  unfolding SendStreamEpilogue_def epilogue_events_def send_defs
  by (intro same_outcome_then same_outcome_one) simp_all

text \<open>
  C16. Each composite method of the publisher (\<open>SendToolUseBlock\<close>, \<open>SendToolResultBlock\<close>,
  \<open>SendStreamPreamble\<close>, \<open>SendStreamEpilogue\<close>) hands its events to the sink in order, stops
  at the first one the sink refuses, reports an error exactly then, and the sink's own error
  stays in the chain of the error it reports. This holds for every sink.
\<close>

theorem composite_methods_emit_in_order:
  "same_outcome (SendToolUseBlock p i u n js w) (emit_all (pub_sink p) (tool_use_events i u n js) w)
   \<and> same_outcome (SendToolResultBlock p i u t x w) (emit_all (pub_sink p) (tool_result_events i u t x) w)
   \<and> same_outcome (SendStreamPreamble p a b c w) (emit_all (pub_sink p) (preamble_events a b c) w)
   \<and> same_outcome (SendStreamEpilogue p r k w) (emit_all (pub_sink p) (epilogue_events r k) w)"
  by (intro conjI SendToolUseBlock_outcome SendToolResultBlock_outcome SendStreamPreamble_outcome
      SendStreamEpilogue_outcome)

text \<open>
  C34. What \<open>Publish\<close> logs depends on the text of a delta only through its length: two
  payloads that differ only in delta texts of equal length produce the same log line, so
  model output and tool arguments never reach the log.
\<close>

theorem log_line_hides_delta_text:
  "length t = length u \<Longrightarrow>
    logEvent ev (pl_BlockDelta k i t) = logEvent ev (pl_BlockDelta k i u)
    \<and> logEvent ev (pl_ToolInputDelta i t) = logEvent ev (pl_ToolInputDelta i u)
    \<and> logEvent ev (pl_ToolResultDelta i t) = logEvent ev (pl_ToolResultDelta i u)"
  by (simp add: logEvent_def payload_defs)

theorem log_line_hides_delta_text_witness:
  "logEvent EventTypeContentBlockDelta (pl_ToolInputDelta 0 ''secret'')
   = logEvent EventTypeContentBlockDelta (pl_ToolInputDelta 0 ''public'')"
  using log_line_hides_delta_text [of "''secret''" "''public''"] by simp

section \<open>The sink's contract\<close>

locale sink_contract =
  fixes emit :: "'w sink"
    and delivered :: "'w \<Rightarrow> event list"
    and inv :: "'w \<Rightarrow> bool"
  assumes emit_ok: "\<lbrakk>inv w; emit e w = (None, w')\<rbrakk> \<Longrightarrow> inv w' \<and> delivered w' = delivered w @ [e]"
    and emit_err: "\<lbrakk>inv w; emit e w = (Some x, w')\<rbrakk> \<Longrightarrow> inv w' \<and> delivered w' = delivered w"
begin

lemma Publish_result:
  assumes "inv w" and "marshals d" and "Publish (NewPublisher emit) t d w = (r, w')"
  shows "inv w'" and "r = None \<Longrightarrow> delivered w' = delivered w @ [payload_event t d]"
    and "r \<noteq> None \<Longrightarrow> delivered w' = delivered w"
proof -
  obtain q v where q: "emit (payload_event t d) w = (q, v)"
    by (cases "emit (payload_event t d) w") auto
  with assms(3) have "v = w'" "q = None \<longleftrightarrow> r = None"
    by (auto simp: Publish_eq [OF assms(2)] split: option.splits)
  with q emit_ok [OF assms(1)] emit_err [OF assms(1)]
  show "inv w'" "r = None \<Longrightarrow> delivered w' = delivered w @ [payload_event t d]"
    "r \<noteq> None \<Longrightarrow> delivered w' = delivered w"
    by (cases q; force)+
qed

lemma emit_all_prefix:
  assumes "inv w" and "emit_all emit es w = (r, w')"
  shows "inv w' \<and> (\<exists>n. delivered w' = delivered w @ take n es \<and> (r = None \<longrightarrow> take n es = es))"
  using assms
proof (induction es arbitrary: w)
  case Nil
  then show ?case by auto
next
  case (Cons e es)
  obtain q w1 where e: "emit e w = (q, w1)" by (cases "emit e w") auto
  show ?case
  proof (cases q)
    case None
    with emit_ok [OF Cons.prems(1)] e have i: "inv w1" "delivered w1 = delivered w @ [e]" by auto
    from Cons.IH [OF i(1)] Cons.prems(2) e None obtain n where
      "inv w'" "delivered w' = delivered w1 @ take n es" "r = None \<longrightarrow> take n es = es" by auto
    with i(2) show ?thesis by (auto intro!: exI [of _ "Suc n"])
  next
    case (Some x)
    with emit_err [OF Cons.prems(1)] e Cons.prems(2) show ?thesis by (auto intro!: exI [of _ 0])
  qed
qed

lemma emit_all_delivers:
  "\<lbrakk>inv w; emit_all emit es w = (r, w')\<rbrakk> \<Longrightarrow> \<exists>n. delivered w' = delivered w @ take n es"
proof (induction es arbitrary: w)
  case (Cons e es)
  obtain q w1 where q: "emit e w = (q, w1)" by force
  show ?case
  proof (cases q)
    case None
    with q emit_ok [OF Cons.prems(1)] have w1: "inv w1" "delivered w1 = delivered w @ [e]" by auto
    from Cons.prems(2) q None have "emit_all emit es w1 = (r, w')" by simp
    from Cons.IH [OF w1(1) this] obtain n where "delivered w' = delivered w1 @ take n es" by blast
    with w1(2) show ?thesis by (intro exI [of _ "Suc n"]) simp
  next
    case (Some x)
    with q emit_err [OF Cons.prems(1)] Cons.prems(2) show ?thesis by (intro exI [of _ 0]) auto
  qed
qed auto

end

locale reliable_sink = sink_contract +
  assumes emit_never_fails: "inv w \<Longrightarrow> fst (emit e w) = None"
begin

lemma Publish_reliable:
  assumes "inv w" and "marshals d"
  obtains w' where "Publish (NewPublisher emit) t d w = (None, w')" "inv w'"
    "delivered w' = delivered w @ [payload_event t d]"
proof -
  obtain w' where "emit (payload_event t d) w = (None, w')"
    using emit_never_fails [OF assms(1), of "payload_event t d"]
    by (cases "emit (payload_event t d) w") auto
  with emit_ok [OF assms(1)] that show ?thesis by (simp add: Publish_eq [OF assms(2)])
qed

lemma emit_all_reliable:
  "inv w \<Longrightarrow> \<exists>w'. emit_all emit es w = (None, w') \<and> inv w' \<and> delivered w' = delivered w @ es"
proof (induction es arbitrary: w)
  case Nil
  then show ?case by simp
next
  case (Cons e es)
  obtain w1 where e: "emit e w = (None, w1)"
    using emit_never_fails [OF Cons.prems, of e] by (cases "emit e w") auto
  with emit_ok [OF Cons.prems] have "inv w1" "delivered w1 = delivered w @ [e]" by auto
  with Cons.IH [of w1] e show ?case by auto
qed

end

end
