(* ===== verification/Sinks.thy ===== *)
theory Sinks
  imports Publisher
begin

text \<open>
  \<open>memory.go\<close> and \<open>multisink.go\<close>: the sink that collects, the source that replays, and the
  sink that fans out. Each method of the collecting sink and of the replaying source runs under
  the value's mutex, so a method is one step on its state.

  The interface \<open>Source\<close> of \<open>event.go\<close> is the locale \<open>event_source\<close>: a source holds a
  sequence of pending events, hands out the first, and answers \<open>ErrNoMoreEvents\<close> once none is
  left. \<open>collect\<close> is the loop every consumer runs over a source.
\<close>

section \<open>InMemorySink\<close>

record InMemorySink =
  ims_events :: "event list"

definition NewInMemorySink :: InMemorySink where
  "NewInMemorySink = \<lparr>ims_events = []\<rparr>"

definition InMemorySink_Emit :: "InMemorySink sink" where
  "InMemorySink_Emit ev s = (None, s\<lparr>ims_events := ims_events s @ [ev]\<rparr>)"

definition InMemorySink_Events :: "InMemorySink \<Rightarrow> event list" where
  "InMemorySink_Events s = ims_events s"

definition InMemorySink_Len :: "InMemorySink \<Rightarrow> nat" where
  "InMemorySink_Len s = length (ims_events s)"

interpretation ims: reliable_sink InMemorySink_Emit InMemorySink_Events "\<lambda>_. True"
  by unfold_locales (auto simp: InMemorySink_Emit_def InMemorySink_Events_def)

section \<open>SliceSource\<close>

text \<open>A source's \<open>Next\<close>; a call that never returns is \<open>None\<close>.\<close>

type_synonym 's source = "'s \<Rightarrow> ((goerr + event) \<times> 's) option"

record SliceSource =
  ss_events :: "event list"
  ss_next :: nat

definition NewSliceSource :: "event list \<Rightarrow> SliceSource" where
  "NewSliceSource events = \<lparr>ss_events = events, ss_next = 0\<rparr>"

definition SliceSource_Next :: "SliceSource source" where
  "SliceSource_Next s =
     (if length (ss_events s) \<le> ss_next s then Some (Inl ErrNoMoreEvents, s)
      else Some (Inr (ss_events s ! ss_next s), s\<lparr>ss_next := ss_next s + 1\<rparr>))"

locale event_source =
  fixes nxt :: "'s source"
    and pending :: "'s \<Rightarrow> event list"
    and inv :: "'s \<Rightarrow> bool"
  assumes next_event:
      "\<lbrakk>inv s; pending s = e # es\<rbrakk> \<Longrightarrow> \<exists>s'. nxt s = Some (Inr e, s') \<and> inv s' \<and> pending s' = es"
    and next_end: "\<lbrakk>inv s; pending s = []\<rbrakk> \<Longrightarrow> \<exists>s'. nxt s = Some (Inl ErrNoMoreEvents, s')"

definition slice_pending :: "SliceSource \<Rightarrow> event list" where
  "slice_pending s = drop (ss_next s) (ss_events s)"

interpretation slice: event_source SliceSource_Next slice_pending "\<lambda>_. True"
proof unfold_locales
  fix s e es
  assume p: "slice_pending s = e # es"
  then have "ss_next s < length (ss_events s)" by (auto simp: slice_pending_def not_le [symmetric])
  then have "drop (ss_next s) (ss_events s)
      = ss_events s ! ss_next s # drop (Suc (ss_next s)) (ss_events s)"
    by (rule Cons_nth_drop_Suc [symmetric])
  with p \<open>ss_next s < length (ss_events s)\<close>
  show "\<exists>s'. SliceSource_Next s = Some (Inr e, s') \<and> True \<and> slice_pending s' = es"
    by (auto simp: SliceSource_Next_def slice_pending_def)
qed (auto simp: SliceSource_Next_def slice_pending_def)

text \<open>
  A consumer's loop: take events until the source answers with an error, which is handed back
  with the events seen. The loop need not end, so the result is an option.
\<close>

partial_function (option) collect_from ::
    "'s source \<Rightarrow> event list \<Rightarrow> 's \<Rightarrow> (event list \<times> goerr) option" where
  "collect_from nxt seen s =
     (case nxt s of
        None \<Rightarrow> None
      | Some (Inl e, s') \<Rightarrow> Some (seen, e)
      | Some (Inr ev, s') \<Rightarrow> collect_from nxt (seen @ [ev]) s')"

definition collect :: "'s source \<Rightarrow> 's \<Rightarrow> (event list \<times> goerr) option" where
  "collect nxt s = collect_from nxt [] s"

context event_source
begin

lemma collect_from_pending:
  "inv s \<Longrightarrow> collect_from nxt seen s = Some (seen @ pending s, ErrNoMoreEvents)"
proof (induction "pending s" arbitrary: s seen)
  case Nil
  with next_end show ?case by (force simp: collect_from.simps [of nxt seen s])
next
  case (Cons e es)
  from next_event [OF Cons.prems Cons.hyps(2) [symmetric]] obtain s' where
    s': "nxt s = Some (Inr e, s')" "inv s'" "pending s' = es" by blast
  then have "collect_from nxt (seen @ [e]) s' = Some ((seen @ [e]) @ pending s', ErrNoMoreEvents)"
    by (intro Cons.hyps(1)) auto
  with s' Cons.hyps(2) show ?case by (simp add: collect_from.simps [of nxt seen s])
qed

lemma collect_pending: "inv s \<Longrightarrow> collect nxt s = Some (pending s, ErrNoMoreEvents)"
  by (simp add: collect_def collect_from_pending)

end

text \<open>
  C32. What an \<open>InMemorySink\<close> collected, replayed through a \<open>SliceSource\<close>, is the sequence that
  was emitted: events survive in order and number, and the consumer's loop ends with
  \<open>ErrNoMoreEvents\<close>.
\<close>

theorem memory_round_trip:
  "\<exists>s. emit_all InMemorySink_Emit evs NewInMemorySink = (None, s)
     \<and> InMemorySink_Len s = length evs
     \<and> collect SliceSource_Next (NewSliceSource (InMemorySink_Events s)) = Some (evs, ErrNoMoreEvents)"
proof -
  obtain s where s: "emit_all InMemorySink_Emit evs NewInMemorySink = (None, s)"
      "InMemorySink_Events s = InMemorySink_Events NewInMemorySink @ evs"
    using ims.emit_all_reliable [where w = NewInMemorySink and es = evs] by auto
  then have "InMemorySink_Events s = evs"
    by (simp add: InMemorySink_Events_def NewInMemorySink_def)
  with s(1) slice.collect_pending [of "NewSliceSource evs"] show ?thesis
    by (simp add: slice_pending_def NewSliceSource_def InMemorySink_Len_def InMemorySink_Events_def)
qed

section \<open>MultiSink\<close>

text \<open>
  The sinks act on one shared world, in order; the errors of those that failed are collected.
\<close>

fun multi_emit :: "'w sink list \<Rightarrow> event \<Rightarrow> 'w \<Rightarrow> goerr list \<times> 'w" where
  "multi_emit [] ev w = ([], w)"
| "multi_emit (sink # sinks) ev w =
     (case sink ev w of (r, w1) \<Rightarrow>
        (case multi_emit sinks ev w1 of (errs, w2) \<Rightarrow>
           ((case r of None \<Rightarrow> errs | Some e \<Rightarrow> e # errs), w2)))"

definition MultiSink_Emit :: "'w sink list \<Rightarrow> 'w sink" where
  "MultiSink_Emit sinks ev w =
     (case multi_emit sinks ev w of (errs, w') \<Rightarrow>
        if errs = [] then (None, w') else (Some (Wrapped (Joined errs) ''emit to sinks''), w'))"

text \<open>A sink of a component, as a sink of a larger world.\<close>

definition lift_fst :: "'a sink \<Rightarrow> ('a \<times> 'b) sink" where
  "lift_fst snk ev w = (case snk ev (fst w) of (r, a) \<Rightarrow> (r, (a, snd w)))"

definition lift_snd :: "'b sink \<Rightarrow> ('a \<times> 'b) sink" where
  "lift_snd snk ev w = (case snk ev (snd w) of (r, b) \<Rightarrow> (r, (fst w, b)))"

fun outcomes :: "'w sink list \<Rightarrow> event \<Rightarrow> 'w \<Rightarrow> goerr option list" where
  "outcomes [] ev w = []"
| "outcomes (sink # sinks) ev w = fst (sink ev w) # outcomes sinks ev (snd (sink ev w))"

lemma multi_emit_world: "snd (multi_emit sinks ev w) = fold (\<lambda>snk w. snd (snk ev w)) sinks w"
  by (induction sinks arbitrary: w) (simp_all add: case_prod_beta)

lemma multi_emit_errs: "fst (multi_emit sinks ev w) = List.map_filter id (outcomes sinks ev w)"
  by (induction sinks arbitrary: w)
    (simp_all add: case_prod_beta map_filter_simps split: option.splits)

text \<open>
  C17. \<open>MultiSink.Emit\<close> hands the event to every sink, in order, whichever of them fail (the
  next world is that of all of them in turn); it reports an error exactly when some sink
  failed, and every sink's error can be found in the reported one with \<open>errors.Is\<close>.
\<close>

theorem multisink_reaches_every_sink:
  "snd (MultiSink_Emit sinks ev w) = fold (\<lambda>snk w. snd (snk ev w)) sinks w
   \<and> (fst (MultiSink_Emit sinks ev w) = None \<longleftrightarrow> (\<forall>r \<in> set (outcomes sinks ev w). r = None))
   \<and> (\<forall>x. Some x \<in> set (outcomes sinks ev w) \<longrightarrow>
        (\<exists>e. fst (MultiSink_Emit sinks ev w) = Some e \<and> errors_is e x))"
proof -
  obtain errs w' where m: "multi_emit sinks ev w = (errs, w')" by (cases "multi_emit sinks ev w") auto
  then have errs: "errs = List.map_filter id (outcomes sinks ev w)"
    using multi_emit_errs [of sinks ev w] by simp
  have mem: "x \<in> set errs \<longleftrightarrow> Some x \<in> set (outcomes sinks ev w)" for x
    by (force simp: errs List.map_filter_def)
  have "errs = [] \<longleftrightarrow> (\<forall>r \<in> set (outcomes sinks ev w). r = None)"
    using mem by (metis list.set_intros(1) neq_Nil_conv not_None_eq empty_iff list.set(1))
  moreover have "errors_is (Wrapped (Joined errs) m) x" if "x \<in> set errs" for x m
    using that by (auto simp: list_ex_iff intro!: bexI [of _ x])
  ultimately show ?thesis
    using m mem multi_emit_world [of sinks ev w]
    by (auto simp: MultiSink_Emit_def)
qed

theorem multisink_reaches_every_sink_witness:
  "\<exists>e. fst (MultiSink_Emit [\<lambda>ev w. (Some (ErrOther ''disk full''), w), InMemorySink_Emit]
        \<lparr>ev_ID = [], ev_Event = ''ping'', ev_Data = ''{}''\<rparr> NewInMemorySink) = Some e
      \<and> errors_is e (ErrOther ''disk full'')"
  using multisink_reaches_every_sink
    [of "[\<lambda>ev w. (Some (ErrOther ''disk full''), w), InMemorySink_Emit]"
      "\<lparr>ev_ID = [], ev_Event = ''ping'', ev_Data = ''{}''\<rparr>" NewInMemorySink]
  by simp

text \<open>Two reliable sinks fanned out to are one reliable sink, as seen from either of them.\<close>

locale two_sinks =
  left: reliable_sink emitA deliveredA invA + right: reliable_sink emitB deliveredB invB
  for emitA :: "'a sink" and deliveredA and invA
    and emitB :: "'b sink" and deliveredB and invB
begin

lemma both_emitted:
  assumes "invA a" and "invB b"
  shows "MultiSink_Emit [lift_fst emitA, lift_snd emitB] e (a, b)
    = (None, (snd (emitA e a), snd (emitB e b)))"
  using left.emit_never_fails [OF assms(1), of e] right.emit_never_fails [OF assms(2), of e]
  by (auto simp: MultiSink_Emit_def lift_fst_def lift_snd_def split: prod.splits)

lemma left_grows:
  "\<lbrakk>invA a\<rbrakk> \<Longrightarrow> invA (snd (emitA e a)) \<and> deliveredA (snd (emitA e a)) = deliveredA a @ [e]"
  using left.emit_never_fails [of a e] left.emit_ok [of a e] by (cases "emitA e a") auto

lemma right_grows:
  "\<lbrakk>invB b\<rbrakk> \<Longrightarrow> invB (snd (emitB e b)) \<and> deliveredB (snd (emitB e b)) = deliveredB b @ [e]"
  using right.emit_never_fails [of b e] right.emit_ok [of b e] by (cases "emitB e b") auto

end

sublocale two_sinks \<subseteq> multi_left: reliable_sink "MultiSink_Emit [lift_fst emitA, lift_snd emitB]"
    "\<lambda>w. deliveredA (fst w)" "\<lambda>w. invA (fst w) \<and> invB (snd w)"
  by unfold_locales (auto simp: both_emitted left_grows right_grows)

sublocale two_sinks \<subseteq> multi_right: reliable_sink "MultiSink_Emit [lift_fst emitA, lift_snd emitB]"
    "\<lambda>w. deliveredB (snd w)" "\<lambda>w. invA (fst w) \<and> invB (snd w)"
  by unfold_locales (auto simp: both_emitted left_grows right_grows)

text \<open>The instance the tests of \<open>MultiSink\<close> run: two collecting sinks.\<close>

interpretation two_memory: two_sinks InMemorySink_Emit InMemorySink_Events "\<lambda>_. True"
  InMemorySink_Emit InMemorySink_Events "\<lambda>_. True"
  by unfold_locales

end
