(* ===== verification/Streamer.thy ===== *)
theory Streamer
  imports Sinks
begin

text \<open>
  \<open>streamer.go\<close>: \<open>TextStreamer\<close> accumulates text and emits it as one content block, opened
  lazily on the first non-empty chunk; \<open>LineStreamer\<close> does the same line by line, through a
  transform. The publisher may be nil, which is \<open>None\<close>; every method returns the error, the
  streamer and the next state of the world the publisher's sink writes to.

  The abstract view is \<open>block_step\<close>: a machine that reads the events of one streamer and
  accepts them only as complete blocks with consecutive indices. \<open>Write\<close> and \<open>Close\<close> keep
  the streamer's \<open>blockIndex\<close> and \<open>blockStarted\<close> equal to the machine's state, whatever the
  sink refuses.
\<close>

section \<open>TextStreamer\<close>

datatype streamerKind = streamerText | streamerThinking

record 'w TextStreamer =
  ts_publisher :: "'w publisher option"
  ts_kind :: streamerKind
  ts_message :: string
  ts_blockIndex :: int
  ts_blockStarted :: bool

definition NewTextStreamer :: "'w publisher option \<Rightarrow> int \<Rightarrow> 'w TextStreamer" where
  "NewTextStreamer pub startIndex = \<lparr>ts_publisher = pub, ts_kind = streamerText, ts_message = [],
     ts_blockIndex = startIndex, ts_blockStarted = False\<rparr>"

definition NewThinkingStreamer :: "'w publisher option \<Rightarrow> int \<Rightarrow> 'w TextStreamer" where
  "NewThinkingStreamer pub startIndex = \<lparr>ts_publisher = pub, ts_kind = streamerThinking, ts_message = [],
     ts_blockIndex = startIndex, ts_blockStarted = False\<rparr>"

definition startBlock :: "'w publisher \<Rightarrow> 'w TextStreamer \<Rightarrow> 'w \<Rightarrow> goerr option \<times> 'w" where
  "startBlock pub s =
     (if ts_kind s = streamerThinking then SendContentBlockStartThinking pub (ts_blockIndex s)
      else SendContentBlockStartText pub (ts_blockIndex s))"

definition deltaBlock :: "'w publisher \<Rightarrow> 'w TextStreamer \<Rightarrow> string \<Rightarrow> 'w \<Rightarrow> goerr option \<times> 'w" where
  "deltaBlock pub s chunk =
     (if ts_kind s = streamerThinking then SendContentBlockDeltaThinking pub (ts_blockIndex s) chunk
      else SendContentBlockDeltaText pub (ts_blockIndex s) chunk)"

definition TextStreamer_Text :: "'w TextStreamer \<Rightarrow> string" where
  "TextStreamer_Text s = ts_message s"

definition TextStreamer_BlockIndex :: "'w TextStreamer \<Rightarrow> int" where
  "TextStreamer_BlockIndex s = ts_blockIndex s"

definition TextStreamer_BlockStarted :: "'w TextStreamer \<Rightarrow> bool" where
  "TextStreamer_BlockStarted s = ts_blockStarted s"

definition TextStreamer_delta ::
    "'w publisher \<Rightarrow> 'w TextStreamer \<Rightarrow> string \<Rightarrow> 'w \<Rightarrow> goerr option \<times> 'w TextStreamer \<times> 'w" where
  "TextStreamer_delta pub s chunk w =
     (case deltaBlock pub s chunk w of
        (Some e, w') \<Rightarrow> (Some (Wrapped e ''send content block delta''), s, w')
      | (None, w') \<Rightarrow> (None, s, w'))"

definition TextStreamer_Write ::
    "'w TextStreamer \<Rightarrow> string \<Rightarrow> 'w \<Rightarrow> goerr option \<times> 'w TextStreamer \<times> 'w" where
  "TextStreamer_Write s chunk w =
     (if chunk = [] then (None, s, w)
      else let s1 = s\<lparr>ts_message := ts_message s @ chunk\<rparr> in
        case ts_publisher s1 of
          None \<Rightarrow> (None, s1, w)
        | Some pub \<Rightarrow>
            (if \<not> ts_blockStarted s1 then
               (case startBlock pub s1 w of
                  (Some e, w') \<Rightarrow> (Some (Wrapped e ''send content block start''), s1, w')
                | (None, w') \<Rightarrow> TextStreamer_delta pub (s1\<lparr>ts_blockStarted := True\<rparr>) chunk w')
             else TextStreamer_delta pub s1 chunk w))"

definition TextStreamer_Close ::
    "'w TextStreamer \<Rightarrow> 'w \<Rightarrow> goerr option \<times> 'w TextStreamer \<times> 'w" where
  "TextStreamer_Close s w =
     (if \<not> ts_blockStarted s then (None, s, w)
      else case ts_publisher s of
          None \<Rightarrow> (None, s\<lparr>ts_blockStarted := False, ts_blockIndex := ts_blockIndex s + 1\<rparr>, w)
        | Some pub \<Rightarrow>
            (case SendContentBlockStop pub (ts_blockIndex s) w of
               (Some e, w') \<Rightarrow> (Some (Wrapped e ''send content block stop''), s, w')
             | (None, w') \<Rightarrow>
                 (None, s\<lparr>ts_blockStarted := False, ts_blockIndex := ts_blockIndex s + 1\<rparr>, w')))"

section \<open>LineStreamer\<close>

text \<open>A nil transform is \<open>None\<close>.\<close>

record 'w LineStreamer =
  ls_publisher :: "'w publisher option"
  ls_transform :: "(string \<Rightarrow> string) option"
  ls_lineBuffer :: string
  ls_output :: string
  ls_blockIndex :: int
  ls_blockStarted :: bool

definition NewLineStreamer ::
    "'w publisher option \<Rightarrow> int \<Rightarrow> (string \<Rightarrow> string) option \<Rightarrow> 'w LineStreamer" where
  "NewLineStreamer pub startIndex tr = \<lparr>ls_publisher = pub, ls_transform = tr, ls_lineBuffer = [],
     ls_output = [], ls_blockIndex = startIndex, ls_blockStarted = False\<rparr>"

definition LineStreamer_Text :: "'w LineStreamer \<Rightarrow> string" where
  "LineStreamer_Text s = ls_output s"

definition LineStreamer_BlockIndex :: "'w LineStreamer \<Rightarrow> int" where
  "LineStreamer_BlockIndex s = ls_blockIndex s"

definition LineStreamer_BlockStarted :: "'w LineStreamer \<Rightarrow> bool" where
  "LineStreamer_BlockStarted s = ls_blockStarted s"

definition LineStreamer_delta ::
    "'w publisher \<Rightarrow> 'w LineStreamer \<Rightarrow> string \<Rightarrow> 'w \<Rightarrow> goerr option \<times> 'w LineStreamer \<times> 'w" where
  "LineStreamer_delta pub s chunk w =
     (case SendContentBlockDeltaText pub (ls_blockIndex s) chunk w of
        (Some e, w') \<Rightarrow> (Some (Wrapped e ''send content block delta''), s, w')
      | (None, w') \<Rightarrow> (None, s, w'))"

definition line_chunk :: "(string \<Rightarrow> string) option \<Rightarrow> string \<Rightarrow> bool \<Rightarrow> string" where
  "line_chunk tr line withNewline =
     (case tr of None \<Rightarrow> line | Some f \<Rightarrow> f line) @ (if withNewline then [LF] else [])"

definition emitLine ::
    "'w LineStreamer \<Rightarrow> string \<Rightarrow> bool \<Rightarrow> 'w \<Rightarrow> goerr option \<times> 'w LineStreamer \<times> 'w" where
  "emitLine s line withNewline w =
     (let chunk = line_chunk (ls_transform s) line withNewline;
          s1 = s\<lparr>ls_output := ls_output s @ chunk\<rparr>
      in case ls_publisher s1 of
          None \<Rightarrow> (None, s1, w)
        | Some pub \<Rightarrow>
            (if \<not> ls_blockStarted s1 then
               (case SendContentBlockStartText pub (ls_blockIndex s1) w of
                  (Some e, w') \<Rightarrow> (Some (Wrapped e ''send content block start''), s1, w')
                | (None, w') \<Rightarrow> LineStreamer_delta pub (s1\<lparr>ls_blockStarted := True\<rparr>) chunk w')
             else LineStreamer_delta pub s1 chunk w))"

text \<open>The loop of \<open>Write\<close>: \<open>strings.IndexByte(rest, '\n')\<close> splits off one line at a time.\<close>

function LineStreamer_loop ::
    "'w LineStreamer \<Rightarrow> string \<Rightarrow> 'w \<Rightarrow> goerr option \<times> 'w LineStreamer \<times> 'w" where
  "LineStreamer_loop s rest w =
     (if LF \<notin> set rest then (None, s\<lparr>ls_lineBuffer := ls_lineBuffer s @ rest\<rparr>, w)
      else let line = ls_lineBuffer s @ takeWhile (\<lambda>c. c \<noteq> LF) rest in
        case emitLine (s\<lparr>ls_lineBuffer := []\<rparr>) line True w of
          (Some e, s', w') \<Rightarrow> (Some (Wrapped e ''emit completed line''), s', w')
        | (None, s', w') \<Rightarrow> LineStreamer_loop s' (drop 1 (dropWhile (\<lambda>c. c \<noteq> LF) rest)) w')"
  by pat_completeness auto
termination
proof (relation "measure (\<lambda>(s, rest, w). length rest)", goal_cases)
  case (2 s rest w)
  then have "dropWhile (\<lambda>c. c \<noteq> LF) rest \<noteq> []" by (auto simp: dropWhile_eq_Nil_conv)
  moreover have "length (dropWhile (\<lambda>c. c \<noteq> LF) rest) \<le> length rest" by (rule length_dropWhile_le)
  ultimately show ?case by (cases "dropWhile (\<lambda>c. c \<noteq> LF) rest") auto
qed simp

declare LineStreamer_loop.simps [simp del]

definition LineStreamer_Write ::
    "'w LineStreamer \<Rightarrow> string \<Rightarrow> 'w \<Rightarrow> goerr option \<times> 'w LineStreamer \<times> 'w" where
  "LineStreamer_Write s chunk w = (if chunk = [] then (None, s, w) else LineStreamer_loop s chunk w)"

definition LineStreamer_stop ::
    "'w LineStreamer \<Rightarrow> 'w \<Rightarrow> goerr option \<times> 'w LineStreamer \<times> 'w" where
  "LineStreamer_stop s w =
     (if \<not> ls_blockStarted s then (None, s, w)
      else case ls_publisher s of
          None \<Rightarrow> (None, s\<lparr>ls_blockStarted := False, ls_blockIndex := ls_blockIndex s + 1\<rparr>, w)
        | Some pub \<Rightarrow>
            (case SendContentBlockStop pub (ls_blockIndex s) w of
               (Some e, w') \<Rightarrow> (Some (Wrapped e ''send content block stop''), s, w')
             | (None, w') \<Rightarrow>
                 (None, s\<lparr>ls_blockStarted := False, ls_blockIndex := ls_blockIndex s + 1\<rparr>, w')))"

definition LineStreamer_Close ::
    "'w LineStreamer \<Rightarrow> 'w \<Rightarrow> goerr option \<times> 'w LineStreamer \<times> 'w" where
  "LineStreamer_Close s w =
     (if ls_lineBuffer s \<noteq> [] then
        (case emitLine s (ls_lineBuffer s) False w of
           (Some e, s', w') \<Rightarrow> (Some (Wrapped e ''flush trailing line''), s', w')
         | (None, s', w') \<Rightarrow> LineStreamer_stop (s'\<lparr>ls_lineBuffer := []\<rparr>) w')
      else LineStreamer_stop s w)"

section \<open>The abstract machine of content blocks\<close>

text \<open>
  The names of the block and delta a streamer of a kind emits, and the event of each step.
\<close>

fun kind_block :: "streamerKind \<Rightarrow> string" where
  "kind_block streamerText = ContentBlockTypeText"
| "kind_block streamerThinking = ContentBlockTypeThinking"

fun kind_delta :: "streamerKind \<Rightarrow> string" where
  "kind_delta streamerText = ContentBlockTypeTextDelta"
| "kind_delta streamerThinking = ContentBlockTypeThinkingDelta"

definition start_event :: "streamerKind \<Rightarrow> int \<Rightarrow> event" where
  "start_event k i = payload_event EventTypeContentBlockStart (pl_BlockStart (kind_block k) i)"

definition delta_event :: "streamerKind \<Rightarrow> int \<Rightarrow> string \<Rightarrow> event" where
  "delta_event k i t = payload_event EventTypeContentBlockDelta (pl_BlockDelta (kind_delta k) i t)"

definition stop_event :: "int \<Rightarrow> event" where
  "stop_event i = payload_event EventTypeContentBlockStop (pl_BlockStop i)"

text \<open>
  \<open>block_run k es (i, b) (j, c)\<close>: from a state where the next block has index \<open>i\<close> and a block
  is open iff \<open>b\<close>, the events \<open>es\<close> are well-formed blocks of kind \<open>k\<close>, and lead to
  \<open>(j, c)\<close>. A start needs a closed state, deltas and stops an open one with the same index.
\<close>

inductive block_step :: "streamerKind \<Rightarrow> event \<Rightarrow> int \<times> bool \<Rightarrow> int \<times> bool \<Rightarrow> bool" for k where
  bs_start: "block_step k (start_event k i) (i, False) (i, True)"
| bs_delta: "block_step k (delta_event k i t) (i, True) (i, True)"
| bs_stop: "block_step k (stop_event i) (i, True) (i + 1, False)"

inductive block_run :: "streamerKind \<Rightarrow> event list \<Rightarrow> int \<times> bool \<Rightarrow> int \<times> bool \<Rightarrow> bool" for k where
  br_nil: "block_run k [] q q"
| br_snoc: "\<lbrakk>block_run k es q r; block_step k e r r'\<rbrakk> \<Longrightarrow> block_run k (es @ [e]) q r'"

lemma block_run_append: "\<lbrakk>block_run k fs r s; block_run k es q r\<rbrakk> \<Longrightarrow> block_run k (es @ fs) q s"
proof (induction rule: block_run.induct)
  case (br_snoc fs r s e s')
  then show ?case using block_run.br_snoc [of k "es @ fs"] by simp
qed simp

lemmas block_run_simps = block_run.br_nil block_run.br_snoc [OF _ bs_start]
  block_run.br_snoc [OF _ bs_delta] block_run.br_snoc [OF _ bs_stop]

lemma startBlock_eq:
  "startBlock pub s = Publish pub EventTypeContentBlockStart
     (pl_BlockStart (kind_block (ts_kind s)) (ts_blockIndex s))"
  by (cases "ts_kind s") (simp_all add: startBlock_def send_defs)

lemma deltaBlock_eq:
  "deltaBlock pub s t = Publish pub EventTypeContentBlockDelta
     (pl_BlockDelta (kind_delta (ts_kind s)) (ts_blockIndex s) t)"
  by (cases "ts_kind s") (simp_all add: deltaBlock_def send_defs)

text \<open>Runs of a streamer: the chunks of a turn in order, stopping at the first error, then \<open>Close\<close>.\<close>

fun TextStreamer_writes ::
    "'w TextStreamer \<Rightarrow> string list \<Rightarrow> 'w \<Rightarrow> goerr option \<times> 'w TextStreamer \<times> 'w" where
  "TextStreamer_writes s [] w = (None, s, w)"
| "TextStreamer_writes s (c # cs) w =
     (case TextStreamer_Write s c w of
        (Some e, s', w') \<Rightarrow> (Some e, s', w')
      | (None, s', w') \<Rightarrow> TextStreamer_writes s' cs w')"

datatype ts_call = TSWrite string | TSClose

fun ts_apply :: "'w TextStreamer \<times> 'w \<Rightarrow> ts_call \<Rightarrow> 'w TextStreamer \<times> 'w" where
  "ts_apply (s, w) (TSWrite c) = snd (TextStreamer_Write s c w)"
| "ts_apply (s, w) TSClose = snd (TextStreamer_Close s w)"

fun written :: "ts_call list \<Rightarrow> string" where
  "written [] = []"
| "written (TSWrite c # cs) = c @ written cs"
| "written (TSClose # cs) = written cs"

context sink_contract
begin

text \<open>\<open>ts_ok i w0 (s, w)\<close>: what the streamer delivered since \<open>w0\<close> are well-formed blocks from \<open>i\<close>, ending in its own state.\<close>

definition ts_ok :: "streamerKind \<Rightarrow> int \<Rightarrow> event list \<Rightarrow> 'w TextStreamer \<times> 'w \<Rightarrow> bool" where
  "ts_ok k i old sw \<longleftrightarrow> inv (snd sw) \<and> ts_publisher (fst sw) = Some (NewPublisher emit)
     \<and> ts_kind (fst sw) = k
     \<and> (\<exists>es. delivered (snd sw) = old @ es
          \<and> block_run k es (i, False) (ts_blockIndex (fst sw), ts_blockStarted (fst sw)))"

lemma ts_ok_snoc:
  assumes "ts_ok k i old (s, w)" and "inv w'" and "delivered w' = delivered w @ [e]"
    and "block_step k e (ts_blockIndex s, ts_blockStarted s) (j, b)"
    and "ts_publisher s' = ts_publisher s" "ts_kind s' = ts_kind s" "ts_blockIndex s' = j" "ts_blockStarted s' = b"
  shows "ts_ok k i old (s', w')"
  using assms block_run.br_snoc by (fastforce simp: ts_ok_def)

lemma TextStreamer_delta_ok:
  assumes ok: "ts_ok k i old (s, w)" and "ts_blockStarted s"
  shows "ts_ok k i old (snd (TextStreamer_delta (NewPublisher emit) s c w))"
proof -
  let ?d = "pl_BlockDelta (kind_delta k) (ts_blockIndex s) c"
  from ok have w: "inv w" and k: "ts_kind s = k" by (auto simp: ts_ok_def)
  obtain r w' where P: "Publish (NewPublisher emit) EventTypeContentBlockDelta ?d w = (r, w')"
    by fastforce
  note res = Publish_result [OF w _ P, simplified]
  show ?thesis
  proof (cases r)
    case None
    have "ts_ok k i old (s, w')"
      using ts_ok_snoc [OF ok res(1) res(2) [OF None], of "ts_blockIndex s" True s]
        bs_delta [of k "ts_blockIndex s" c] assms(2)
      by (simp add: delta_event_def)
    with P k None show ?thesis by (simp add: TextStreamer_delta_def deltaBlock_eq)
  next
    case (Some x)
    with ok k P res show ?thesis by (simp add: TextStreamer_delta_def deltaBlock_eq ts_ok_def)
  qed
qed

lemma TextStreamer_Write_ok:
  assumes ok: "ts_ok k i old (s, w)"
  shows "ts_ok k i old (snd (TextStreamer_Write s c w))"
proof -
  let ?s = "s\<lparr>ts_message := ts_message s @ c\<rparr>"
  from ok have w: "inv w" and k: "ts_kind s = k" and p: "ts_publisher s = Some (NewPublisher emit)"
    and ok': "ts_ok k i old (?s, w)"
    by (auto simp: ts_ok_def)
  consider "c = []" | "c \<noteq> []" "ts_blockStarted s" | "c \<noteq> []" "\<not> ts_blockStarted s" by blast
  then show ?thesis
  proof cases
    case 1
    with ok show ?thesis by (simp add: TextStreamer_Write_def)
  next
    case 2
    with TextStreamer_delta_ok [OF ok', of c] p show ?thesis by (simp add: TextStreamer_Write_def)
  next
    case 3
    obtain r w' where P: "Publish (NewPublisher emit) EventTypeContentBlockStart
        (pl_BlockStart (kind_block k) (ts_blockIndex s)) w = (r, w')"
      by fastforce
    note res = Publish_result [OF w _ P, simplified]
    show ?thesis
    proof (cases r)
      case None
      have "ts_ok k i old (?s\<lparr>ts_blockStarted := True\<rparr>, w')"
        using ts_ok_snoc [OF ok' res(1) res(2) [OF None], of "ts_blockIndex s" True
            "?s\<lparr>ts_blockStarted := True\<rparr>"] 3 bs_start [of k "ts_blockIndex s"]
        by (simp add: start_event_def)
      from TextStreamer_delta_ok [OF this, of c] 3 p P None k show ?thesis
        by (simp add: TextStreamer_Write_def startBlock_eq)
    next
      case (Some x)
      with ok' 3 p k P res show ?thesis by (simp add: TextStreamer_Write_def startBlock_eq ts_ok_def)
    qed
  qed
qed

lemma TextStreamer_Close_ok:
  assumes ok: "ts_ok k i old (s, w)"
  shows "ts_ok k i old (snd (TextStreamer_Close s w))"
proof (cases "ts_blockStarted s")
  case False
  with ok show ?thesis by (simp add: TextStreamer_Close_def)
next
  case True
  from ok have w: "inv w" and p: "ts_publisher s = Some (NewPublisher emit)" by (auto simp: ts_ok_def)
  obtain r w' where P: "Publish (NewPublisher emit) EventTypeContentBlockStop
      (pl_BlockStop (ts_blockIndex s)) w = (r, w')"
    by fastforce
  note res = Publish_result [OF w _ P, simplified]
  show ?thesis
  proof (cases r)
    case None
    have "ts_ok k i old (s\<lparr>ts_blockStarted := False, ts_blockIndex := ts_blockIndex s + 1\<rparr>, w')"
      using ts_ok_snoc [OF ok res(1) res(2) [OF None], of "ts_blockIndex s + 1" False] True
        bs_stop [of k "ts_blockIndex s"]
      by (simp add: stop_event_def)
    with P p True None show ?thesis by (simp add: TextStreamer_Close_def send_defs)
  next
    case (Some x)
    with ok p True P res show ?thesis by (simp add: TextStreamer_Close_def send_defs ts_ok_def)
  qed
qed

lemma ts_calls_ok:
  "ts_ok k i old sw \<Longrightarrow> ts_ok k i old (foldl ts_apply sw cs)"
proof (induction cs arbitrary: sw)
  case (Cons c cs)
  obtain s w where "sw = (s, w)" by (cases sw) auto
  with Cons show ?case
    by (cases c) (auto intro!: Cons.IH TextStreamer_Write_ok TextStreamer_Close_ok)
qed simp

end

section \<open>A whole turn\<close>

text \<open>
  The events of one block with the given delta texts: none at all for no text. This is what a
  turn of a streamer amounts to.
\<close>

definition block_events :: "streamerKind \<Rightarrow> int \<Rightarrow> string list \<Rightarrow> event list" where
  "block_events k i ts =
     (if ts = [] then [] else start_event k i # map (delta_event k i) ts @ [stop_event i])"

definition TextStreamer_turn ::
    "'w TextStreamer \<Rightarrow> string list \<Rightarrow> 'w \<Rightarrow> goerr option \<times> 'w TextStreamer \<times> 'w" where
  "TextStreamer_turn s chunks w =
     (case TextStreamer_writes s chunks w of
        (Some e, s', w') \<Rightarrow> (Some e, s', w')
      | (None, s', w') \<Rightarrow> TextStreamer_Close s' w')"

text \<open>Complete lines and the unterminated rest of a text that continues \<open>buf\<close>.\<close>

fun lines_of :: "string \<Rightarrow> string \<Rightarrow> string list \<times> string" where
  "lines_of buf [] = ([], buf)"
| "lines_of buf (c # cs) =
     (if c = LF then (case lines_of [] cs of (ls, r) \<Rightarrow> (buf # ls, r)) else lines_of (buf @ [c]) cs)"

definition line_texts :: "(string \<Rightarrow> string) option \<Rightarrow> string list \<Rightarrow> string list" where
  "line_texts tr ls = map (\<lambda>l. line_chunk tr l True) ls"

fun LineStreamer_writes ::
    "'w LineStreamer \<Rightarrow> string list \<Rightarrow> 'w \<Rightarrow> goerr option \<times> 'w LineStreamer \<times> 'w" where
  "LineStreamer_writes s [] w = (None, s, w)"
| "LineStreamer_writes s (c # cs) w =
     (case LineStreamer_Write s c w of
        (Some e, s', w') \<Rightarrow> (Some e, s', w')
      | (None, s', w') \<Rightarrow> LineStreamer_writes s' cs w')"

definition LineStreamer_turn ::
    "'w LineStreamer \<Rightarrow> string list \<Rightarrow> 'w \<Rightarrow> goerr option \<times> 'w LineStreamer \<times> 'w" where
  "LineStreamer_turn s chunks w =
     (case LineStreamer_writes s chunks w of
        (Some e, s', w') \<Rightarrow> (Some e, s', w')
      | (None, s', w') \<Rightarrow> LineStreamer_Close s' w')"

text \<open>The delta texts of a line streamer's turn: one per complete line, one for an unterminated rest.\<close>

definition turn_texts :: "(string \<Rightarrow> string) option \<Rightarrow> string \<Rightarrow> string list" where
  "turn_texts tr input =
     (case lines_of [] input of (ls, r) \<Rightarrow>
        line_texts tr ls @ (if r = [] then [] else [line_chunk tr r False]))"

lemma lines_of_append:
  "lines_of buf (xs @ ys) =
    (case lines_of buf xs of (l1, b1) \<Rightarrow> (case lines_of b1 ys of (l2, b2) \<Rightarrow> (l1 @ l2, b2)))"
  by (induction buf xs rule: lines_of.induct) (auto split: prod.splits)

lemma lines_of_no_LF: "LF \<notin> set xs \<Longrightarrow> lines_of buf xs = ([], buf @ xs)"
  by (induction buf xs rule: lines_of.induct) auto

lemma lines_of_first_LF:
  assumes "LF \<in> set xs"
  shows "lines_of buf xs = (case lines_of [] (drop 1 (dropWhile (\<lambda>c. c \<noteq> LF) xs)) of
      (ls, r) \<Rightarrow> ((buf @ takeWhile (\<lambda>c. c \<noteq> LF) xs) # ls, r))"
  using assms by (induction buf xs rule: lines_of.induct) (auto split: prod.splits)

text \<open>The text a streamer has accumulated does not depend on the sink.\<close>

lemma TextStreamer_Write_message: "ts_message (fst (snd (TextStreamer_Write s c w))) = ts_message s @ c"
  by (auto simp: TextStreamer_Write_def TextStreamer_delta_def Let_def split: option.splits prod.splits)

lemma TextStreamer_Close_message: "ts_message (fst (snd (TextStreamer_Close s w))) = ts_message s"
  by (auto simp: TextStreamer_Close_def split: option.splits prod.splits)

lemma ts_apply_message: "ts_message (fst (ts_apply sw c)) = ts_message (fst sw) @ written [c]"
  by (cases sw; cases c) (simp_all add: TextStreamer_Write_message TextStreamer_Close_message)

context reliable_sink
begin

lemma Publish_ok:
  "\<lbrakk>inv w; marshals d\<rbrakk> \<Longrightarrow> \<exists>w'. Publish (NewPublisher emit) t d w = (None, w') \<and> inv w'
     \<and> delivered w' = delivered w @ [payload_event t d]"
  by (rule Publish_reliable) auto

lemma TextStreamer_Write_run:
  assumes "inv w" and "ts_publisher s = Some (NewPublisher emit)" and "c \<noteq> []"
  shows "\<exists>w'. TextStreamer_Write s c w
      = (None, s\<lparr>ts_message := ts_message s @ c, ts_blockStarted := True\<rparr>, w') \<and> inv w'
    \<and> delivered w' = delivered w
        @ (if ts_blockStarted s then [] else [start_event (ts_kind s) (ts_blockIndex s)])
        @ [delta_event (ts_kind s) (ts_blockIndex s) c]"
proof -
  let ?d = "pl_BlockDelta (kind_delta (ts_kind s)) (ts_blockIndex s) c"
  have delta: "\<exists>v'. Publish (NewPublisher emit) EventTypeContentBlockDelta ?d v = (None, v') \<and> inv v'
      \<and> delivered v' = delivered v @ [delta_event (ts_kind s) (ts_blockIndex s) c]" if "inv v" for v
    using Publish_ok [OF that, of ?d] by (simp add: delta_event_def)
  show ?thesis
  proof (cases "ts_blockStarted s")
    case True
    with delta [OF assms(1)] assms(2,3) show ?thesis
      by (auto simp: TextStreamer_Write_def TextStreamer_delta_def deltaBlock_eq)
  next
    case False
    obtain w1 where w1: "Publish (NewPublisher emit) EventTypeContentBlockStart
        (pl_BlockStart (kind_block (ts_kind s)) (ts_blockIndex s)) w = (None, w1)" "inv w1"
        "delivered w1 = delivered w @ [start_event (ts_kind s) (ts_blockIndex s)]"
      using Publish_ok [OF assms(1) marshals_pl(2)] unfolding start_event_def by blast
    with delta [OF w1(2)] False assms(2,3) show ?thesis
      by (auto simp: TextStreamer_Write_def TextStreamer_delta_def startBlock_eq deltaBlock_eq)
  qed
qed

lemma TextStreamer_writes_run:
  assumes "inv w" and "ts_publisher s = Some (NewPublisher emit)"
  shows "\<exists>w'. TextStreamer_writes s cs w
      = (None, s\<lparr>ts_message := ts_message s @ concat cs,
                 ts_blockStarted := ts_blockStarted s \<or> filter (\<lambda>c. c \<noteq> []) cs \<noteq> []\<rparr>, w') \<and> inv w'
    \<and> delivered w' = delivered w
        @ (if ts_blockStarted s \<or> filter (\<lambda>c. c \<noteq> []) cs = [] then []
           else [start_event (ts_kind s) (ts_blockIndex s)])
        @ map (delta_event (ts_kind s) (ts_blockIndex s)) (filter (\<lambda>c. c \<noteq> []) cs)"
  using assms
proof (induction cs arbitrary: s w)
  case Nil
  then show ?case by simp
next
  case (Cons c cs)
  show ?case
  proof (cases "c = []")
    case True
    with Cons.IH [OF Cons.prems] show ?thesis by (simp add: TextStreamer_Write_def)
  next
    case False
    from TextStreamer_Write_run [OF Cons.prems False] obtain w1 where w1:
      "TextStreamer_Write s c w = (None, s\<lparr>ts_message := ts_message s @ c, ts_blockStarted := True\<rparr>, w1)"
      "inv w1" "delivered w1 = delivered w
        @ (if ts_blockStarted s then [] else [start_event (ts_kind s) (ts_blockIndex s)])
        @ [delta_event (ts_kind s) (ts_blockIndex s) c]" by blast
    with Cons.IH [OF w1(2), of "s\<lparr>ts_message := ts_message s @ c, ts_blockStarted := True\<rparr>"]
      Cons.prems False show ?thesis by auto
  qed
qed

lemma TextStreamer_turn_run:
  fixes cs :: "string list" and i :: int
  assumes "inv w" and "s = NewTextStreamer (Some (NewPublisher emit)) i
      \<or> s = NewThinkingStreamer (Some (NewPublisher emit)) i"
  defines "ts \<equiv> filter (\<lambda>c. c \<noteq> []) cs"
  shows "\<exists>s' w'. TextStreamer_turn s cs w = (None, s', w') \<and> inv w'
    \<and> delivered w' = delivered w @ block_events (ts_kind s) i ts
    \<and> TextStreamer_BlockIndex s' = i + (if ts = [] then 0 else 1)
    \<and> \<not> TextStreamer_BlockStarted s' \<and> TextStreamer_Text s' = concat cs"
proof -
  from assms(2) have s: "ts_publisher s = Some (NewPublisher emit)" "ts_blockIndex s = i"
      "\<not> ts_blockStarted s" "ts_message s = []"
    by (auto simp: NewTextStreamer_def NewThinkingStreamer_def)
  let ?s = "s\<lparr>ts_message := ts_message s @ concat cs, ts_blockStarted := ts \<noteq> []\<rparr>"
  from TextStreamer_writes_run [OF assms(1) s(1), of cs] s obtain w1 where w1:
    "TextStreamer_writes s cs w = (None, ?s, w1)" "inv w1"
    "delivered w1 = delivered w @ (if ts = [] then [] else [start_event (ts_kind s) i])
        @ map (delta_event (ts_kind s) i) ts"
    unfolding ts_def by auto
  obtain w2 where w2: "Publish (NewPublisher emit) EventTypeContentBlockStop (pl_BlockStop i) w1 = (None, w2)"
    "inv w2" "delivered w2 = delivered w1 @ [stop_event i]"
    using Publish_ok [OF w1(2) marshals_pl(4)] unfolding stop_event_def by blast
  have "TextStreamer_turn s cs w = TextStreamer_Close ?s w1"
    by (simp add: TextStreamer_turn_def w1(1))
  with w1 w2 s show ?thesis
    by (cases "ts = []") (auto simp: TextStreamer_Close_def send_defs block_events_def
        TextStreamer_BlockIndex_def TextStreamer_BlockStarted_def TextStreamer_Text_def)
qed

lemma emitLine_run:
  fixes line :: string and nl :: bool
  assumes "inv w" and "ls_publisher s = Some (NewPublisher emit)"
  defines "c \<equiv> line_chunk (ls_transform s) line nl"
  shows "\<exists>w'. emitLine s line nl w
      = (None, s\<lparr>ls_output := ls_output s @ c, ls_blockStarted := True\<rparr>, w') \<and> inv w'
    \<and> delivered w' = delivered w
        @ (if ls_blockStarted s then [] else [start_event streamerText (ls_blockIndex s)])
        @ [delta_event streamerText (ls_blockIndex s) c]"
proof -
  have delta: "\<exists>v'. Publish (NewPublisher emit) EventTypeContentBlockDelta
        (pl_BlockDelta ContentBlockTypeTextDelta (ls_blockIndex s) c) v = (None, v') \<and> inv v'
      \<and> delivered v' = delivered v @ [delta_event streamerText (ls_blockIndex s) c]" if "inv v" for v
    using Publish_ok [OF that, of "pl_BlockDelta ContentBlockTypeTextDelta (ls_blockIndex s) c"]
    by (simp add: delta_event_def)
  show ?thesis
  proof (cases "ls_blockStarted s")
    case True
    with delta [OF assms(1)] assms(2) show ?thesis
      by (auto simp: emitLine_def LineStreamer_delta_def send_defs c_def)
  next
    case False
    obtain w1 where w1: "Publish (NewPublisher emit) EventTypeContentBlockStart
        (pl_BlockStart ContentBlockTypeText (ls_blockIndex s)) w = (None, w1)" "inv w1"
        "delivered w1 = delivered w @ [start_event streamerText (ls_blockIndex s)]"
      using Publish_ok [OF assms(1) marshals_pl(2)] unfolding start_event_def kind_block.simps by blast
    with delta [OF w1(2)] False assms(2) show ?thesis
      by (auto simp: emitLine_def LineStreamer_delta_def send_defs c_def)
  qed
qed

lemma LineStreamer_loop_run:
  assumes "inv w" and "ls_publisher s = Some (NewPublisher emit)"
    and "lines_of (ls_lineBuffer s) rest = (ls, r)"
  shows "\<exists>w'. LineStreamer_loop s rest w
      = (None, s\<lparr>ls_lineBuffer := r,
                 ls_output := ls_output s @ concat (line_texts (ls_transform s) ls),
                 ls_blockStarted := ls_blockStarted s \<or> ls \<noteq> []\<rparr>, w') \<and> inv w'
    \<and> delivered w' = delivered w
        @ (if ls_blockStarted s \<or> ls = [] then [] else [start_event streamerText (ls_blockIndex s)])
        @ map (delta_event streamerText (ls_blockIndex s)) (line_texts (ls_transform s) ls)"
  using assms
proof (induction s rest w arbitrary: ls rule: LineStreamer_loop.induct)
  case (1 s rest w)
  show ?case
  proof (cases "LF \<in> set rest")
    case False
    with "1.prems" show ?thesis
      by (simp add: LineStreamer_loop.simps [of s rest w] lines_of_no_LF line_texts_def)
  next
    case True
    let ?line = "ls_lineBuffer s @ takeWhile (\<lambda>c. c \<noteq> LF) rest"
    let ?rest = "drop 1 (dropWhile (\<lambda>c. c \<noteq> LF) rest)"
    let ?s = "s\<lparr>ls_lineBuffer := []\<rparr>"
    let ?c = "line_chunk (ls_transform s) ?line True"
    let ?s1 = "?s\<lparr>ls_output := ls_output ?s @ ?c, ls_blockStarted := True\<rparr>"
    obtain ls' where ls': "lines_of [] ?rest = (ls', r)" "ls = ?line # ls'"
      using "1.prems"(3) lines_of_first_LF [OF True] by (auto split: prod.splits)
    obtain w1 where w1: "emitLine ?s ?line True w = (None, ?s1, w1)" "inv w1"
      "delivered w1 = delivered w
        @ (if ls_blockStarted s then [] else [start_event streamerText (ls_blockIndex s)])
        @ [delta_event streamerText (ls_blockIndex s) ?c]"
      using emitLine_run [OF "1.prems"(1), of ?s ?line True] "1.prems"(2) by auto
    have "\<exists>w'. LineStreamer_loop ?s1 ?rest w1
      = (None, ?s1\<lparr>ls_lineBuffer := r,
                 ls_output := ls_output ?s1 @ concat (line_texts (ls_transform ?s1) ls'),
                 ls_blockStarted := ls_blockStarted ?s1 \<or> ls' \<noteq> []\<rparr>, w') \<and> inv w'
      \<and> delivered w' = delivered w1
        @ (if ls_blockStarted ?s1 \<or> ls' = [] then [] else [start_event streamerText (ls_blockIndex ?s1)])
        @ map (delta_event streamerText (ls_blockIndex ?s1)) (line_texts (ls_transform ?s1) ls')"
      by (rule "1.IH") (use True w1 ls' "1.prems" in auto)
    then obtain w2 where "LineStreamer_loop ?s1 ?rest w1
      = (None, ?s1\<lparr>ls_lineBuffer := r,
                 ls_output := ls_output ?s1 @ concat (line_texts (ls_transform ?s1) ls'),
                 ls_blockStarted := ls_blockStarted ?s1 \<or> ls' \<noteq> []\<rparr>, w2)" "inv w2"
      "delivered w2 = delivered w1
        @ map (delta_event streamerText (ls_blockIndex s)) (line_texts (ls_transform s) ls')"
      by auto
    with True w1 ls'(2) show ?thesis
      by (simp add: LineStreamer_loop.simps [of s rest w] line_texts_def)
  qed
qed

lemma LineStreamer_writes_run:
  assumes "inv w" and "ls_publisher s = Some (NewPublisher emit)"
    and "lines_of (ls_lineBuffer s) (concat cs) = (ls, r)"
  shows "\<exists>w'. LineStreamer_writes s cs w
      = (None, s\<lparr>ls_lineBuffer := r,
                 ls_output := ls_output s @ concat (line_texts (ls_transform s) ls),
                 ls_blockStarted := ls_blockStarted s \<or> ls \<noteq> []\<rparr>, w') \<and> inv w'
    \<and> delivered w' = delivered w
        @ (if ls_blockStarted s \<or> ls = [] then [] else [start_event streamerText (ls_blockIndex s)])
        @ map (delta_event streamerText (ls_blockIndex s)) (line_texts (ls_transform s) ls)"
  using assms
proof (induction cs arbitrary: s w ls)
  case Nil
  then show ?case by (simp add: line_texts_def)
next
  case (Cons c cs)
  obtain l1 b1 where l1: "lines_of (ls_lineBuffer s) c = (l1, b1)" by fastforce
  obtain l2 where l2: "lines_of b1 (concat cs) = (l2, r)" and ls: "ls = l1 @ l2"
    using Cons.prems(3) l1 by (auto simp: lines_of_append split: prod.splits)
  let ?s1 = "s\<lparr>ls_lineBuffer := b1, ls_output := ls_output s @ concat (line_texts (ls_transform s) l1),
    ls_blockStarted := ls_blockStarted s \<or> l1 \<noteq> []\<rparr>"
  obtain w1 where w1: "LineStreamer_Write s c w = (None, ?s1, w1)" "inv w1"
    "delivered w1 = delivered w
        @ (if ls_blockStarted s \<or> l1 = [] then [] else [start_event streamerText (ls_blockIndex s)])
        @ map (delta_event streamerText (ls_blockIndex s)) (line_texts (ls_transform s) l1)"
  proof (cases "c = []")
    case True
    with l1 Cons.prems(1) that [of w] show ?thesis by (simp add: LineStreamer_Write_def line_texts_def)
  next
    case False
    with LineStreamer_loop_run [OF Cons.prems(1,2) l1] that show ?thesis
      by (auto simp: LineStreamer_Write_def)
  qed
  from Cons.IH [OF w1(2), of ?s1 l2] Cons.prems(2) l2 obtain w2 where
    "LineStreamer_writes ?s1 cs w1 = (None, ?s1\<lparr>ls_lineBuffer := r,
        ls_output := ls_output ?s1 @ concat (line_texts (ls_transform ?s1) l2),
        ls_blockStarted := ls_blockStarted ?s1 \<or> l2 \<noteq> []\<rparr>, w2)" "inv w2"
    "delivered w2 = delivered w1
        @ (if ls_blockStarted ?s1 \<or> l2 = [] then [] else [start_event streamerText (ls_blockIndex s)])
        @ map (delta_event streamerText (ls_blockIndex s)) (line_texts (ls_transform s) l2)"
    by auto
  with w1 ls show ?case by (auto simp: line_texts_def)
qed

lemma LineStreamer_stop_run:
  assumes "inv w" and "ls_publisher s = Some (NewPublisher emit)" and "ls_blockStarted s"
  shows "\<exists>w'. LineStreamer_stop s w
      = (None, s\<lparr>ls_blockStarted := False, ls_blockIndex := ls_blockIndex s + 1\<rparr>, w') \<and> inv w'
    \<and> delivered w' = delivered w @ [stop_event (ls_blockIndex s)]"
  using Publish_ok [OF assms(1), of "pl_BlockStop (ls_blockIndex s)" EventTypeContentBlockStop] assms(2,3)
  by (auto simp: LineStreamer_stop_def send_defs stop_event_def)

lemma LineStreamer_turn_run:
  fixes cs :: "string list" and i :: int and tr :: "(string \<Rightarrow> string) option"
  assumes "inv w"
  defines "s \<equiv> NewLineStreamer (Some (NewPublisher emit)) i tr"
  defines "ts \<equiv> turn_texts tr (concat cs)"
  shows "\<exists>s' w'. LineStreamer_turn s cs w = (None, s', w') \<and> inv w'
    \<and> delivered w' = delivered w @ block_events streamerText i ts
    \<and> LineStreamer_BlockIndex s' = i + (if ts = [] then 0 else 1)
    \<and> \<not> LineStreamer_BlockStarted s' \<and> LineStreamer_Text s' = concat ts"
proof -
  have s: "ls_publisher s = Some (NewPublisher emit)" "ls_blockIndex s = i" "\<not> ls_blockStarted s"
      "ls_output s = []" "ls_lineBuffer s = []" "ls_transform s = tr"
    by (auto simp: s_def NewLineStreamer_def)
  obtain ls r where lr: "lines_of [] (concat cs) = (ls, r)" by fastforce
  let ?out = "concat (line_texts tr ls)"
  let ?s1 = "s\<lparr>ls_lineBuffer := r, ls_output := ?out, ls_blockStarted := ls \<noteq> []\<rparr>"
  obtain w1 where w1: "LineStreamer_writes s cs w = (None, ?s1, w1)" "inv w1"
    "delivered w1 = delivered w @ (if ls = [] then [] else [start_event streamerText i])
        @ map (delta_event streamerText i) (line_texts tr ls)"
    using LineStreamer_writes_run [OF assms(1) s(1), of cs ls r] s lr by auto
  have turn: "LineStreamer_turn s cs w = LineStreamer_Close ?s1 w1"
    by (simp add: LineStreamer_turn_def w1(1))
  show ?thesis
  proof (cases "r = []")
    case True
    have ts: "ts = line_texts tr ls" by (simp add: ts_def turn_texts_def lr True)
    show ?thesis
    proof (cases "ls = []")
      case True
      with turn \<open>r = []\<close> w1 s ts show ?thesis
        by (simp add: LineStreamer_Close_def LineStreamer_stop_def block_events_def line_texts_def
            LineStreamer_BlockIndex_def LineStreamer_BlockStarted_def LineStreamer_Text_def)
    next
      case False
      with LineStreamer_stop_run [OF w1(2), of ?s1] turn \<open>r = []\<close> w1 s ts show ?thesis
        by (auto simp: LineStreamer_Close_def block_events_def line_texts_def
            LineStreamer_BlockIndex_def LineStreamer_BlockStarted_def LineStreamer_Text_def)
    qed
  next
    case False
    let ?c = "line_chunk tr r False"
    have ts: "ts = line_texts tr ls @ [?c]" by (simp add: ts_def turn_texts_def lr False)
    let ?s2 = "?s1\<lparr>ls_output := ?out @ ?c, ls_blockStarted := True\<rparr>"
    obtain w2 where w2: "emitLine ?s1 r False w1 = (None, ?s2, w2)" "inv w2"
      "delivered w2 = delivered w1 @ (if ls \<noteq> [] then [] else [start_event streamerText i])
         @ [delta_event streamerText i ?c]"
      using emitLine_run [OF w1(2), of ?s1 r False] s by auto
    with LineStreamer_stop_run [OF w2(2), of "?s2\<lparr>ls_lineBuffer := []\<rparr>"] turn False w1 s ts
    show ?thesis
      by (auto simp: LineStreamer_Close_def block_events_def line_texts_def
          LineStreamer_BlockIndex_def LineStreamer_BlockStarted_def LineStreamer_Text_def)
  qed
qed

end

section \<open>What the streamers promise\<close>

lemma ts_fold_message: "ts_message (fst (foldl ts_apply sw cs)) = ts_message (fst sw) @ written cs"
proof (induction cs arbitrary: sw)
  case (Cons c cs)
  from Cons.IH [of "ts_apply sw c"] show ?case by (cases c) (simp_all add: ts_apply_message)
qed simp

inductive_cases block_step_cases [elim!]: "block_step k e q r"

text \<open>The machine is deterministic on indices: a run fixes the next index by its stops.\<close>

lemma block_run_index:
  "block_run k es q r \<Longrightarrow> fst r = fst q + int (length (filter (\<lambda>e. ev_Event e = EventTypeContentBlockStop) es))"
proof (induction rule: block_run.induct)
  case (br_snoc es q r e r')
  then show ?case
    by (auto simp: start_event_def delta_event_def stop_event_def payload_event_def wire_consts)
qed simp

text \<open>
  C9. Whatever a sink refuses, and in whatever order \<open>Write\<close> and \<open>Close\<close> are called and
  retried, the events a \<open>TextStreamer\<close> got through are complete, well-formed blocks with
  consecutive indices: every start is for a closed state, every delta and stop for the open
  block with its index, and the last block is open exactly when \<open>BlockStarted\<close> says so, with
  the index \<open>BlockIndex\<close> reports, which is the start index plus the number of stops
  that got through.
\<close>

theorem textstreamer_blocks_well_formed:
  assumes "sink_contract emit delivered ok" and "ok w" and "delivered w = old"
    and "s = NewTextStreamer (Some (NewPublisher emit)) i
      \<or> s = NewThinkingStreamer (Some (NewPublisher emit)) i"
    and "foldl ts_apply (s, w) cs = (s', w')"
  shows "\<exists>es. delivered w' = old @ es
    \<and> block_run (ts_kind s) es (i, False) (TextStreamer_BlockIndex s', TextStreamer_BlockStarted s')
    \<and> TextStreamer_BlockIndex s' = i + int (length (filter (\<lambda>e. ev_Event e = EventTypeContentBlockStop) es))"
proof -
  have "sink_contract.ts_ok emit delivered ok (ts_kind s) i old (s, w)"
    using assms(2,3,4) block_run.br_nil
    by (auto simp: sink_contract.ts_ok_def [OF assms(1)] NewTextStreamer_def NewThinkingStreamer_def)
  from sink_contract.ts_calls_ok [OF assms(1) this, of cs] assms(5) show ?thesis
    using block_run_index [of "ts_kind s" _ "(i, False)"]
    by (fastforce simp: sink_contract.ts_ok_def [OF assms(1)] TextStreamer_BlockIndex_def
        TextStreamer_BlockStarted_def)
qed

text \<open>A sink that refuses one event, the one its counter names, and accepts every other.\<close>

definition flaky_emit :: "(nat \<times> event list) sink" where
  "flaky_emit ev w = (case w of (n, evs) \<Rightarrow>
     if n = 1 then (Some (ErrOther ''broken pipe''), (0, evs))
     else (None, (n - 1, evs @ [ev])))"

interpretation flaky: sink_contract flaky_emit snd "\<lambda>_. True"
  by unfold_locales (auto simp: flaky_emit_def split: prod.splits if_splits)

theorem textstreamer_blocks_well_formed_witness:
  "\<exists>es s' w'. foldl ts_apply (NewTextStreamer (Some (NewPublisher flaky_emit)) 4, (2, []))
        [TSWrite ''Hi'', TSClose, TSWrite ''yo''] = (s', w') \<and> snd w' = [] @ es
    \<and> block_run streamerText es (4, False) (TextStreamer_BlockIndex s', TextStreamer_BlockStarted s')"
proof -
  obtain s' w' where "foldl ts_apply (NewTextStreamer (Some (NewPublisher flaky_emit)) 4, (2, []))
        [TSWrite ''Hi'', TSClose, TSWrite ''yo''] = (s', w')"
    by (rule prod.exhaust)
  from textstreamer_blocks_well_formed [OF flaky.sink_contract_axioms TrueI _ disjI1 [OF refl] this]
    this
  show ?thesis by (auto simp: NewTextStreamer_def)
qed

text \<open>
  C26. \<open>Text()\<close> is the concatenation of every chunk written, whatever the sink refused and
  however often \<open>Close\<close> was called, with a publisher or without one.
\<close>

theorem textstreamer_text_keeps_every_chunk:
  "TextStreamer_Text (fst (foldl ts_apply (NewTextStreamer p i, w) cs)) = written cs
   \<and> TextStreamer_Text (fst (foldl ts_apply (NewThinkingStreamer p i, w) cs)) = written cs"
  by (simp add: TextStreamer_Text_def ts_fold_message NewTextStreamer_def NewThinkingStreamer_def)

text \<open>
  C25. On a sink that accepts everything, a turn (\<open>Write\<close> for every chunk, then \<open>Close\<close>) emits
  one start, one delta per non-empty chunk and one stop, nothing at all when every chunk is
  empty, and leaves the next block index behind, advanced only when a block was opened.
\<close>

theorem textstreamer_turn_is_one_block:
  assumes "reliable_sink emit delivered ok" and "ok w"
    and "s = NewTextStreamer (Some (NewPublisher emit)) i
      \<or> s = NewThinkingStreamer (Some (NewPublisher emit)) i"
  shows "\<exists>s' w'. TextStreamer_turn s cs w = (None, s', w')
    \<and> delivered w' = delivered w @ block_events (ts_kind s) i (filter (\<lambda>c. c \<noteq> []) cs)
    \<and> TextStreamer_BlockIndex s' = i + (if filter (\<lambda>c. c \<noteq> []) cs = [] then 0 else 1)
    \<and> \<not> TextStreamer_BlockStarted s' \<and> TextStreamer_Text s' = concat cs"
  using reliable_sink.TextStreamer_turn_run [OF assms] by blast

theorem textstreamer_turn_is_one_block_witness:
  "\<exists>s' w'. TextStreamer_turn (NewThinkingStreamer (Some (NewPublisher InMemorySink_Emit)) 0)
        [''a'', [], ''b''] NewInMemorySink = (None, s', w')
    \<and> InMemorySink_Events w' = block_events streamerThinking 0 [''a'', ''b'']
    \<and> TextStreamer_BlockIndex s' = 1"
  using textstreamer_turn_is_one_block [OF ims.reliable_sink_axioms TrueI disjI2 [OF refl],
      where w = NewInMemorySink and i = 0 and cs = "[''a'', [], ''b'']"]
  by (auto simp: NewThinkingStreamer_def InMemorySink_Events_def NewInMemorySink_def)

text \<open>
  C10. A turn of a \<open>LineStreamer\<close> does not depend on how its input was cut into chunks: it
  emits one block with one delta per complete line, the transform applied to the line and the
  line feed added back, and one for an unterminated last line; \<open>Text()\<close> is what was emitted.
\<close>

theorem linestreamer_turn_by_lines:
  assumes "reliable_sink emit delivered ok" and "ok w"
  shows "\<exists>s' w'. LineStreamer_turn (NewLineStreamer (Some (NewPublisher emit)) i tr) cs w = (None, s', w')
    \<and> delivered w' = delivered w @ block_events streamerText i (turn_texts tr (concat cs))
    \<and> LineStreamer_BlockIndex s' = i + (if turn_texts tr (concat cs) = [] then 0 else 1)
    \<and> \<not> LineStreamer_BlockStarted s' \<and> LineStreamer_Text s' = concat (turn_texts tr (concat cs))"
  using reliable_sink.LineStreamer_turn_run [OF assms] by blast

theorem linestreamer_turn_by_lines_witness:
  "\<exists>s' w'. LineStreamer_turn (NewLineStreamer (Some (NewPublisher InMemorySink_Emit)) 0 (Some rev))
        [''ab'', [CHR ''c'', LF], ''d''] NewInMemorySink = (None, s', w')
    \<and> InMemorySink_Events w' = block_events streamerText 0 [[CHR ''c'', CHR ''b'', CHR ''a'', LF], ''d'']"
  using linestreamer_turn_by_lines [OF ims.reliable_sink_axioms TrueI,
      where w = NewInMemorySink and i = 0 and cs = "[''ab'', [CHR ''c'', LF], ''d'']" and tr = "Some rev"]
  by (auto simp: turn_texts_def line_texts_def line_chunk_def InMemorySink_Events_def NewInMemorySink_def)

lemma lines_of_join:
  "lines_of buf xs = (ls, r) \<Longrightarrow> concat (map (\<lambda>l. l @ [LF]) ls) @ r = buf @ xs"
  by (induction buf xs arbitrary: ls r rule: lines_of.induct) (auto split: prod.splits if_splits)

text \<open>
  With no transform the text a \<open>LineStreamer\<close> emits is its input, byte for byte.
\<close>

lemma linestreamer_identity: "concat (turn_texts None input) = input"
proof -
  obtain ls r where "lines_of [] input = (ls, r)" by fastforce
  with lines_of_join [OF this] show ?thesis
    by (cases "r = []") (simp_all add: turn_texts_def line_texts_def line_chunk_def)
qed

context sink_contract
begin

text \<open>What \<open>emitLine\<close> leaves behind and delivers, whether it fails or not.\<close>

lemma emitLine_result:
  fixes s :: "'w LineStreamer"
  assumes "inv w" and "ls_publisher s = Some (NewPublisher emit)" and "emitLine s l nl w = (r, s', w')"
  defines "c \<equiv> line_chunk (ls_transform s) l nl"
  shows "inv w' \<and> s' = s\<lparr>ls_output := ls_output s @ c, ls_blockStarted := ls_blockStarted s'\<rparr>
    \<and> (ls_blockStarted s \<or> r = None \<longrightarrow> ls_blockStarted s')
    \<and> delivered w' = delivered w
        @ (if ls_blockStarted s' \<and> \<not> ls_blockStarted s then [start_event streamerText (ls_blockIndex s)] else [])
        @ (if r = None then [delta_event streamerText (ls_blockIndex s) c] else [])"
proof -
  let ?i = "ls_blockIndex s" and ?s1 = "s\<lparr>ls_output := ls_output s @ c\<rparr>"
  have delta: "inv v' \<and> t' = t \<and> delivered v' = delivered v @ (if q = None then [delta_event streamerText ?i c] else [])"
    if d: "inv v" "LineStreamer_delta (NewPublisher emit) t c v = (q, t', v')" "ls_blockIndex t = ?i" for t v q t' v'
  proof -
    obtain q0 where "Publish (NewPublisher emit) EventTypeContentBlockDelta (pl_BlockDelta ContentBlockTypeTextDelta ?i c) v = (q0, v')"
        "q0 = None \<longleftrightarrow> q = None" "t' = t"
      using d(2,3) by (auto simp: LineStreamer_delta_def send_defs split: prod.splits option.splits)
    with Publish_result [OF d(1) marshals_pl(3) this(1)] show ?thesis by (auto simp: delta_event_def)
  qed
  show ?thesis
  proof (cases "ls_blockStarted s")
    case True
    with assms(2,3) have "LineStreamer_delta (NewPublisher emit) ?s1 c w = (r, s', w')"
      by (simp add: emitLine_def c_def Let_def)
    from delta [OF assms(1) this] True show ?thesis by simp
  next
    case False
    obtain q v where st: "Publish (NewPublisher emit) EventTypeContentBlockStart
        (pl_BlockStart ContentBlockTypeText ?i) w = (q, v)" by fastforce
    note res = Publish_result [OF assms(1) marshals_pl(2) st]
    show ?thesis
    proof (cases q)
      case None
      let ?s2 = "?s1\<lparr>ls_blockStarted := True\<rparr>"
      have d: "LineStreamer_delta (NewPublisher emit) ?s2 c v = (r, s', w')"
        using assms(2,3) False st None by (simp add: emitLine_def c_def send_defs Let_def)
      from delta [OF res(1) d] res(2) [OF None] False show ?thesis by (simp add: start_event_def)
    next
      case (Some x)
      with assms(2,3) False st have "s' = ?s1" "w' = v" "r \<noteq> None"
        by (auto simp: emitLine_def c_def send_defs Let_def)
      with res(1) res(3) Some False show ?thesis by simp
    qed
  qed
qed

lemma close_retry:
  fixes s :: "'w LineStreamer"
  assumes "inv w" and "ls_publisher s = Some (NewPublisher emit)" and "ls_lineBuffer s \<noteq> []"
    and "LineStreamer_Close s w = (Some (Wrapped e ''flush trailing line''), s1, w1)"
    and "LineStreamer_Close s1 w1 = (None, s2, w2)"
  defines "c \<equiv> line_chunk (ls_transform s) (ls_lineBuffer s) False"
  shows "LineStreamer_Text s2 = LineStreamer_Text s @ c @ c
    \<and> delivered w2 = delivered w
        @ (if ls_blockStarted s then [] else [start_event streamerText (ls_blockIndex s)])
        @ [delta_event streamerText (ls_blockIndex s) c, stop_event (ls_blockIndex s)]"
proof -
  let ?l = "ls_lineBuffer s"
  have stop: "Some (Wrapped e ''flush trailing line'') \<noteq> fst (LineStreamer_stop t v)" for t and v :: 'w
    by (auto simp: LineStreamer_stop_def split: option.split prod.split)
  obtain r t v where 1: "emitLine s ?l False w = (r, t, v)" by (metis prod_cases3)
  have e: "emitLine s ?l False w = (Some e, s1, w1)"
  proof (cases r)
    case None
    with assms(3,4) 1 have "LineStreamer_stop (t\<lparr>ls_lineBuffer := []\<rparr>) v = (Some (Wrapped e ''flush trailing line''), s1, w1)"
      by (simp add: LineStreamer_Close_def)
    with stop [of "t\<lparr>ls_lineBuffer := []\<rparr>" v] show ?thesis by simp
  next
    case (Some x)
    with assms(3,4) 1 show ?thesis by (simp add: LineStreamer_Close_def)
  qed
  note r1 = emitLine_result [OF assms(1,2) e]
  obtain b where s1e: "s1 = s\<lparr>ls_output := ls_output s @ c, ls_blockStarted := b\<rparr>" and b: "ls_blockStarted s \<longrightarrow> b"
    using r1 by (auto simp: c_def)
  have s1: "ls_publisher s1 = Some (NewPublisher emit)" "ls_lineBuffer s1 = ?l"
    using assms(2) by (simp_all add: s1e)
  obtain r' t' v' where e2: "emitLine s1 ?l False w1 = (r', t', v')" by (metis prod_cases3)
  with assms(3,5) s1 have "r' = None" by (auto simp: LineStreamer_Close_def split: option.splits)
  with assms(3,5) s1 e2 have cl: "LineStreamer_stop (t'\<lparr>ls_lineBuffer := []\<rparr>) v' = (None, s2, w2)"
    by (simp add: LineStreamer_Close_def)
  note r2 = emitLine_result [OF conjunct1 [OF r1] s1(1) e2, unfolded \<open>r' = None\<close>]
  show ?thesis
  proof -
    have t': "t' = s\<lparr>ls_output := ls_output s @ c @ c, ls_blockStarted := True\<rparr>" "inv v'"
      and dv: "delivered v' = delivered w1 @ (if b then [] else [start_event streamerText (ls_blockIndex s)])
        @ [delta_event streamerText (ls_blockIndex s) c]"
      using r2 by (auto simp: s1e c_def)
    have q: "Publish (NewPublisher emit) EventTypeContentBlockStop (pl_BlockStop (ls_blockIndex s)) v' = (None, w2)"
      "ls_output s2 = ls_output s @ c @ c"
      using cl assms(2) by (auto simp: LineStreamer_stop_def t'(1) send_defs split: prod.splits option.splits)
    note st = Publish_result(2) [OF t'(2) marshals_pl(4) q(1) refl]
    show ?thesis
      using st dv r1 q(2) by (cases b) (auto simp: s1e LineStreamer_Text_def stop_event_def)
  qed
qed

end

text \<open>
  C36. \<open>Close\<close> keeps the trailing line in the buffer when emitting it fails, although
  \<open>emitLine\<close> has already appended it to the accumulated output: whatever the streamer, its
  transform and the sink, a \<open>Close\<close> that is retried after its flush failed, and succeeds, leaves
  the line in \<open>Text()\<close> twice, while the stream carries it once.
\<close>

theorem linestreamer_close_retry_duplicates:
  fixes s :: "'w LineStreamer"
  assumes "sink_contract emit delivered ok" and "ok w"
    and "ls_publisher s = Some (NewPublisher emit)" and "ls_lineBuffer s \<noteq> []"
    and "LineStreamer_Close s w = (Some (Wrapped e ''flush trailing line''), s1, w1)"
    and "LineStreamer_Close s1 w1 = (None, s2, w2)"
  defines "c \<equiv> line_chunk (ls_transform s) (ls_lineBuffer s) False"
  shows "LineStreamer_Text s2 = LineStreamer_Text s @ c @ c
    \<and> delivered w2 = delivered w
        @ (if ls_blockStarted s then [] else [start_event streamerText (ls_blockIndex s)])
        @ [delta_event streamerText (ls_blockIndex s) c, stop_event (ls_blockIndex s)]"
  using sink_contract.close_retry [OF assms(1-6)] by (simp add: c_def)

theorem linestreamer_close_retry_duplicates_witness:
  "\<exists>e s1 w1 s2 w2.
     LineStreamer_Close (NewLineStreamer (Some (NewPublisher flaky_emit)) 0 (Some rev)\<lparr>ls_lineBuffer := ''tail''\<rparr>) (2, [])
       = (Some e, s1, w1)
   \<and> LineStreamer_Close s1 w1 = (None, s2, w2)
   \<and> LineStreamer_Text s2 = ''liatliat'' \<and> snd w2 = block_events streamerText 0 [''liat'']"
proof -
  let ?s = "NewLineStreamer (Some (NewPublisher flaky_emit)) 0 (Some rev)\<lparr>ls_lineBuffer := ''tail''\<rparr>"
  obtain e s1 w1 where 1: "LineStreamer_Close ?s (2, []) = (Some (Wrapped e ''flush trailing line''), s1, w1)"
    and 2: "\<exists>s2 w2. LineStreamer_Close s1 w1 = (None, s2, w2)"
    by (simp add: NewLineStreamer_def LineStreamer_Close_def emitLine_def LineStreamer_delta_def
        LineStreamer_stop_def line_chunk_def send_defs Publish_eq flaky_emit_def Let_def)
  then obtain s2 w2 where "LineStreamer_Close s1 w1 = (None, s2, w2)" by blast
  with linestreamer_close_retry_duplicates [OF flaky.sink_contract_axioms TrueI _ _ 1 this] 1 show ?thesis
    by (cases w2) (auto simp: NewLineStreamer_def LineStreamer_Text_def line_chunk_def block_events_def)
qed

end
