(* ===== verification/Store.thy ===== *)
theory Store
  imports Streamer "HOL-Library.Signed_Division" "HOL-Library.Monad_Syntax"
begin

text \<open>
  \<open>store.go\<close>: the bounded per-stream store a reconnecting client resumes from. Each stream has
  a ring buffer and an index from event id to sequence number. A Go panic (an index out of
  range, a remainder by zero) is the value \<open>None\<close>; \<open>store_refines\<close> shows that none can
  happen. Sequence numbers are \<open>int\<close>: the code's \<open>int64\<close> counter wraps only after
  \<open>2 ^ 63\<close> appends to one stream. The methods run under the store's mutex, so each is one
  step on the store.

  The interface \<open>EventStore\<close> is the locale \<open>event_store\<close>: a stream is the list of its last
  \<open>capacity\<close> events, and resuming after an id answers with what follows the last event with
  that id.
\<close>

section \<open>The ring buffer of a stream\<close>

record storedEvent =
  se_seq :: int
  se_ev :: event

record streamBuffer =
  sb_ring :: "storedEvent list"
  sb_head :: int
  sb_count :: int
  sb_next :: int
  sb_index :: "string \<rightharpoonup> int"

definition zero_event :: event where
  "zero_event = \<lparr>ev_ID = [], ev_Event = [], ev_Data = []\<rparr>"

definition new_buffer :: "int \<Rightarrow> streamBuffer" where
  "new_buffer capacity = \<lparr>sb_ring = replicate (nat capacity) \<lparr>se_seq = 0, se_ev = zero_event\<rparr>,
     sb_head = 0, sb_count = 0, sb_next = 0, sb_index = Map.empty\<rparr>"

text \<open>Go's \<open>xs[i]\<close> and \<open>a % b\<close>.\<close>

definition ring_get :: "'a list \<Rightarrow> int \<Rightarrow> 'a option" where
  "ring_get xs i = (if 0 \<le> i \<and> i < int (length xs) then Some (xs ! nat i) else None)"

definition go_rem :: "int \<Rightarrow> int \<Rightarrow> int option" where
  "go_rem a b = (if b = 0 then None else Some (a smod b))"

definition evict :: "streamBuffer \<Rightarrow> storedEvent \<Rightarrow> streamBuffer" where
  "evict b outgoing =
     (if ev_ID (se_ev outgoing) = [] then b
      else case sb_index b (ev_ID (se_ev outgoing)) of
          None \<Rightarrow> b
        | Some indexed \<Rightarrow>
            (if indexed = se_seq outgoing
             then b\<lparr>sb_index := (sb_index b)(ev_ID (se_ev outgoing) := None)\<rparr> else b))"

definition buffer_append :: "streamBuffer \<Rightarrow> event \<Rightarrow> streamBuffer option" where
  "buffer_append b ev = do {
     let sq = sb_next b;
     let b1 = b\<lparr>sb_next := sb_next b + 1\<rparr>;
     let len = int (length (sb_ring b));
     slot \<leftarrow> ring_get (sb_ring b) (sb_head b);
     let b2 = (if sb_count b1 = len then evict b1 slot else b1);
     head \<leftarrow> go_rem (sb_head b2 + 1) len;
     let b3 = b2\<lparr>sb_ring := (sb_ring b2)[nat (sb_head b2) := \<lparr>se_seq = sq, se_ev = ev\<rparr>],
                 sb_head := head,
                 sb_count := (if sb_count b2 < len then sb_count b2 + 1 else sb_count b2)\<rparr>;
     Some (if ev_ID ev \<noteq> [] then b3\<lparr>sb_index := (sb_index b3)(ev_ID ev \<mapsto> sq)\<rparr> else b3)
   }"

fun since_loop :: "streamBuffer \<Rightarrow> int \<Rightarrow> int \<Rightarrow> nat list \<Rightarrow> event list option" where
  "since_loop b oldest sq [] = Some []"
| "since_loop b oldest sq (i # is) = do {
     j \<leftarrow> go_rem (oldest + int i) (int (length (sb_ring b)));
     stored \<leftarrow> ring_get (sb_ring b) j;
     rest \<leftarrow> since_loop b oldest sq is;
     Some (if se_seq stored \<le> sq then rest else se_ev stored # rest)
   }"

definition buffer_since :: "streamBuffer \<Rightarrow> string \<Rightarrow> (event list \<times> bool) option" where
  "buffer_since b lastEventID =
     (case sb_index b lastEventID of
        None \<Rightarrow> Some ([], False)
      | Some sq \<Rightarrow> do {
          let len = int (length (sb_ring b));
          oldest \<leftarrow> go_rem (sb_head b - sb_count b + len) len;
          events \<leftarrow> since_loop b oldest sq [0..<nat (sb_count b)];
          Some (events, True)
        })"

section \<open>InMemoryEventStore\<close>

record InMemoryEventStore =
  st_capacity :: int
  st_streams :: "string \<rightharpoonup> streamBuffer"

definition NewInMemoryEventStore :: "int \<Rightarrow> goerr + InMemoryEventStore" where
  "NewInMemoryEventStore capacity =
     (if capacity \<le> 0
      then Inl (Wrapped ErrInvalidCapacity (''new in-memory event store: got '' @ int_dec capacity))
      else Inr \<lparr>st_capacity = capacity, st_streams = Map.empty\<rparr>)"

definition Append ::
    "string \<Rightarrow> event \<Rightarrow> InMemoryEventStore \<Rightarrow> (goerr option \<times> InMemoryEventStore) option" where
  "Append streamID ev s = do {
     let buf = (case st_streams s streamID of Some b \<Rightarrow> b | None \<Rightarrow> new_buffer (st_capacity s));
     buf' \<leftarrow> buffer_append buf ev;
     Some (None, s\<lparr>st_streams := (st_streams s)(streamID \<mapsto> buf')\<rparr>)
   }"

definition Since ::
    "string \<Rightarrow> string \<Rightarrow> InMemoryEventStore \<Rightarrow> (event list \<times> bool \<times> goerr option) option" where
  "Since streamID lastEventID s =
     (case st_streams s streamID of
        None \<Rightarrow> Some ([], False, None)
      | Some buf \<Rightarrow> do {
          r \<leftarrow> buffer_since buf lastEventID;
          Some (fst r, snd r, None)
        })"

definition Clear :: "string \<Rightarrow> InMemoryEventStore \<Rightarrow> goerr option \<times> InMemoryEventStore" where
  "Clear streamID s = (None, s\<lparr>st_streams := (st_streams s)(streamID := None)\<rparr>)"

text \<open>\<open>SinkFor\<close>: the state of the sink is the store, or \<open>None\<close> once an append has panicked.\<close>

definition SinkFor :: "string \<Rightarrow> InMemoryEventStore option sink" where
  "SinkFor streamID ev w =
     (case Option.bind w (Append streamID ev) of
        None \<Rightarrow> (Some (ErrOther ''panic''), None)
      | Some (r, s) \<Rightarrow> (r, Some s))"

section \<open>The bounded log\<close>

definition keep_last :: "nat \<Rightarrow> 'a list \<Rightarrow> 'a list" where
  "keep_last n xs = drop (length xs - n) xs"

fun log_after :: "string \<Rightarrow> event list \<Rightarrow> event list option" where
  "log_after i [] = None"
| "log_after i (e # es) =
     (case log_after i es of
        Some r \<Rightarrow> Some r
      | None \<Rightarrow> if ev_ID e = i then Some es else None)"

definition log_since :: "string \<Rightarrow> event list \<Rightarrow> event list \<times> bool" where
  "log_since i es =
     (if i = [] then ([], False)
      else case log_after i es of None \<Rightarrow> ([], False) | Some r \<Rightarrow> (r, True))"

lemma length_keep_last [simp]: "length (keep_last n xs) = min (length xs) n"
  by (simp add: keep_last_def)

lemma keep_last_keep_last: "keep_last n (keep_last n xs @ ys) = keep_last n (xs @ ys)"
  by (cases "length xs \<le> n") (simp_all add: keep_last_def add.commute)

lemma keep_last_all: "length xs \<le> n \<Longrightarrow> keep_last n xs = xs"
  by (simp add: keep_last_def)

lemma keep_last_append: "length ys \<le> n \<Longrightarrow> keep_last n (xs @ ys) = keep_last (n - length ys) xs @ ys"
  by (simp add: keep_last_def)

lemma log_after_None: "log_after i es = None \<longleftrightarrow> i \<notin> ev_ID ` set es"
  by (induction es) (auto split: option.splits)

lemma log_after_append:
  "log_after i (xs @ ys) = (case log_after i ys of Some r \<Rightarrow> Some r
      | None \<Rightarrow> map_option (\<lambda>r. r @ ys) (log_after i xs))"
  by (induction xs) (auto split: option.splits)

lemma log_after_at:
  assumes "k < length es" and "ev_ID (es ! k) = i"
    and "\<And>j. k < j \<Longrightarrow> j < length es \<Longrightarrow> ev_ID (es ! j) \<noteq> i"
  shows "log_after i es = Some (drop (Suc k) es)"
proof -
  have "es = take k es @ es ! k # drop (Suc k) es" using assms(1) by (rule id_take_nth_drop)
  moreover have "log_after i (drop (Suc k) es) = None"
    using assms(3) [of "Suc (k + j)" for j] by (force simp: log_after_None in_set_conv_nth)
  ultimately show ?thesis
    using assms(2) log_after_append [of i "take k es" "es ! k # drop (Suc k) es"] by simp
qed

section \<open>The ring buffer holds the bounded log\<close>

text \<open>
  \<open>buf_rep cap h b\<close>: \<open>b\<close> is a buffer of size \<open>cap\<close> after the events \<open>h\<close> were appended. Event
  \<open>k\<close> of the history sits in slot \<open>k mod cap\<close> with sequence number \<open>k\<close>, as long as it is
  one of the last \<open>cap\<close>, and the index knows the last retained occurrence of each id.
\<close>

definition retained_from :: "nat \<Rightarrow> event list \<Rightarrow> nat" where
  "retained_from cap h = length h - cap"

definition last_at :: "nat \<Rightarrow> event list \<Rightarrow> string \<Rightarrow> nat \<Rightarrow> bool" where
  "last_at cap h i k \<longleftrightarrow> i \<noteq> [] \<and> length h - cap \<le> k \<and> k < length h \<and> ev_ID (h ! k) = i
     \<and> (\<forall>j. k < j \<and> j < length h \<longrightarrow> ev_ID (h ! j) \<noteq> i)"

definition buf_rep :: "nat \<Rightarrow> event list \<Rightarrow> streamBuffer \<Rightarrow> bool" where
  "buf_rep cap h b \<longleftrightarrow> 0 < cap \<and> length (sb_ring b) = cap
     \<and> sb_next b = int (length h) \<and> sb_count b = int (min (length h) cap)
     \<and> sb_head b = int (length h mod cap)
     \<and> (\<forall>k. length h - cap \<le> k \<and> k < length h \<longrightarrow>
          sb_ring b ! (k mod cap) = \<lparr>se_seq = int k, se_ev = h ! k\<rparr>)
     \<and> (\<forall>i q. sb_index b i = Some q \<longleftrightarrow> (\<exists>k. q = int k \<and> last_at cap h i k))"

lemma buf_rep_index:
  "buf_rep cap h b \<Longrightarrow> sb_index b i = Some q \<longleftrightarrow> (\<exists>k. q = int k \<and> last_at cap h i k)"
  by (simp add: buf_rep_def)

lemma buf_rep_slot:
  "\<lbrakk>buf_rep cap h b; length h - cap \<le> k; k < length h\<rbrakk>
    \<Longrightarrow> sb_ring b ! (k mod cap) = \<lparr>se_seq = int k, se_ev = h ! k\<rparr>"
  by (simp add: buf_rep_def)

lemma buf_rep_new: "0 < c \<Longrightarrow> buf_rep (nat c) [] (new_buffer c)"
  by (simp add: buf_rep_def new_buffer_def last_at_def)

lemma smod_nonneg: "\<lbrakk>0 \<le> a; 0 < b\<rbrakk> \<Longrightarrow> (a::int) smod b = a mod b"
  by (simp add: signed_modulo_int_def sgn_if)

lemma go_rem_nat: "0 < b \<Longrightarrow> go_rem (int a) (int b) = Some (int (a mod b))"
  by (simp add: go_rem_def smod_nonneg of_nat_mod)

lemma mod_window_inj:
  assumes "(j::nat) mod c = k mod c" and "n - c \<le> j" "j < n" "n - c \<le> k" "k < n"
  shows "j = k"
proof (rule ccontr)
  assume "j \<noteq> k"
  then consider "j < k" | "k < j" by linarith
  then show False
  proof cases
    case 1
    then have "c dvd k - j" using assms(1) by (metis mod_eq_dvd_iff_nat less_imp_le)
    moreover have "k - j < c" "0 < k - j" using 1 assms by auto
    ultimately show False by (auto dest: dvd_imp_le)
  next
    case 2
    then have "c dvd j - k" using assms(1) by (metis mod_eq_dvd_iff_nat less_imp_le)
    moreover have "j - k < c" "0 < j - k" using 2 assms by auto
    ultimately show False by (auto dest: dvd_imp_le)
  qed
qed

lemma last_at_unique: "\<lbrakk>last_at cap h i j; last_at cap h i k\<rbrakk> \<Longrightarrow> j = k"
  unfolding last_at_def by (metis linorder_neqE_nat)

lemma last_at_append:
  "last_at cap (h @ [ev]) i k \<longleftrightarrow>
     (if k = length h then i \<noteq> [] \<and> ev_ID ev = i \<and> 0 < cap
      else last_at cap h i k \<and> ev_ID ev \<noteq> i \<and> Suc (length h) - cap \<le> k)"
  unfolding last_at_def
  by (cases "k = length h") (auto simp: nth_append less_Suc_eq)

lemma window_shift:
  assumes "\<not> (ev_ID ev \<noteq> [] \<and> i = ev_ID ev)"
  shows "(\<exists>k. q = int k \<and> last_at cap h i k \<and> (cap \<le> length h \<longrightarrow> k \<noteq> length h - cap))
    \<longleftrightarrow> (\<exists>k. q = int k \<and> last_at cap (h @ [ev]) i k)"
proof -
  have "last_at cap h i k \<and> (cap \<le> length h \<longrightarrow> k \<noteq> length h - cap) \<longleftrightarrow> last_at cap (h @ [ev]) i k" for k
  proof (cases "k < length h \<and> i \<noteq> []")
    case True
    then have "Suc (length h) - cap \<le> k \<longleftrightarrow>
        length h - cap \<le> k \<and> (cap \<le> length h \<longrightarrow> k \<noteq> length h - cap)" by arith
    with True assms show ?thesis unfolding last_at_append by (auto simp: last_at_def)
  next
    case False
    with assms show ?thesis unfolding last_at_append by (auto simp: last_at_def)
  qed
  then show ?thesis by simp
qed

text \<open>What eviction does to the index: the id of the outgoing event goes, unless it came again.\<close>

lemma evict_index_eq:
  "sb_index (evict b out) =
     (if ev_ID (se_ev out) \<noteq> [] \<and> sb_index b (ev_ID (se_ev out)) = Some (se_seq out)
      then (sb_index b)(ev_ID (se_ev out) := None) else sb_index b)"
  by (simp add: evict_def split: option.split)

lemma drop_key:
  assumes "m i = Some k \<Longrightarrow> x = i \<and> i \<noteq> []"
  shows "(if x \<noteq> [] \<and> m x = Some k then m(x := None) else m) i = Some q \<longleftrightarrow> m i = Some q \<and> q \<noteq> k"
  using assms by (cases "x = i"; cases "m i = Some k") auto

lemma window_start_mod: "c \<le> n \<Longrightarrow> n mod c = (n - c) mod (c::nat)"
  by (rule le_mod_geq)

lemma evict_index:
  assumes rep: "buf_rep cap h b" and full: "cap \<le> length h"
    and out: "out = sb_ring b ! nat (sb_head b)"
  shows "sb_index (evict (b\<lparr>sb_next := n\<rparr>) out) i = Some q
    \<longleftrightarrow> sb_index b i = Some q \<and> q \<noteq> int (length h - cap)"
proof -
  define k where "k = length h - cap"
  have cap: "0 < cap" "sb_head b = int (length h mod cap)" using rep by (simp_all add: buf_rep_def)
  have "sb_ring b ! (k mod cap) = \<lparr>se_seq = int k, se_ev = h ! k\<rparr>"
    by (rule buf_rep_slot [OF rep]) (use full cap in \<open>simp_all add: k_def\<close>)
  moreover have "nat (sb_head b) = k mod cap"
    unfolding cap(2) k_def window_start_mod [OF full] by (rule nat_int)
  ultimately have o: "out = \<lparr>se_seq = int k, se_ev = h ! k\<rparr>" using out by simp
  have idx: "ev_ID (h ! k) = i \<and> i \<noteq> []" if "sb_index b i = Some (int k)"
    using buf_rep_index [OF rep, of i "int k"] that by (auto simp: last_at_def)
  have sel: "sb_index (b\<lparr>sb_next := n\<rparr>) = sb_index b" by simp
  have "sb_index (evict (b\<lparr>sb_next := n\<rparr>) out) i = Some q \<longleftrightarrow> sb_index b i = Some q \<and> q \<noteq> int k"
    unfolding evict_index_eq o storedEvent.simps sel by (rule drop_key [OF idx])
  then show ?thesis by (simp only: k_def)
qed

lemma evict_other [simp]:
  "sb_ring (evict b out) = sb_ring b" "sb_head (evict b out) = sb_head b"
  "sb_count (evict b out) = sb_count b" "sb_next (evict b out) = sb_next b"
  by (auto simp: evict_def split: option.splits)

lemma buffer_append_rep:
  assumes rep: "buf_rep cap h b"
  shows "\<exists>b'. buffer_append b ev = Some b' \<and> buf_rep cap (h @ [ev]) b'"
proof -
  let ?n = "length h"
  let ?out = "sb_ring b ! nat (sb_head b)"
  let ?b1 = "b\<lparr>sb_next := sb_next b + 1\<rparr>"
  let ?b2 = "if sb_count b = int cap then evict ?b1 ?out else ?b1"
  let ?new = "\<lparr>se_seq = int ?n, se_ev = ev\<rparr>"
  let ?b3 = "?b2\<lparr>sb_ring := (sb_ring b)[?n mod cap := ?new], sb_head := int (Suc ?n mod cap),
     sb_count := (if sb_count b < int cap then sb_count b + 1 else sb_count b)\<rparr>"
  let ?b = "if ev_ID ev \<noteq> [] then ?b3\<lparr>sb_index := (sb_index ?b3)(ev_ID ev \<mapsto> int ?n)\<rparr> else ?b3"
  from rep have cap: "0 < cap" and len: "length (sb_ring b) = cap"
    and head: "sb_head b = int (?n mod cap)" and nxt: "sb_next b = int ?n"
    and count: "sb_count b = int (min ?n cap)"
    by (auto simp: buf_rep_def)
  have slot: "ring_get (sb_ring b) (sb_head b) = Some ?out"
    using cap by (simp add: ring_get_def len head)
  have rem: "go_rem (sb_head b + 1) (int cap) = Some (int (Suc ?n mod cap))"
    using go_rem_nat [OF cap, of "Suc (?n mod cap)"] by (simp add: head mod_Suc_eq add.commute)
  have cnt: "(if sb_count b < int cap then sb_count b + 1 else sb_count b) = int (min (Suc ?n) cap)"
    by (auto simp: count)
  have app: "buffer_append b ev = Some ?b"
    using slot rem len head by (simp add: buffer_append_def Let_def nxt)
  have idx2: "sb_index ?b2 i = Some q \<longleftrightarrow> sb_index b i = Some q \<and> (cap \<le> ?n \<longrightarrow> q \<noteq> int (?n - cap))"
    for i q
    using evict_index [OF rep _ refl, of "sb_next b + 1" i q] by (auto simp: count)
  have idx: "sb_index ?b i = Some q \<longleftrightarrow> (\<exists>k. q = int k \<and> last_at cap (h @ [ev]) i k)" for i q
  proof (cases "ev_ID ev \<noteq> [] \<and> i = ev_ID ev")
    case True
    then show ?thesis using cap by (auto simp: last_at_append)
  next
    case False
    then have "sb_index ?b i = sb_index ?b2 i" by auto
    also have "\<dots> = Some q \<longleftrightarrow> (\<exists>k. q = int k \<and> last_at cap h i k \<and> (cap \<le> ?n \<longrightarrow> k \<noteq> ?n - cap))"
      by (auto simp: idx2 buf_rep_index [OF rep])
    also have "\<dots> \<longleftrightarrow> (\<exists>k. q = int k \<and> last_at cap (h @ [ev]) i k)"
      by (rule window_shift [OF False])
    finally show ?thesis .
  qed
  have ring: "(sb_ring b)[?n mod cap := ?new] ! (k mod cap) = \<lparr>se_seq = int k, se_ev = (h @ [ev]) ! k\<rparr>"
    if "Suc ?n - cap \<le> k" "k < Suc ?n" for k
  proof (cases "k = ?n")
    case True
    then show ?thesis using cap len by simp
  next
    case False
    then have "k mod cap \<noteq> ?n mod cap" using mod_window_inj [of k cap ?n "Suc ?n"] that cap by auto
    moreover have "sb_ring b ! (k mod cap) = \<lparr>se_seq = int k, se_ev = h ! k\<rparr>"
      using rep that False by (auto simp: buf_rep_def)
    ultimately show ?thesis using that False by (simp add: nth_append)
  qed
  have "buf_rep cap (h @ [ev]) ?b"
    unfolding buf_rep_def using cap len ring idx cnt by (auto simp: nxt)
  with app show ?thesis by blast
qed

lemma since_loop_rep:
  assumes rep: "buf_rep cap h b" and "\<And>i. i \<in> set is \<Longrightarrow> i < min (length h) cap"
  shows "since_loop b (int ((length h - cap) mod cap)) q is
    = Some (map ((!) h) (filter (\<lambda>k. q < int k) (map (\<lambda>i. length h - cap + i) is)))"
  using assms(2)
proof (induction "is")
  case (Cons i "is")
  let ?k = "length h - cap + i"
  from rep have cap: "0 < cap" and len: "length (sb_ring b) = cap" by (auto simp: buf_rep_def)
  have i: "i < length h" "i < cap" using Cons.prems [of i] by auto
  have "go_rem (int ((length h - cap) mod cap) + int i) (int cap) = Some (int (?k mod cap))"
    using go_rem_nat [OF cap, of "(length h - cap) mod cap + i"] by (simp add: mod_add_left_eq)
  moreover have "sb_ring b ! (?k mod cap) = \<lparr>se_seq = int ?k, se_ev = h ! ?k\<rparr>"
    using rep i unfolding buf_rep_def by auto
  ultimately show ?case
    using Cons.IH Cons.prems cap by (simp add: len ring_get_def not_le)
qed simp

lemma filter_upt_gt: "n \<le> Suc q \<Longrightarrow> filter (\<lambda>k. q < k) [n..<m] = [Suc q..<m]"
proof (induction m)
  case (Suc m)
  then show ?case by (cases "q < m") auto
qed simp

lemma buffer_since_rep:
  assumes rep: "buf_rep cap h b"
  shows "buffer_since b i = Some (log_since i (keep_last cap h))"
proof (cases "sb_index b i")
  case None
  have "i = [] \<or> log_after i (keep_last cap h) = None"
  proof (rule ccontr)
    assume *: "\<not> ?thesis"
    then obtain k0 where k0: "length h - cap \<le> k0" "k0 < length h" "ev_ID (h ! k0) = i"
      by (auto simp: log_after_None in_set_conv_nth keep_last_def) (metis le_add1 less_diff_conv add.commute)
    let ?P = "\<lambda>k. k < length h \<and> ev_ID (h ! k) = i"
    have "?P k0" using k0 by simp
    then have "?P (GREATEST k. ?P k)" "k0 \<le> (GREATEST k. ?P k)"
      using GreatestI_nat [of ?P k0 "length h"] Greatest_le_nat [of ?P k0 "length h"] by simp_all
    moreover have "j \<le> (GREATEST k. ?P k)" if "?P j" for j
      by (rule Greatest_le_nat [of ?P j "length h"]) (use that in auto)
    ultimately have "last_at cap h i (GREATEST k. ?P k)"
      unfolding last_at_def using * k0 by (metis (no_types, lifting) le_trans not_le)
    with buf_rep_index [OF rep] None show False by force
  qed
  with None show ?thesis by (auto simp: buffer_since_def log_since_def)
next
  case (Some q)
  let ?n = "length h"
  from rep Some obtain k where k: "q = int k" "last_at cap h i k" by (auto simp: buf_rep_def)
  from rep have cap: "0 < cap" and len: "length (sb_ring b) = cap"
    and head: "sb_head b = int (?n mod cap)" and count: "sb_count b = int (min ?n cap)"
    by (auto simp: buf_rep_def)
  have "go_rem (sb_head b - sb_count b + int cap) (int cap) = Some (int ((?n - cap) mod cap))"
  proof (cases "?n < cap")
    case True
    then have "sb_head b - sb_count b + int cap = int cap" by (simp add: head count)
    with True cap show ?thesis using go_rem_nat [OF cap, of cap] by simp
  next
    case False
    then have "sb_head b - sb_count b + int cap = int (?n mod cap)" by (simp add: head count)
    moreover have "?n mod cap = (?n - cap) mod cap" using False by (simp add: le_mod_geq)
    ultimately show ?thesis using go_rem_nat [OF cap, of "?n mod cap"] by simp
  qed
  moreover have "since_loop b (int ((?n - cap) mod cap)) q [0..<nat (sb_count b)]
      = Some (map ((!) h) (filter (\<lambda>j. k < j) (map (\<lambda>i. ?n - cap + i) [0..<nat (sb_count b)])))"
    using since_loop_rep [OF rep, of "[0..<nat (sb_count b)]" q] by (simp add: count k(1))
  moreover have "map (\<lambda>i. ?n - cap + i) [0..<nat (sb_count b)] = [?n - cap..<?n]"
    by (rule nth_equalityI) (auto simp: count)
  moreover have "filter (\<lambda>j. k < j) [?n - cap..<?n] = [Suc k..<?n]"
    using k(2) by (intro filter_upt_gt) (simp add: last_at_def)
  moreover have "map ((!) h) [Suc k..<?n] = drop (Suc k) h"
    by (rule nth_equalityI) auto
  ultimately have "buffer_since b i = Some (drop (Suc k) h, True)"
    using Some by (simp add: buffer_since_def len Let_def)
  moreover have "log_after i (keep_last cap h) = Some (drop (Suc k) h)"
  proof -
    have "log_after i (keep_last cap h) = Some (drop (Suc (k - (?n - cap))) (keep_last cap h))"
    proof (rule log_after_at)
      fix j assume "k - (?n - cap) < j" "j < length (keep_last cap h)"
      then have "k < ?n - cap + j" "?n - cap + j < ?n" by auto
      then have "ev_ID (h ! (?n - cap + j)) \<noteq> i" using k(2) unfolding last_at_def by blast
      with \<open>?n - cap + j < ?n\<close> show "ev_ID (keep_last cap h ! j) \<noteq> i" by (simp add: keep_last_def)
    qed (use k(2) in \<open>auto simp: keep_last_def last_at_def\<close>)
    with k(2) show ?thesis by (simp add: keep_last_def last_at_def)
  qed
  ultimately show ?thesis using k(2) by (simp add: log_since_def last_at_def)
qed

section \<open>The store's contract\<close>

locale event_store =
  fixes app :: "string \<Rightarrow> event \<Rightarrow> 's \<Rightarrow> (goerr option \<times> 's) option"
    and since :: "string \<Rightarrow> string \<Rightarrow> 's \<Rightarrow> (event list \<times> bool \<times> goerr option) option"
    and clear :: "string \<Rightarrow> 's \<Rightarrow> goerr option \<times> 's"
    and log :: "'s \<Rightarrow> string \<Rightarrow> event list"
    and cap :: "'s \<Rightarrow> nat"
    and ok :: "'s \<Rightarrow> bool"
  assumes app_log: "ok s \<Longrightarrow> \<exists>s'. app sid ev s = Some (None, s') \<and> ok s' \<and> cap s' = cap s
        \<and> log s' = (log s)(sid := keep_last (cap s) (log s sid @ [ev]))"
    and since_log: "ok s \<Longrightarrow> since sid i s
        = Some (fst (log_since i (log s sid)), snd (log_since i (log s sid)), None)"
    and clear_log: "ok s \<Longrightarrow> fst (clear sid s) = None \<and> ok (snd (clear sid s))
        \<and> cap (snd (clear sid s)) = cap s \<and> log (snd (clear sid s)) = (log s)(sid := [])"

text \<open>The operations as calls, and what the calls of a run answered.\<close>

datatype store_call = CAppend string event | CSince string string | CClear string

datatype store_answer = ADone "goerr option" | ASince "event list" bool "goerr option"

definition store_step ::
    "(string \<Rightarrow> event \<Rightarrow> 's \<Rightarrow> (goerr option \<times> 's) option)
     \<Rightarrow> (string \<Rightarrow> string \<Rightarrow> 's \<Rightarrow> (event list \<times> bool \<times> goerr option) option)
     \<Rightarrow> (string \<Rightarrow> 's \<Rightarrow> goerr option \<times> 's) \<Rightarrow> 's \<Rightarrow> store_call \<Rightarrow> (store_answer \<times> 's) option" where
  "store_step app since clear s c =
     (case c of
        CAppend sid ev \<Rightarrow> map_option (\<lambda>(r, s'). (ADone r, s')) (app sid ev s)
      | CSince sid i \<Rightarrow> map_option (\<lambda>(evs, known, r). (ASince evs known r, s)) (since sid i s)
      | CClear sid \<Rightarrow> Some (case clear sid s of (r, s') \<Rightarrow> (ADone r, s')))"

fun run_calls :: "('s \<Rightarrow> store_call \<Rightarrow> (store_answer \<times> 's) option) \<Rightarrow> 's \<Rightarrow> store_call list
    \<Rightarrow> (store_answer list \<times> 's) option" where
  "run_calls step s [] = Some ([], s)"
| "run_calls step s (c # cs) = do {
     r \<leftarrow> step s c;
     q \<leftarrow> run_calls step (snd r) cs;
     Some (fst r # fst q, snd q)
   }"

text \<open>The specification: a stream is a bounded log, and streams do not meet.\<close>

fun log_step :: "nat \<Rightarrow> (string \<Rightarrow> event list) \<Rightarrow> store_call
    \<Rightarrow> store_answer \<times> (string \<Rightarrow> event list)" where
  "log_step n l (CAppend sid ev) = (ADone None, l(sid := keep_last n (l sid @ [ev])))"
| "log_step n l (CSince sid i) = (case log_since i (l sid) of (evs, known) \<Rightarrow> (ASince evs known None, l))"
| "log_step n l (CClear sid) = (ADone None, l(sid := []))"

fun log_run :: "nat \<Rightarrow> (string \<Rightarrow> event list) \<Rightarrow> store_call list
    \<Rightarrow> store_answer list \<times> (string \<Rightarrow> event list)" where
  "log_run n l [] = ([], l)"
| "log_run n l (c # cs) = (case log_step n l c of (a, l1) \<Rightarrow>
     (case log_run n l1 cs of (as, l2) \<Rightarrow> (a # as, l2)))"

context event_store
begin

lemma step_log:
  assumes "ok s"
  shows "\<exists>s'. store_step app since clear s c = Some (fst (log_step (cap s) (log s) c), s')
    \<and> ok s' \<and> cap s' = cap s \<and> log s' = snd (log_step (cap s) (log s) c)"
proof (cases c)
  case (CAppend sid ev)
  with app_log [OF assms, of sid ev] show ?thesis by (auto simp: store_step_def)
next
  case (CSince sid i)
  with since_log [OF assms, of sid i] assms show ?thesis
    by (auto simp: store_step_def split: prod.splits)
next
  case (CClear sid)
  with clear_log [OF assms, of sid] show ?thesis
    by (cases "clear sid s") (auto simp: store_step_def)
qed

lemma run_log:
  "ok s \<Longrightarrow> \<exists>s'. run_calls (store_step app since clear) s cs = Some (fst (log_run (cap s) (log s) cs), s')
    \<and> ok s' \<and> cap s' = cap s \<and> log s' = snd (log_run (cap s) (log s) cs)"
proof (induction cs arbitrary: s)
  case (Cons c cs)
  from step_log [OF Cons.prems, of c] obtain s1 where s1:
    "store_step app since clear s c = Some (fst (log_step (cap s) (log s) c), s1)" "ok s1"
    "cap s1 = cap s" "log s1 = snd (log_step (cap s) (log s) c)" by blast
  from Cons.IH [OF s1(2)] obtain s2 where
    "run_calls (store_step app since clear) s1 cs = Some (fst (log_run (cap s1) (log s1) cs), s2)"
    "ok s2" "cap s2 = cap s1" "log s2 = snd (log_run (cap s1) (log s1) cs)" by blast
  with s1 show ?case by (auto split: prod.splits)
qed simp

end

section \<open>The in-memory store keeps the contract\<close>

definition buffer_log :: "streamBuffer \<Rightarrow> event list" where
  "buffer_log b = map (\<lambda>i. se_ev (sb_ring b !
       nat ((sb_head b - sb_count b + int i) mod int (length (sb_ring b))))) [0..<nat (sb_count b)]"

definition store_log :: "InMemoryEventStore \<Rightarrow> string \<Rightarrow> event list" where
  "store_log s sid = (case st_streams s sid of None \<Rightarrow> [] | Some b \<Rightarrow> buffer_log b)"

definition store_ok :: "InMemoryEventStore \<Rightarrow> bool" where
  "store_ok s \<longleftrightarrow> 0 < st_capacity s
     \<and> (\<forall>sid b. st_streams s sid = Some b \<longrightarrow> (\<exists>h. buf_rep (nat (st_capacity s)) h b))"

lemma window_mod:
  assumes "i < c"
  shows "(int (n mod c) - int (min n c) + int i) mod int c = int ((n - c + i) mod c)"
proof (cases "c \<le> n")
  case True
  have "(int (n mod c) - int c + int i) mod int c = (int n - int c + int i) mod int c"
    unfolding of_nat_mod by (metis mod_add_left_eq mod_diff_left_eq)
  moreover have "int ((n - c + i) mod c) = (int n - int c + int i) mod int c"
    using True by (simp only: of_nat_mod of_nat_add of_nat_diff)
  ultimately show ?thesis using True by (simp only: min.absorb2)
next
  case False
  with assms show ?thesis by simp
qed

lemma buffer_log_rep:
  assumes rep: "buf_rep cap h b"
  shows "buffer_log b = keep_last cap h"
proof (rule nth_equalityI)
  from rep have cap: "0 < cap" and len: "length (sb_ring b) = cap"
    and head: "sb_head b = int (length h mod cap)" and count: "sb_count b = int (min (length h) cap)"
    by (auto simp: buf_rep_def)
  show "length (buffer_log b) = length (keep_last cap h)" by (simp add: buffer_log_def count)
  fix i assume "i < length (buffer_log b)"
  then have i: "i < length h" "i < cap" by (auto simp: buffer_log_def count)
  let ?k = "length h - cap + i"
  have "(sb_head b - sb_count b + int i) mod int cap = int (?k mod cap)"
    unfolding head count by (rule window_mod [OF i(2)])
  then have "buffer_log b ! i = se_ev (sb_ring b ! (?k mod cap))"
    using i by (simp add: buffer_log_def len count)
  also have "\<dots> = h ! ?k" using buf_rep_slot [OF rep, of ?k] i by simp
  finally show "buffer_log b ! i = keep_last cap h ! i" using i by (simp add: keep_last_def)
qed

lemma Append_log:
  assumes "store_ok s"
  shows "\<exists>s'. Append sid ev s = Some (None, s') \<and> store_ok s' \<and> st_capacity s' = st_capacity s
    \<and> store_log s' = (store_log s)(sid := keep_last (nat (st_capacity s)) (store_log s sid @ [ev]))"
proof -
  let ?b = "case st_streams s sid of Some b \<Rightarrow> b | None \<Rightarrow> new_buffer (st_capacity s)"
  let ?cap = "nat (st_capacity s)"
  have "\<exists>h. buf_rep ?cap h ?b \<and> store_log s sid = keep_last ?cap h"
  proof (cases "st_streams s sid")
    case None
    with assms buf_rep_new [of "st_capacity s"] show ?thesis
      by (auto simp: store_ok_def store_log_def keep_last_def intro!: exI [of _ "[]"])
  next
    case (Some b)
    with assms buffer_log_rep show ?thesis by (fastforce simp: store_ok_def store_log_def)
  qed
  then obtain h where h: "buf_rep ?cap h ?b" "store_log s sid = keep_last ?cap h" by blast
  from buffer_append_rep [OF h(1), of ev] obtain b' where
    b': "buffer_append ?b ev = Some b'" "buf_rep ?cap (h @ [ev]) b'" by blast
  let ?s = "s\<lparr>st_streams := (st_streams s)(sid \<mapsto> b')\<rparr>"
  have "Append sid ev s = Some (None, ?s)" by (simp add: Append_def b')
  moreover have "store_ok ?s" using assms b' by (auto simp: store_ok_def)
  moreover have "store_log ?s = (store_log s)(sid := keep_last ?cap (store_log s sid @ [ev]))"
  proof -
    have "store_log ?s = (store_log s)(sid := buffer_log b')"
      by (auto simp: store_log_def fun_eq_iff)
    with buffer_log_rep [OF b'(2)] show ?thesis by (simp add: h(2) keep_last_keep_last)
  qed
  ultimately show ?thesis by (intro exI [of _ ?s]) simp
qed

lemma Since_log:
  assumes "store_ok s"
  shows "Since sid i s
    = Some (fst (log_since i (store_log s sid)), snd (log_since i (store_log s sid)), None)"
proof (cases "st_streams s sid")
  case None
  then show ?thesis by (simp add: Since_def store_log_def log_since_def)
next
  case (Some b)
  with assms obtain h where "buf_rep (nat (st_capacity s)) h b" by (auto simp: store_ok_def)
  from buffer_since_rep [OF this, of i] buffer_log_rep [OF this] Some show ?thesis
    by (simp add: Since_def store_log_def)
qed

interpretation ims_store: event_store Append Since Clear store_log "\<lambda>s. nat (st_capacity s)" store_ok
proof unfold_locales
  fix s sid ev assume "store_ok s"
  from Append_log [OF this, of sid ev] show "\<exists>s'. Append sid ev s = Some (None, s') \<and> store_ok s'
      \<and> nat (st_capacity s') = nat (st_capacity s)
      \<and> store_log s' = (store_log s)(sid := keep_last (nat (st_capacity s)) (store_log s sid @ [ev]))"
    by auto
qed (auto simp: Since_log Clear_def store_ok_def store_log_def)

section \<open>What the store promises\<close>

text \<open>
  C31. \<open>NewInMemoryEventStore\<close> refuses exactly the capacities that are not positive, with an
  error that \<open>errors.Is\<close> recognises as \<open>ErrInvalidCapacity\<close>, and otherwise returns an empty
  store of that capacity.
\<close>

theorem new_store_checks_capacity:
  "case NewInMemoryEventStore c of
     Inl e \<Rightarrow> c \<le> 0 \<and> errors_is e ErrInvalidCapacity
   | Inr s \<Rightarrow> 0 < c \<and> st_capacity s = c \<and> Since sid i s = Some ([], False, None)"
  by (simp add: NewInMemoryEventStore_def Since_def)

lemma new_store_ok:
  "NewInMemoryEventStore c = Inr s
    \<Longrightarrow> store_ok s \<and> st_capacity s = c \<and> store_log s = (\<lambda>_. []) \<and> 0 < c"
  by (auto simp: NewInMemoryEventStore_def store_ok_def store_log_def fun_eq_iff split: if_splits)

text \<open>
  C7. Every run of \<open>Append\<close>, \<open>Since\<close> and \<open>Clear\<close> on a new store, over any streams, answers
  as the specification does, in which a stream is the list of its last \<open>capacity\<close> events and
  streams are independent: the ring buffer and its index refine the bounded log, no call
  panics, and none fails.
\<close>

theorem store_refines_bounded_log:
  assumes "NewInMemoryEventStore c = Inr s"
  shows "map_option fst (run_calls (store_step Append Since Clear) s cs)
    = Some (fst (log_run (nat c) (\<lambda>_. []) cs))"
  using ims_store.run_log [of s cs] new_store_ok [OF assms] by auto

theorem store_refines_bounded_log_witness:
  "map_option fst (run_calls (store_step Append Since Clear) \<lparr>st_capacity = 2, st_streams = Map.empty\<rparr>
      [CAppend ''s'' \<lparr>ev_ID = ''1'', ev_Event = ''a'', ev_Data = []\<rparr>,
       CAppend ''s'' \<lparr>ev_ID = ''2'', ev_Event = ''b'', ev_Data = []\<rparr>,
       CAppend ''s'' \<lparr>ev_ID = ''3'', ev_Event = ''c'', ev_Data = []\<rparr>,
       CSince ''s'' ''1'', CSince ''s'' ''2'', CSince ''t'' ''2''])
   = Some [ADone None, ADone None, ADone None, ASince [] False None,
       ASince [\<lparr>ev_ID = ''3'', ev_Event = ''c'', ev_Data = []\<rparr>] True None, ASince [] False None]"
  by (subst store_refines_bounded_log [of 2])
    (simp_all add: NewInMemoryEventStore_def keep_last_def log_since_def)

text \<open>The events a run appends to a stream.\<close>

fun appended :: "string \<Rightarrow> store_call list \<Rightarrow> event list" where
  "appended sid [] = []"
| "appended sid (CAppend t ev # cs) = (if t = sid then ev # appended sid cs else appended sid cs)"
| "appended sid (c # cs) = appended sid cs"

lemma log_run_appended:
  "\<lbrakk>CClear sid \<notin> set cs; length (l sid) \<le> n\<rbrakk>
    \<Longrightarrow> snd (log_run n l cs) sid = keep_last n (l sid @ appended sid cs)"
proof (induction cs arbitrary: l)
  case Nil
  then show ?case by (simp add: keep_last_all)
next
  case (Cons c cs)
  have *: "snd (log_run n l (c # cs)) sid = snd (log_run n (snd (log_step n l c)) cs) sid"
    by (simp split: prod.splits)
  show ?case
  proof (cases c)
    case (CAppend t ev)
    then show ?thesis
      unfolding * using Cons.IH [of "l(t := keep_last n (l t @ [ev]))"] Cons.prems
      by (cases "t = sid") (simp_all add: keep_last_keep_last del: fun_upd_apply, simp_all add: keep_last_keep_last)
  next
    case (CSince t i)
    then show ?thesis
      unfolding * using Cons.IH [of l] Cons.prems by (simp split: prod.splits)
  next
    case (CClear t)
    then show ?thesis
      unfolding * using Cons.IH [of "l(t := [])"] Cons.prems by (simp add: fun_upd_def)
  qed
qed

lemma log_since_kept:
  assumes "i \<noteq> []" and "ev_ID e = i" and "i \<notin> ev_ID ` set pre" and "i \<notin> ev_ID ` set post"
  shows "log_since i (keep_last n (pre @ e # post)) = (if length post < n then (post, True) else ([], False))"
proof (cases "length post < n")
  case True
  then have "keep_last n (pre @ e # post) = keep_last (n - Suc (length post)) pre @ e # post"
    using keep_last_append [of "e # post" n pre] by simp
  with assms True show ?thesis
    using log_after_None [of i post] by (simp add: log_since_def log_after_append)
next
  case False
  have "keep_last n (pre @ e # post) = keep_last n post"
    using False by (simp add: keep_last_def Suc_diff_le)
  moreover have "log_after i (keep_last n post) = None"
    using assms(4) in_set_dropD by (fastforce simp: log_after_None keep_last_def)
  ultimately show ?thesis using False by (simp add: log_since_def)
qed

text \<open>
  C8. After any run in which the stream was not cleared and the id of an event \<open>e\<close> was used
  once, resuming from that id answers with exactly the events appended to the stream after
  \<open>e\<close> as long as fewer than \<open>capacity\<close> of them were, and with "not known" from then on; what
  happened on other streams in between makes no difference.
\<close>

theorem resume_after_event:
  assumes "NewInMemoryEventStore c = Inr s"
    and "run_calls (store_step Append Since Clear) s cs = Some (as, s')"
    and "CClear sid \<notin> set cs" and "appended sid cs = pre @ e # post"
    and "ev_ID e \<noteq> []" and "ev_ID e \<notin> ev_ID ` set pre" and "ev_ID e \<notin> ev_ID ` set post"
  shows "Since sid (ev_ID e) s'
    = Some (if length post < nat c then (post, True, None) else ([], False, None))"
proof -
  from new_store_ok [OF assms(1)] have s: "store_ok s" "st_capacity s = c" "store_log s = (\<lambda>_. [])"
    by auto
  from ims_store.run_log [OF s(1), of cs] assms(2) s(2,3)
  have s': "store_ok s'" "store_log s' = snd (log_run (nat c) (\<lambda>_. []) cs)" by auto
  from log_run_appended [OF assms(3), of "\<lambda>_. []" "nat c"] assms(4)
  have "store_log s' sid = keep_last (nat c) (pre @ e # post)" by (simp add: s'(2))
  with Since_log [OF s'(1), of sid "ev_ID e"] log_since_kept [OF assms(5) refl assms(6,7), of "nat c"]
  show ?thesis by simp
qed

theorem resume_after_event_witness:
  "\<exists>as s'. run_calls (store_step Append Since Clear) \<lparr>st_capacity = 2, st_streams = Map.empty\<rparr>
      [CAppend ''s'' \<lparr>ev_ID = ''1'', ev_Event = ''a'', ev_Data = []\<rparr>,
       CAppend ''t'' \<lparr>ev_ID = ''1'', ev_Event = ''x'', ev_Data = []\<rparr>,
       CAppend ''s'' \<lparr>ev_ID = [], ev_Event = ''b'', ev_Data = []\<rparr>] = Some (as, s')
    \<and> Since ''s'' ''1'' s' = Some ([\<lparr>ev_ID = [], ev_Event = ''b'', ev_Data = []\<rparr>], True, None)"
proof -
  let ?cs = "[CAppend ''s'' \<lparr>ev_ID = ''1'', ev_Event = ''a'', ev_Data = []\<rparr>,
       CAppend ''t'' \<lparr>ev_ID = ''1'', ev_Event = ''x'', ev_Data = []\<rparr>,
       CAppend ''s'' \<lparr>ev_ID = [], ev_Event = ''b'', ev_Data = []\<rparr>]"
  have new: "NewInMemoryEventStore 2 = Inr \<lparr>st_capacity = 2, st_streams = Map.empty\<rparr>"
    by (simp add: NewInMemoryEventStore_def)
  from ims_store.run_log [of "\<lparr>st_capacity = 2, st_streams = Map.empty\<rparr>" ?cs] new_store_ok [OF new]
  obtain as s' where r: "run_calls (store_step Append Since Clear)
      \<lparr>st_capacity = 2, st_streams = Map.empty\<rparr> ?cs = Some (as, s')" by blast
  from resume_after_event [OF new r, of "''s''" "[]" "\<lparr>ev_ID = ''1'', ev_Event = ''a'', ev_Data = []\<rparr>"
      "[\<lparr>ev_ID = [], ev_Event = ''b'', ev_Data = []\<rparr>]"] r
  show ?thesis by simp
qed

text \<open>Capture: the sink that is live and the store's sink, fanned out to.\<close>

lemma capture_one:
  assumes "store_ok s"
  shows "\<exists>s'. MultiSink_Emit [lift_fst InMemorySink_Emit, lift_snd (SinkFor sid)] e (a, Some s)
      = (None, (a\<lparr>ims_events := ims_events a @ [e]\<rparr>, Some s'))
    \<and> store_ok s' \<and> st_capacity s' = st_capacity s
    \<and> store_log s' = (store_log s)(sid := keep_last (nat (st_capacity s)) (store_log s sid @ [e]))"
  using Append_log [OF assms, of sid e]
  by (auto simp: MultiSink_Emit_def lift_fst_def lift_snd_def SinkFor_def InMemorySink_Emit_def)

lemma capture_all:
  assumes "store_ok s" and "length (store_log s sid) \<le> nat (st_capacity s)"
  shows "\<exists>s'. emit_all (MultiSink_Emit [lift_fst InMemorySink_Emit, lift_snd (SinkFor sid)]) es (a, Some s)
      = (None, (a\<lparr>ims_events := ims_events a @ es\<rparr>, Some s'))
    \<and> store_ok s' \<and> store_log s' sid = keep_last (nat (st_capacity s)) (store_log s sid @ es)"
  using assms
proof (induction es arbitrary: s a)
  case Nil
  then show ?case by (simp add: keep_last_all)
next
  case (Cons e es)
  from capture_one [OF Cons.prems(1), of sid e a] obtain s1 where s1:
    "MultiSink_Emit [lift_fst InMemorySink_Emit, lift_snd (SinkFor sid)] e (a, Some s)
      = (None, (a\<lparr>ims_events := ims_events a @ [e]\<rparr>, Some s1))"
    "store_ok s1" "st_capacity s1 = st_capacity s"
    "store_log s1 = (store_log s)(sid := keep_last (nat (st_capacity s)) (store_log s sid @ [e]))"
    by blast
  from Cons.IH [OF s1(2), of "a\<lparr>ims_events := ims_events a @ [e]\<rparr>"] s1 show ?case
    by (auto simp: keep_last_keep_last)
qed

text \<open>
  C18. Events emitted into \<open>NewMultiSink(live, store.SinkFor(sid))\<close> reach the live sink in full,
  and a client that saw them up to the \<open>k\<close>-th, reconnecting with that event's id, gets exactly
  the rest from the store, so that nothing is lost or repeated, as long as the rest is shorter
  than the store's capacity and the id was used once.
\<close>

theorem resume_completes_stream:
  assumes "NewInMemoryEventStore c = Inr s" and "k < length es" and "length es - Suc k < nat c"
    and "ev_ID (es ! k) \<noteq> []" and "filter (\<lambda>e. ev_ID e = ev_ID (es ! k)) es = [es ! k]"
  shows "\<exists>live s'. emit_all (MultiSink_Emit [lift_fst InMemorySink_Emit, lift_snd (SinkFor sid)]) es
        (NewInMemorySink, Some s) = (None, (live, Some s'))
    \<and> InMemorySink_Events live = es
    \<and> (\<exists>rest. Since sid (ev_ID (es ! k)) s' = Some (rest, True, None)
        \<and> take (Suc k) (InMemorySink_Events live) @ rest = es)"
proof -
  let ?pre = "take k es" and ?e = "es ! k" and ?post = "drop (Suc k) es"
  from new_store_ok [OF assms(1)] have s: "store_ok s" "st_capacity s = c" "store_log s = (\<lambda>_. [])"
    by auto
  have es: "es = ?pre @ ?e # ?post" using assms(2) by (rule id_take_nth_drop)
  have "filter (\<lambda>e. ev_ID e = ev_ID ?e) (?pre @ ?e # ?post) = [?e]" using assms(5) es by simp
  then have "filter (\<lambda>e. ev_ID e = ev_ID ?e) ?pre = [] \<and> filter (\<lambda>e. ev_ID e = ev_ID ?e) ?post = []"
    by (simp add: append_eq_Cons_conv)
  then have fresh: "ev_ID ?e \<notin> ev_ID ` set ?pre" "ev_ID ?e \<notin> ev_ID ` set ?post"
    by (auto simp: filter_empty_conv)
  from capture_all [OF s(1), of sid es NewInMemorySink] s(2,3) obtain s' where s':
    "emit_all (MultiSink_Emit [lift_fst InMemorySink_Emit, lift_snd (SinkFor sid)]) es (NewInMemorySink, Some s)
       = (None, (\<lparr>ims_events = es\<rparr>, Some s'))"
    "store_ok s'" "store_log s' sid = keep_last (nat c) es"
    by (auto simp: NewInMemorySink_def)
  have "Since sid (ev_ID ?e) s' = Some (?post, True, None)"
    using Since_log [OF s'(2), of sid "ev_ID ?e"] log_since_kept [OF assms(4) refl fresh, of "nat c"] assms(3)
    by (simp add: s'(3) flip: es)
  with s'(1) show ?thesis by (auto simp: InMemorySink_Events_def)
qed

theorem resume_completes_stream_witness:
  "\<exists>live s'. emit_all (MultiSink_Emit [lift_fst InMemorySink_Emit, lift_snd (SinkFor ''chat'')])
        [\<lparr>ev_ID = ''1'', ev_Event = ''a'', ev_Data = []\<rparr>, \<lparr>ev_ID = ''2'', ev_Event = ''b'', ev_Data = []\<rparr>]
        (NewInMemorySink, Some \<lparr>st_capacity = 2, st_streams = Map.empty\<rparr>) = (None, (live, Some s'))
    \<and> (\<exists>rest. Since ''chat'' ''1'' s' = Some (rest, True, None)
        \<and> take 1 (InMemorySink_Events live) @ rest
          = [\<lparr>ev_ID = ''1'', ev_Event = ''a'', ev_Data = []\<rparr>, \<lparr>ev_ID = ''2'', ev_Event = ''b'', ev_Data = []\<rparr>])"
  using resume_completes_stream [of 2 "\<lparr>st_capacity = 2, st_streams = Map.empty\<rparr>" 0
      "[\<lparr>ev_ID = ''1'', ev_Event = ''a'', ev_Data = []\<rparr>, \<lparr>ev_ID = ''2'', ev_Event = ''b'', ev_Data = []\<rparr>]" "''chat''"]
  by (auto simp: NewInMemoryEventStore_def)

end
