(* ===== verification/Sse_Codec.thy ===== *)
theory Sse_Codec
  imports Store
begin

text \<open>
  \<open>sse/codec.go\<close>: the canonical bytes of an event (\<open>FrameLines\<close>), of a comment and of a retry
  hint, and the field parser. The reference side is \<open>sse_lines\<close>, the lines of a byte string
  under the three terminators of the format, and \<open>frame_lines\<close>, the lines a frame consists
  of; the lemmas show that a frame's bytes split into exactly its lines.
\<close>

section \<open>Framing\<close>

definition fieldNameEvent :: string where "fieldNameEvent = ''event''"
definition fieldNameData :: string where "fieldNameData = ''data''"
definition fieldNameID :: string where "fieldNameID = ''id''"
definition fieldNameRetry :: string where "fieldNameRetry = ''retry''"
definition fieldSeparator :: string where "fieldSeparator = '':''"
definition fieldValuePad :: string where "fieldValuePad = '' ''"
definition commentPrefix :: string where "commentPrefix = fieldSeparator"
definition lineTerminator :: string where "lineTerminator = [LF]"
definition frameTerminator :: string where "frameTerminator = [LF]"

lemmas sse_consts = fieldNameEvent_def fieldNameData_def fieldNameID_def fieldNameRetry_def
  fieldSeparator_def fieldValuePad_def commentPrefix_def lineTerminator_def frameTerminator_def

definition writeField :: "string \<Rightarrow> string \<Rightarrow> string \<Rightarrow> string" where
  "writeField b name v = b @ name @ fieldSeparator @ fieldValuePad @ v @ lineTerminator"

text \<open>\<open>strings.ReplaceAll(s, "\r\n", "\n")\<close>, then the same for a lone CR, then \<open>strings.Split\<close>.\<close>

fun replace_crlf :: "string \<Rightarrow> string" where
  "replace_crlf [] = []"
| "replace_crlf [c] = [c]"
| "replace_crlf (c # d # s) =
     (if c = CR \<and> d = LF then LF # replace_crlf s else c # replace_crlf (d # s))"

definition replace_cr :: "string \<Rightarrow> string" where
  "replace_cr s = map (\<lambda>c. if c = CR then LF else c) s"

fun split_LF :: "string \<Rightarrow> string list" where
  "split_LF [] = [[]]"
| "split_LF (c # s) =
     (if c = LF then [] # split_LF s
      else case split_LF s of [] \<Rightarrow> [[c]] | l # ls \<Rightarrow> (c # l) # ls)"

definition splitPayloadLines :: "string \<Rightarrow> string list" where
  "splitPayloadLines payload =
     (if payload = [] then [[]] else split_LF (replace_cr (replace_crlf payload)))"

definition sanitizeFieldValue :: "string \<Rightarrow> string" where
  "sanitizeFieldValue v =
     (if CR \<notin> set v \<and> LF \<notin> set v \<and> NUL \<notin> set v then v
      else filter (\<lambda>c. c \<noteq> CR \<and> c \<noteq> LF \<and> c \<noteq> NUL) v)"

definition FrameLines :: "event \<Rightarrow> string" where
  "FrameLines ev =
     (let b0 = [];
          b1 = (if ev_ID ev \<noteq> [] then writeField b0 fieldNameID (sanitizeFieldValue (ev_ID ev)) else b0);
          b2 = (if ev_Event ev \<noteq> [] then writeField b1 fieldNameEvent (sanitizeFieldValue (ev_Event ev)) else b1);
          b3 = foldl (\<lambda>b line. writeField b fieldNameData line) b2 (splitPayloadLines (ev_Data ev))
      in b3 @ frameTerminator)"

definition FrameComment :: "string \<Rightarrow> string" where
  "FrameComment t = commentPrefix @ fieldValuePad @ sanitizeFieldValue t @ lineTerminator"

text \<open>A \<open>time.Duration\<close> is its number of nanoseconds; \<open>Milliseconds\<close> divides, truncating.\<close>

definition FrameRetry :: "int \<Rightarrow> string" where
  "FrameRetry d =
     (let ms = max (d sdiv 1000000) 0
      in fieldNameRetry @ fieldSeparator @ fieldValuePad @ int_dec ms @ lineTerminator @ frameTerminator)"

section \<open>Field lines\<close>

definition parseFieldLine :: "string \<Rightarrow> string \<times> string" where
  "parseFieldLine line =
     (let name = takeWhile (\<lambda>c. c \<noteq> CHR '':'') line;
          rest = dropWhile (\<lambda>c. c \<noteq> CHR '':'') line
      in case rest of
           [] \<Rightarrow> (line, [])
         | _ # v \<Rightarrow> (name, case v of c # v' \<Rightarrow> if c = SPC then v' else v | [] \<Rightarrow> v))"

definition isASCIIDigits :: "string \<Rightarrow> bool" where
  "isASCIIDigits s \<longleftrightarrow> s \<noteq> [] \<and> list_all is_digit s"

section \<open>The lines of a stream\<close>

definition is_term :: "char \<Rightarrow> bool" where
  "is_term c \<longleftrightarrow> c = LF \<or> c = CR"

lemma is_term_simps [simp]: "is_term LF" "is_term CR"
  by (simp_all add: is_term_def)

text \<open>What follows the terminator that \<open>s\<close> starts with.\<close>

fun after_term :: "string \<Rightarrow> string" where
  "after_term [] = []"
| "after_term (c # s) = (if c = CR then (case s of d # s' \<Rightarrow> if d = LF then s' else s | [] \<Rightarrow> s) else s)"

definition line_of :: "string \<Rightarrow> string" where
  "line_of s = takeWhile (\<lambda>c. \<not> is_term c) s"

definition after_line :: "string \<Rightarrow> string" where
  "after_line s = after_term (dropWhile (\<lambda>c. \<not> is_term c) s)"

lemma length_after_term: "s \<noteq> [] \<Longrightarrow> length (after_term s) < length s"
  by (cases s) (auto split: list.splits)

lemma length_after_line: "s \<noteq> [] \<Longrightarrow> length (after_line s) < length s"
proof -
  assume s: "s \<noteq> []"
  show ?thesis
  proof (cases "dropWhile (\<lambda>c. \<not> is_term c) s = []")
    case True
    then have "after_line s = []" unfolding after_line_def by (simp only: after_term.simps)
    with s show ?thesis by simp
  next
    case False
    from length_after_term [OF False] length_dropWhile_le [of "\<lambda>c. \<not> is_term c" s]
    show ?thesis unfolding after_line_def by linarith
  qed
qed

function sse_lines :: "string \<Rightarrow> string list" where
  "sse_lines s = (if s = [] then [] else line_of s # sse_lines (after_line s))"
  by pat_completeness auto
termination by (relation "measure length") (use length_after_line in auto)

declare sse_lines.simps [simp del]

lemma sse_lines_Nil [simp]: "sse_lines [] = []"
  by (simp add: sse_lines.simps)

text \<open>A line with no terminator in it, ended by LF, is split off.\<close>

definition plain :: "string \<Rightarrow> bool" where
  "plain l \<longleftrightarrow> LF \<notin> set l \<and> CR \<notin> set l"

lemma plain_simps [simp]:
  "plain []" "plain (c # l) \<longleftrightarrow> c \<noteq> LF \<and> c \<noteq> CR \<and> plain l"
  "plain (l @ m) \<longleftrightarrow> plain l \<and> plain m"
  by (auto simp: plain_def)

lemma plain_is_term: "plain l \<longleftrightarrow> (\<forall>c \<in> set l. \<not> is_term c)"
  by (auto simp: plain_def is_term_def)

lemma takeWhile_plain: "plain l \<Longrightarrow> is_term c \<Longrightarrow> takeWhile (\<lambda>c. \<not> is_term c) (l @ c # s) = l
    \<and> dropWhile (\<lambda>c. \<not> is_term c) (l @ c # s) = c # s"
  by (induction l) (auto simp: plain_is_term)

lemma sse_lines_plain: "plain l \<Longrightarrow> sse_lines (l @ LF # s) = l # sse_lines s"
  using takeWhile_plain [of l LF s]
  by (simp add: sse_lines.simps [of "l @ LF # s"] line_of_def after_line_def)

lemma sse_lines_concat:
  "list_all plain ls \<Longrightarrow> sse_lines (concat (map (\<lambda>l. l @ [LF]) ls) @ s) = ls @ sse_lines s"
  by (induction ls) (simp_all add: sse_lines_plain)

lemma sse_lines_unfinished: "plain l \<Longrightarrow> l \<noteq> [] \<Longrightarrow> sse_lines l = [l]"
proof -
  assume l: "plain l" "l \<noteq> []"
  then have "takeWhile (\<lambda>c. \<not> is_term c) l = l" "dropWhile (\<lambda>c. \<not> is_term c) l = []"
    by (auto simp: plain_is_term takeWhile_eq_all_conv)
  then have "line_of l = l" "after_line l = []"
    by (simp_all only: line_of_def after_line_def after_term.simps)
  with l show ?thesis by (simp add: sse_lines.simps [of l])
qed

section \<open>The lines of a frame\<close>

definition field :: "string \<Rightarrow> string \<Rightarrow> string" where
  "field name v = name @ '': '' @ v"

definition normalize :: "string \<Rightarrow> string" where
  "normalize s = replace_cr (replace_crlf s)"

definition frame_lines :: "event \<Rightarrow> string list" where
  "frame_lines ev =
     (if ev_ID ev \<noteq> [] then [field ''id'' (sanitizeFieldValue (ev_ID ev))] else [])
     @ (if ev_Event ev \<noteq> [] then [field ''event'' (sanitizeFieldValue (ev_Event ev))] else [])
     @ map (field ''data'') (split_LF (normalize (ev_Data ev))) @ [[]]"

lemma split_payload: "splitPayloadLines p = split_LF (normalize p)"
  by (simp add: splitPayloadLines_def normalize_def replace_cr_def)

lemma writeField_eq: "writeField b n v = b @ field n v @ [LF]"
  by (simp add: writeField_def field_def sse_consts)

lemma foldl_writeField:
  "foldl (\<lambda>b l. writeField b n l) b ls = b @ concat (map (\<lambda>l. l @ [LF]) (map (field n) ls))"
  by (induction ls arbitrary: b) (simp_all add: writeField_eq)

lemma FrameLines_lines: "FrameLines ev = concat (map (\<lambda>l. l @ [LF]) (frame_lines ev))"
  unfolding FrameLines_def Let_def foldl_writeField split_payload frame_lines_def
  by (simp add: writeField_eq sse_consts)

lemma FrameComment_lines: "FrameComment t = field [] (sanitizeFieldValue t) @ [LF]"
  by (simp add: FrameComment_def field_def sse_consts)

lemma FrameRetry_lines:
  "FrameRetry d = concat (map (\<lambda>l. l @ [LF]) [field ''retry'' (int_dec (max (d sdiv 1000000) 0)), []])"
  by (simp add: FrameRetry_def field_def sse_consts)

lemma sanitize_eq: "sanitizeFieldValue v = filter (\<lambda>c. c \<noteq> CR \<and> c \<noteq> LF \<and> c \<noteq> NUL) v"
  by (auto simp: sanitizeFieldValue_def intro!: filter_True [symmetric])

lemma sanitize_plain [simp]: "plain (sanitizeFieldValue v)"
  by (auto simp: sanitize_eq plain_def)

lemma sanitize_NUL [simp]: "NUL \<notin> set (sanitizeFieldValue v)"
  by (auto simp: sanitize_eq)

lemma sanitize_id: "\<lbrakk>plain v; NUL \<notin> set v\<rbrakk> \<Longrightarrow> sanitizeFieldValue v = v"
  by (auto simp: sanitizeFieldValue_def plain_def)

lemma split_LF_plain: "CR \<notin> set s \<Longrightarrow> list_all plain (split_LF s)"
  by (induction s) (auto split: list.splits)

lemma split_LF_Cons: obtains l ls where "split_LF s = l # ls"
proof -
  have "split_LF s \<noteq> []" by (cases s) (simp_all split: list.split)
  with that show ?thesis by (auto simp: neq_Nil_conv)
qed

lemma join_split_LF: "concat (map (\<lambda>l. l @ [LF]) (split_LF s)) = s @ [LF]"
proof (induction s)
  case (Cons c s)
  show ?case by (rule split_LF_Cons [of s]) (use Cons in auto)
qed simp

lemma normalize_no_CR: "CR \<notin> set (normalize s)"
  by (auto simp: normalize_def replace_cr_def)

lemma normalize_id: "CR \<notin> set s \<Longrightarrow> normalize s = s"
proof -
  assume s: "CR \<notin> set s"
  then have "replace_crlf s = s" by (induction s rule: replace_crlf.induct) auto
  with s show ?thesis by (auto simp: normalize_def replace_cr_def intro!: map_idI)
qed

lemma is_digit_plain: "list_all is_digit s \<Longrightarrow> plain s"
  by (induction s) (auto simp: is_digit_def)

lemma nat_int_dec: "0 \<le> i \<Longrightarrow> int_dec i = nat_dec (nat i)"
  by (simp add: int_dec_def)

lemma frame_lines_plain: "list_all plain (frame_lines ev)"
  using split_LF_plain [OF normalize_no_CR, of "ev_Data ev"]
  by (auto simp: frame_lines_def field_def list_all_iff)

text \<open>
  C27. The bytes \<open>FrameLines\<close> writes for an event are, whatever its id, type and payload, split
  by the format's three line terminators into exactly the event's field lines and one blank
  line: the frame has one event terminator, at its end, and whatever follows it on the wire
  is read unchanged.
\<close>

theorem frame_splits_into_its_lines:
  "sse_lines (FrameLines ev @ s) = frame_lines ev @ sse_lines s
   \<and> filter (\<lambda>l. l = []) (frame_lines ev) = [[]] \<and> last (frame_lines ev) = []"
proof -
  have "filter (\<lambda>l. l = []) (map (field ''data'') ls) = []" for ls
    by (induction ls) (simp_all add: field_def)
  then show ?thesis
    using sse_lines_concat [OF frame_lines_plain, of ev s]
    by (simp add: FrameLines_lines) (simp add: frame_lines_def field_def)
qed

text \<open>A field line is read back as the field it was written from.\<close>

lemma parse_field:
  assumes "CHR '':'' \<notin> set name"
  shows "parseFieldLine (field name v) = (name, v)"
proof -
  have "takeWhile (\<lambda>c. c \<noteq> CHR '':'') (name @ CHR '':'' # s) = name
      \<and> dropWhile (\<lambda>c. c \<noteq> CHR '':'') (name @ CHR '':'' # s) = CHR '':'' # s" for s
    using assms by (induction name) auto
  from this [of "SPC # v"] show ?thesis by (simp add: parseFieldLine_def field_def)
qed

end
