(* ===== verification/Sse_Scanner.thy ===== *)
theory Sse_Scanner
  imports Sse_Codec
begin

text \<open>
  The line scanner under \<open>sse/source.go\<close>: the repository's split function \<open>scanFrameLines\<close>,
  and the \<open>bufio.Scanner\<close> of the standard library it is handed to, with the fixed buffer of
  \<open>maxLineSize\<close> bytes that \<open>NewSource\<close> gives it. The \<open>io.Reader\<close> is a function from the
  space left in the buffer and the reader's state to the bytes read, an error, and the next
  state; its documented contract is the locale \<open>byte_reader\<close>. The lemmas show that the
  scanner hands out \<open>sse_lines\<close> of the reader's bytes however these arrive in chunks.
\<close>

section \<open>The split function\<close>

definition maxLineSize :: nat where
  "maxLineSize = 1024 * 1024"

definition scanAtCarriageReturn :: "string \<Rightarrow> nat \<Rightarrow> bool \<Rightarrow> nat \<times> string option" where
  "scanAtCarriageReturn data i atEOF =
     (let atBufferEnd = (i + 1 = length data)
      in if atBufferEnd \<and> \<not> atEOF then (0, None)
         else if \<not> atBufferEnd \<and> data ! (i + 1) = LF then (i + 2, Some (take i data))
         else (i + 1, Some (take i data)))"

function scan_from :: "string \<Rightarrow> bool \<Rightarrow> nat \<Rightarrow> nat \<times> string option" where
  "scan_from data atEOF i =
     (if length data \<le> i then (if atEOF then (length data, Some data) else (0, None))
      else if data ! i = LF then (i + 1, Some (take i data))
      else if data ! i = CR then scanAtCarriageReturn data i atEOF
      else scan_from data atEOF (i + 1))"
  by pat_completeness auto
termination by (relation "measure (\<lambda>(data, _, i). length data - i)") auto

declare scan_from.simps [simp del]

definition scanFrameLines :: "string \<Rightarrow> bool \<Rightarrow> nat \<times> string option" where
  "scanFrameLines data atEOF =
     (if atEOF \<and> data = [] then (0, None) else scan_from data atEOF 0)"

section \<open>bufio.Scanner\<close>

type_synonym 'r reader = "nat \<Rightarrow> 'r \<Rightarrow> (string \<times> goerr option) \<times> 'r"

definition io_EOF :: goerr where
  "io_EOF = ErrOther ''EOF''"

definition ErrBadReadCount :: goerr where
  "ErrBadReadCount = ErrOther ''bufio.Scanner: Read returned impossible count''"

text \<open>\<open>sc_pend\<close> is \<open>buf[start:end]\<close>; the buffer itself has \<open>maxLineSize\<close> bytes.\<close>

record 'r scanner =
  sc_reader :: 'r
  sc_start :: nat
  sc_pend :: string
  sc_err :: "goerr option"

definition NewScanner :: "'r \<Rightarrow> 'r scanner" where
  "NewScanner r = \<lparr>sc_reader = r, sc_start = 0, sc_pend = [], sc_err = None\<rparr>"

text \<open>The read loop: at most 101 reads in a row that return nothing.\<close>

fun read_loop :: "'r reader \<Rightarrow> nat \<Rightarrow> nat \<Rightarrow> 'r \<Rightarrow> (string \<times> goerr option) \<times> 'r" where
  "read_loop rd 0 space r = (([], Some ErrNoProgress), r)"
| "read_loop rd (Suc tries) space r =
     (case rd space r of ((bs, e), r') \<Rightarrow>
        if space < length bs then (([], Some ErrBadReadCount), r')
        else case e of
            Some x \<Rightarrow> ((bs, Some x), r')
          | None \<Rightarrow> if bs \<noteq> [] then ((bs, None), r') else read_loop rd tries space r')"

definition shift_start :: "'r scanner \<Rightarrow> nat" where
  "shift_start s =
     (let endp = sc_start s + length (sc_pend s)
      in if 0 < sc_start s \<and> (endp = maxLineSize \<or> maxLineSize div 2 < sc_start s) then 0
         else sc_start s)"

definition fill :: "'r reader \<Rightarrow> 'r scanner \<Rightarrow> 'r scanner" where
  "fill rd s =
     (let space = maxLineSize - (sc_start s + length (sc_pend s))
      in case read_loop rd 101 space (sc_reader s) of
           ((bs, e), r) \<Rightarrow> s\<lparr>sc_reader := r, sc_pend := sc_pend s @ bs, sc_err := e\<rparr>)"

text \<open>
  \<open>Scan\<close>: a token, or \<open>None\<close> for the result \<open>false\<close>. The split function is tried on what is
  pending (\<open>try_split\<close>), and again after each read.
\<close>

definition try_split :: "'r scanner \<Rightarrow> nat \<times> string option" where
  "try_split s =
     (if sc_pend s \<noteq> [] \<or> sc_err s \<noteq> None then scanFrameLines (sc_pend s) (sc_err s \<noteq> None)
      else (0, None))"

function Scan :: "'r reader \<Rightarrow> 'r scanner \<Rightarrow> string option \<times> 'r scanner" where
  "Scan rd s =
     (case try_split s of
        (n, Some token) \<Rightarrow> (Some token, s\<lparr>sc_start := sc_start s + n, sc_pend := drop n (sc_pend s)\<rparr>)
      | (_, None) \<Rightarrow>
          (if sc_err s \<noteq> None then (None, s\<lparr>sc_start := 0, sc_pend := []\<rparr>)
           else let s1 = s\<lparr>sc_start := shift_start s\<rparr>
             in if sc_start s1 + length (sc_pend s1) = maxLineSize
                then (None, s1\<lparr>sc_err := Some ErrTooLong\<rparr>)
                else Scan rd (fill rd s1)))"
  by pat_completeness auto

lemma read_loop_result:
  assumes "read_loop rd tries space r = ((bs, e), r')"
  shows "length bs \<le> space" and "e = None \<Longrightarrow> bs \<noteq> []"
proof -
  have "length bs \<le> space \<and> (e = None \<longrightarrow> bs \<noteq> [])"
    using assms
    by (induction rd tries space r rule: read_loop.induct) (auto split: prod.splits option.splits if_splits)
  then show "length bs \<le> space" "e = None \<Longrightarrow> bs \<noteq> []" by auto
qed

lemma scan_from_None: "snd (scan_from data atEOF i) = None \<Longrightarrow> fst (scan_from data atEOF i) = 0"
proof (induction data atEOF i rule: scan_from.induct)
  case (1 data atEOF i)
  then show ?case
    by (auto simp: scan_from.simps [of data atEOF i] scanAtCarriageReturn_def Let_def split: if_splits)
qed

lemma scanFrameLines_None: "snd (scanFrameLines data atEOF) = None \<Longrightarrow> fst (scanFrameLines data atEOF) = 0"
  using scan_from_None by (auto simp: scanFrameLines_def)

definition scan_measure :: "'r scanner \<Rightarrow> nat" where
  "scan_measure s = (if sc_err s \<noteq> None then 0 else Suc (maxLineSize - length (sc_pend s)))"

lemma fill_measure:
  assumes "sc_err s = None"
  shows "scan_measure (fill rd (s\<lparr>sc_start := n\<rparr>)) < scan_measure s"
proof -
  obtain bs e r where r: "read_loop rd 101 (maxLineSize - (n + length (sc_pend s))) (sc_reader s)
      = ((bs, e), r)" by (metis prod.exhaust)
  show ?thesis
  proof (cases e)
    case None
    with read_loop_result [OF r] have "0 < length bs"
      "length bs \<le> maxLineSize - (n + length (sc_pend s))" by auto
    then have "maxLineSize - (length (sc_pend s) + length bs) < maxLineSize - length (sc_pend s)"
      by arith
    with None r assms show ?thesis by (simp add: scan_measure_def fill_def)
  next
    case (Some x)
    with r assms show ?thesis by (simp add: scan_measure_def fill_def)
  qed
qed

termination Scan
  by (relation "measure (\<lambda>(rd, s). scan_measure s)") (auto intro: fill_measure)

declare Scan.simps [simp del]

lemma Scan_token:
  "try_split s = (n, Some t)
    \<Longrightarrow> Scan rd s = (Some t, s\<lparr>sc_start := sc_start s + n, sc_pend := drop n (sc_pend s)\<rparr>)"
  by (simp add: Scan.simps)

lemma Scan_stop:
  "\<lbrakk>snd (try_split s) = None; sc_err s \<noteq> None\<rbrakk> \<Longrightarrow> Scan rd s = (None, s\<lparr>sc_start := 0, sc_pend := []\<rparr>)"
  by (cases "try_split s") (auto simp: Scan.simps [of rd s])

lemma Scan_full:
  "\<lbrakk>snd (try_split s) = None; sc_err s = None; shift_start s + length (sc_pend s) = maxLineSize\<rbrakk>
    \<Longrightarrow> Scan rd s = (None, s\<lparr>sc_start := shift_start s, sc_err := Some ErrTooLong\<rparr>)"
  by (cases "try_split s") (auto simp: Scan.simps [of rd s])

lemma Scan_more:
  "\<lbrakk>snd (try_split s) = None; sc_err s = None; shift_start s + length (sc_pend s) \<noteq> maxLineSize\<rbrakk>
    \<Longrightarrow> Scan rd s = Scan rd (fill rd (s\<lparr>sc_start := shift_start s\<rparr>))"
  by (cases "try_split s") (auto simp: Scan.simps [of rd s])

section \<open>The split function finds the first line\<close>

lemma line_split: "s = line_of s @ dropWhile (\<lambda>c. \<not> is_term c) s"
  by (simp add: line_of_def)

lemma line_of_nth: "i < length (line_of s) \<Longrightarrow> s ! i \<noteq> LF \<and> s ! i \<noteq> CR"
  unfolding line_of_def using nth_mem [of i "takeWhile (\<lambda>c. \<not> is_term c) s"]
  by (auto simp: takeWhile_nth dest: set_takeWhileD)

lemma length_line_of: "length (line_of s) \<le> length s"
  by (simp add: line_of_def length_takeWhile_le)

lemma scan_from_line:
  "i \<le> length (line_of p) \<Longrightarrow> scan_from p eof i = scan_from p eof (length (line_of p))"
proof (induction p eof i rule: scan_from.induct)
  case (1 p eof i)
  show ?case
  proof (cases "i = length (line_of p)")
    case False
    with 1 line_of_nth [of i p] length_line_of [of p] show ?thesis
      by (simp add: scan_from.simps [of p eof i])
  qed simp
qed

text \<open>What the split function answers, by the shape of the data.\<close>

lemma scanFrameLines_cases:
  assumes "p \<noteq> [] \<or> \<not> eof" and "dropWhile (\<lambda>c. \<not> is_term c) p = q"
  shows "scanFrameLines p eof =
    (case q of
       [] \<Rightarrow> if eof then (length p, Some p) else (0, None)
     | c # q' \<Rightarrow> if q = [CR] \<and> \<not> eof then (0, None)
               else (length p - length (after_term q), Some (line_of p)))"
proof -
  let ?l = "line_of p"
  have p: "p = ?l @ q" using line_split [of p] assms(2) by simp
  have scan: "scanFrameLines p eof = scan_from p eof (length ?l)"
    using assms(1) scan_from_line [of 0 p eof] by (auto simp: scanFrameLines_def)
  show ?thesis
  proof (cases q)
    case Nil
    with p have "length ?l = length p" by (metis append_Nil2)
    with Nil show ?thesis by (simp add: scan scan_from.simps [of p eof "length p"])
  next
    case (Cons c q')
    have c: "c = LF \<or> c = CR"
      using assms(2) Cons by (metis dropWhile_eq_Cons_conv is_term_def)
    obtain l where l: "l = ?l" by simp
    have p': "p = l @ c # q'" using p Cons l by simp
    have at: "p ! length l = c" "length l < length p" "take (length l) p = l"
        "length p = length l + Suc (length q')"
      by (simp_all add: p')
    have next_nth: "p ! Suc (length l) = d" if "q' = d # q''" for d q''
      by (simp add: p' nth_append that)
    show ?thesis
    proof (cases "c = LF")
      case True
      with at Cons show ?thesis
        unfolding scan l [symmetric] by (simp add: scan_from.simps [of p eof "length l"])
    next
      case False
      then have "c = CR" using c by simp
      with at Cons next_nth show ?thesis
        unfolding scan l [symmetric]
        by (cases q') (auto simp: scan_from.simps [of p eof "length l"] scanAtCarriageReturn_def Let_def)
    qed
  qed
qed

lemma scan_token:
  assumes "scanFrameLines p eof = (n, Some t)" and "p \<noteq> [] \<or> \<not> eof" and "eof \<Longrightarrow> rest = []"
  shows "t = line_of (p @ rest) \<and> drop n p @ rest = after_line (p @ rest) \<and> p \<noteq> [] \<and> n \<le> length p"
proof -
  define q where "q = dropWhile (\<lambda>c. \<not> is_term c) p"
  have p: "p = line_of p @ q" using line_split [of p] by (simp add: q_def)
  note scan = scanFrameLines_cases [OF assms(2) q_def [symmetric]]
  show ?thesis
  proof (cases q)
    case Nil
    with scan assms have *: "eof" "t = p" "n = length p" "rest = []" "p \<noteq> []"
      by (auto split: if_splits)
    from Nil p have "line_of p = p" by simp
    moreover have "after_line p = []" using Nil by (simp only: after_line_def after_term.simps flip: q_def)
    ultimately show ?thesis using * by simp
  next
    case (Cons c q')
    have app: "line_of (p @ rest) = line_of p" "dropWhile (\<lambda>c. \<not> is_term c) (p @ rest) = q @ rest"
      using Cons unfolding q_def line_of_def
      by (metis dropWhile_eq_Nil_conv list.distinct(1) takeWhile_append1,
          metis dropWhile_eq_Nil_conv list.distinct(1) dropWhile_append1)
    have t: "t = line_of p" "n = length p - length (after_term q)" "\<not> (q = [CR] \<and> \<not> eof)"
      using scan assms(1) Cons by (auto split: if_splits)
    obtain k where k: "after_term q = drop k q" "k \<le> length q" "0 < k"
    proof
      show "after_term q = drop (length q - length (after_term q)) q"
        using Cons by (auto split: list.splits if_splits)
    qed (use Cons length_after_term [of q] in auto)
    have "after_term (q @ rest) = after_term q @ rest"
      using t(3) Cons assms(3) by (cases q') auto
    moreover have "drop n p = after_term q"
    proof -
      have "n = length (line_of p) + k" using k t(2) p by (metis length_drop length_append diff_diff_cancel
            Nat.diff_add_assoc diff_le_self)
      then have "drop n p = drop k q" using p by (metis append_eq_conv_conj drop_drop add.commute)
      with k show ?thesis by simp
    qed
    ultimately show ?thesis using app t p Cons by (auto simp: after_line_def)
  qed
qed

lemma scan_no_token:
  assumes "snd (scanFrameLines p False) = None"
  shows "length p \<le> Suc (length (line_of (p @ rest)))"
proof -
  define q where "q = dropWhile (\<lambda>c. \<not> is_term c) p"
  have p: "p = line_of p @ q" using line_split [of p] by (simp add: q_def)
  have "q = [] \<or> q = [CR]"
    using scanFrameLines_cases [of p False, OF _ q_def [symmetric]] assms
    by (auto split: list.splits if_splits)
  then have "length p \<le> Suc (length (line_of p))" using p by (metis length_append length_Cons
        list.size(3) add.right_neutral le_SucI order_refl add_Suc_right)
  moreover have "length (line_of p) \<le> length (line_of (p @ rest))"
    unfolding line_of_def by (induction p) auto
  ultimately show ?thesis by linarith
qed

section \<open>The reader's contract\<close>

text \<open>
  A reader has some bytes to deliver, its \<open>content\<close>, and then fails for good with the error
  \<open>fin\<close>, which is \<open>io.EOF\<close> for a stream that ends cleanly. A read into a non-empty buffer
  delivers at least one byte or that error; it may deliver both at once.
\<close>

locale byte_reader =
  fixes rd :: "'r reader" and content :: "'r \<Rightarrow> string" and fin :: goerr and rok :: "'r \<Rightarrow> bool"
  assumes read_ok: "\<lbrakk>rok r; 0 < n; rd n r = ((bs, e), r')\<rbrakk>
    \<Longrightarrow> rok r' \<and> length bs \<le> n \<and> content r = bs @ content r'
      \<and> (e = None \<and> bs \<noteq> [] \<or> e = Some fin \<and> content r' = [])"
begin

definition sc_ok :: "'r scanner \<Rightarrow> bool" where
  "sc_ok s \<longleftrightarrow> rok (sc_reader s) \<and> sc_start s + length (sc_pend s) \<le> maxLineSize
     \<and> (sc_err s = None \<or> sc_err s = Some fin \<and> content (sc_reader s) = [])"

text \<open>The bytes still to be scanned.\<close>

definition sc_data :: "'r scanner \<Rightarrow> string" where
  "sc_data s = sc_pend s @ content (sc_reader s)"

lemma read_loop_once:
  assumes "0 < tries" and "rd n r = ((bs, e), r')" and "length bs \<le> n" and "e \<noteq> None \<or> bs \<noteq> []"
  shows "read_loop rd tries n r = ((bs, e), r')"
  using assms by (cases tries) (auto split: option.splits)

lemma fill_ok:
  assumes "sc_ok s" and "sc_err s = None" and "sc_start s + length (sc_pend s) < maxLineSize"
  shows "sc_ok (fill rd s) \<and> sc_data (fill rd s) = sc_data s"
proof -
  let ?n = "maxLineSize - (sc_start s + length (sc_pend s))"
  obtain bs e r where r: "rd ?n (sc_reader s) = ((bs, e), r)" by (metis prod.exhaust)
  from read_ok [OF _ _ r] assms have ok: "rok r" "length bs \<le> ?n" "content (sc_reader s) = bs @ content r"
    "e = None \<and> bs \<noteq> [] \<or> e = Some fin \<and> content r = []"
    by (auto simp: sc_ok_def)
  have "read_loop rd 101 ?n (sc_reader s) = ((bs, e), r)"
    using r ok(2,4) by (intro read_loop_once) auto
  then have "fill rd s = s\<lparr>sc_reader := r, sc_pend := sc_pend s @ bs, sc_err := e\<rparr>"
    by (simp add: fill_def)
  with ok assms(3) show ?thesis by (auto simp: sc_ok_def sc_data_def)
qed

lemma shift_ok:
  assumes "sc_ok s"
  shows "sc_ok (s\<lparr>sc_start := shift_start s\<rparr>)
    \<and> (shift_start s + length (sc_pend s) = maxLineSize \<longrightarrow> length (sc_pend s) = maxLineSize)"
  using assms by (auto simp: shift_start_def sc_ok_def Let_def)

text \<open>One call of \<open>Scan\<close>: the first line of the remaining bytes, if it fits the buffer.\<close>

lemma try_split_ok:
  assumes "sc_ok s" and "sc_data s \<noteq> []"
  shows "case try_split s of
      (n, Some t) \<Rightarrow> t = line_of (sc_data s) \<and> n \<le> length (sc_pend s)
        \<and> drop n (sc_pend s) @ content (sc_reader s) = after_line (sc_data s)
    | (_, None) \<Rightarrow> sc_err s = None \<and> length (sc_pend s) \<le> Suc (length (line_of (sc_data s)))"
proof -
  let ?p = "sc_pend s" and ?eof = "sc_err s \<noteq> None"
  have eof: "?eof \<Longrightarrow> content (sc_reader s) = []" using assms(1) by (auto simp: sc_ok_def)
  then have p: "?eof \<Longrightarrow> ?p \<noteq> []" using assms(2) by (auto simp: sc_data_def)
  obtain n r where nr: "try_split s = (n, r)" by fastforce
  show ?thesis
  proof (cases r)
    case (Some t)
    with nr have t: "scanFrameLines ?p ?eof = (n, Some t)" by (auto simp: try_split_def split: if_splits)
    have "?p \<noteq> [] \<or> \<not> ?eof" using p by blast
    from scan_token [OF t this eof] nr Some show ?thesis by (simp add: sc_data_def)
  next
    case None
    have err: "sc_err s = None"
    proof (rule ccontr)
      assume e: "sc_err s \<noteq> None"
      with p have "?p \<noteq> []" by blast
      with e nr None scanFrameLines_cases [of ?p ?eof, OF _ refl] show False
        by (auto simp: try_split_def split: list.splits if_splits)
    qed
    moreover have "length ?p \<le> Suc (length (line_of (sc_data s)))"
    proof (cases "?p = []")
      case False
      with nr None err have "snd (scanFrameLines ?p False) = None" by (simp add: try_split_def)
      from scan_no_token [OF this] show ?thesis by (simp add: sc_data_def)
    qed simp
    ultimately show ?thesis using nr None by simp
  qed
qed

lemma Scan_line:
  "\<lbrakk>sc_ok s; sc_data s \<noteq> []; length (line_of (sc_data s)) + 2 \<le> maxLineSize\<rbrakk>
   \<Longrightarrow> \<exists>s'. Scan rd s = (Some (line_of (sc_data s)), s') \<and> sc_ok s' \<and> sc_data s' = after_line (sc_data s)"
proof (induction s rule: measure_induct_rule [of scan_measure])
  case (less s)
  note tried = try_split_ok [OF less.prems(1,2)]
  obtain n r where nr: "try_split s = (n, r)" by fastforce
  show ?case
  proof (cases r)
    case (Some t)
    with Scan_token nr have "Scan rd s
        = (Some t, s\<lparr>sc_start := sc_start s + n, sc_pend := drop n (sc_pend s)\<rparr>)" by blast
    with tried nr Some less.prems(1) show ?thesis by (auto simp: sc_ok_def sc_data_def)
  next
    case None
    with tried nr have err: "sc_err s = None" and short: "length (sc_pend s) < maxLineSize"
      using less.prems(3) by auto
    let ?s2 = "s\<lparr>sc_start := shift_start s\<rparr>"
    from shift_ok [OF less.prems(1)] short have s2: "sc_ok ?s2"
      "shift_start s + length (sc_pend s) \<noteq> maxLineSize" by auto
    then have f: "sc_ok (fill rd ?s2)" "sc_data (fill rd ?s2) = sc_data s"
      using fill_ok [OF s2(1)] err by (auto simp: sc_ok_def sc_data_def)
    from less.IH [OF fill_measure [OF err] f(1)] f(2) less.prems
    have "\<exists>s'. Scan rd (fill rd ?s2) = (Some (line_of (sc_data s)), s') \<and> sc_ok s'
        \<and> sc_data s' = after_line (sc_data s)" by simp
    moreover have "Scan rd s = Scan rd (fill rd ?s2)" using Scan_more [OF _ err s2(2), of rd] nr None by simp
    ultimately show ?thesis by simp
  qed
qed

lemma try_split_Nil: "sc_data s = [] \<Longrightarrow> try_split s = (0, None)"
  by (simp add: try_split_def sc_data_def scanFrameLines_def)

lemma Scan_end:
  "\<lbrakk>sc_ok s; sc_data s = []\<rbrakk>
   \<Longrightarrow> \<exists>s'. Scan rd s = (None, s') \<and> sc_err s' = Some fin \<and> sc_ok s' \<and> sc_data s' = []"
proof (induction s rule: measure_induct_rule [of scan_measure])
  case (less s)
  note tried = try_split_Nil [OF less.prems(2)]
  have pend: "sc_pend s = []" "content (sc_reader s) = []" using less.prems(2) by (auto simp: sc_data_def)
  show ?case
  proof (cases "sc_err s")
    case (Some e)
    with Scan_stop [of s rd] tried less.prems pend show ?thesis by (auto simp: sc_ok_def sc_data_def)
  next
    case None
    let ?s2 = "s\<lparr>sc_start := shift_start s\<rparr>"
    from shift_ok [OF less.prems(1)] pend have s2: "sc_ok ?s2"
      "shift_start s + length (sc_pend s) \<noteq> maxLineSize" by (auto simp: maxLineSize_def)
    then have f: "sc_ok (fill rd ?s2)" "sc_data (fill rd ?s2) = []"
      using fill_ok [OF s2(1)] None less.prems(2) by (auto simp: sc_ok_def sc_data_def)
    from less.IH [OF fill_measure [OF None] f] Scan_more [OF _ None s2(2), of rd] tried
    show ?thesis by simp
  qed
qed

text \<open>A first line that does not fit: the scanner gives up with \<open>ErrTooLong\<close>.\<close>

lemma Scan_too_long:
  "\<lbrakk>sc_ok s; sc_err s = None; maxLineSize < length (line_of (sc_data s))\<rbrakk>
   \<Longrightarrow> \<exists>s'. Scan rd s = (None, s') \<and> sc_err s' = Some ErrTooLong"
proof (induction s rule: measure_induct_rule [of scan_measure])
  case (less s)
  have data: "sc_data s \<noteq> []" using less.prems(3) by (auto simp: line_of_def maxLineSize_def)
  note tried = try_split_ok [OF less.prems(1) data]
  obtain n r where nr: "try_split s = (n, r)" by fastforce
  have "r = None"
  proof (rule ccontr)
    assume "r \<noteq> None"
    then obtain t where t: "r = Some t" by blast
    with nr less.prems(2) have "scanFrameLines (sc_pend s) False = (n, Some t)"
      by (auto simp: try_split_def split: if_splits)
    moreover have "length (sc_pend s) \<le> maxLineSize" using less.prems(1) by (simp add: sc_ok_def)
    moreover have "t = line_of (sc_pend s)"
      using scanFrameLines_cases [of "sc_pend s" False, OF _ refl] \<open>scanFrameLines _ _ = _\<close>
      by (auto split: list.splits if_splits)
    then have "length t \<le> length (sc_pend s)" using length_line_of by simp
    moreover have "t = line_of (sc_data s)" using tried nr t by simp
    ultimately show False using less.prems(3) by simp
  qed
  with nr have none: "snd (try_split s) = None" by simp
  let ?s2 = "s\<lparr>sc_start := shift_start s\<rparr>"
  show ?case
  proof (cases "shift_start s + length (sc_pend s) = maxLineSize")
    case True
    from Scan_full [OF none less.prems(2) True] show ?thesis by simp
  next
    case False
    from shift_ok [OF less.prems(1)] have s2: "sc_ok ?s2" by simp
    then have f: "sc_ok (fill rd ?s2)" "sc_data (fill rd ?s2) = sc_data s"
      using fill_ok [OF s2] False less.prems(2) by (auto simp: sc_ok_def sc_data_def)
    show ?thesis
    proof (cases "sc_err (fill rd ?s2)")
      case None
      from less.IH [OF fill_measure [OF less.prems(2)] f(1) None] f(2) less.prems(3)
        Scan_more [OF none less.prems(2) False, of rd] show ?thesis by simp
    next
      case (Some e)
      with f have "length (sc_data s) \<le> maxLineSize" by (auto simp: sc_ok_def sc_data_def)
      with less.prems(3) length_line_of [of "sc_data s"] show ?thesis by simp
    qed
  qed
qed

end

end
