(* ===== verification/Sse_Source.thy ===== *)
theory Sse_Source
  imports Sse_Scanner
begin

text \<open>
  \<open>sse/source.go\<close>: the \<open>Source\<close>, its line handling and \<open>Next\<close>. The reference side is
  \<open>run_lines\<close>, the parser as a machine over a list of lines; \<open>Next\<close> is shown to deliver what
  the machine does on \<open>sse_lines\<close> of the reader's bytes. What the code logs is not modelled.
\<close>

section \<open>The parser\<close>

definition utf8BOM :: string where
  "utf8BOM = [CHR 0xEF, CHR 0xBB, CHR 0xBF]"

text \<open>The parser's part of the \<open>Source\<close>; \<open>pa_retry\<close> is in nanoseconds.\<close>

record parser =
  pa_dataBuf :: string
  pa_eventType :: string
  pa_lastEventID :: string
  pa_retry :: int
  pa_bomChecked :: bool

record 'r SseSource =
  so_scanner :: "'r scanner"
  so_parser :: parser

definition new_parser :: parser where
  "new_parser = \<lparr>pa_dataBuf = [], pa_eventType = [], pa_lastEventID = [], pa_retry = 0, pa_bomChecked = False\<rparr>"

definition NewSource :: "'r \<Rightarrow> 'r SseSource" where
  "NewSource r = \<lparr>so_scanner = NewScanner r, so_parser = new_parser\<rparr>"

definition LastEventID :: "'r SseSource \<Rightarrow> string" where
  "LastEventID s = pa_lastEventID (so_parser s)"

definition Retry :: "'r SseSource \<Rightarrow> int" where
  "Retry s = pa_retry (so_parser s)"

text \<open>64-bit multiplication wraps.\<close>

definition wrap64 :: "int \<Rightarrow> int" where
  "wrap64 i = (i + 2 ^ 63) mod 2 ^ 64 - 2 ^ 63"

definition trim_prefix :: "string \<Rightarrow> string \<Rightarrow> string" where
  "trim_prefix p s = (if take (length p) s = p then drop (length p) s else s)"

definition stripBOM :: "parser \<Rightarrow> string \<Rightarrow> string \<times> parser" where
  "stripBOM p line =
     (if pa_bomChecked p then (line, p) else (trim_prefix utf8BOM line, p\<lparr>pa_bomChecked := True\<rparr>))"

definition consumeID :: "parser \<Rightarrow> string \<Rightarrow> parser" where
  "consumeID p v = (if NUL \<in> set v then p else p\<lparr>pa_lastEventID := v\<rparr>)"

definition consumeRetry :: "parser \<Rightarrow> string \<Rightarrow> parser" where
  "consumeRetry p v =
     (if \<not> isASCIIDigits v then p
      else if \<not> int64_range (int (digits_val v)) then p
      else p\<lparr>pa_retry := wrap64 (int (digits_val v) * 1000000)\<rparr>)"

definition consumeField :: "parser \<Rightarrow> string \<Rightarrow> string \<Rightarrow> parser" where
  "consumeField p name v =
     (if name = fieldNameEvent then p\<lparr>pa_eventType := v\<rparr>
      else if name = fieldNameData then p\<lparr>pa_dataBuf := pa_dataBuf p @ v @ lineTerminator\<rparr>
      else if name = fieldNameID then consumeID p v
      else if name = fieldNameRetry then consumeRetry p v
      else p)"

definition trim_suffix_LF :: "string \<Rightarrow> string" where
  "trim_suffix_LF s = (if s \<noteq> [] \<and> last s = LF then butlast s else s)"

definition dispatch :: "parser \<Rightarrow> event option \<times> parser" where
  "dispatch p =
     (let p1 = p\<lparr>pa_dataBuf := [], pa_eventType := []\<rparr>
      in if pa_dataBuf p = [] then (None, p1)
         else (Some \<lparr>ev_ID = pa_lastEventID p, ev_Event = pa_eventType p,
                 ev_Data = trim_suffix_LF (pa_dataBuf p)\<rparr>, p1))"

definition dropIncomplete :: "parser \<Rightarrow> parser" where
  "dropIncomplete p =
     (if pa_dataBuf p = [] \<and> pa_eventType p = [] then p else p\<lparr>pa_dataBuf := [], pa_eventType := []\<rparr>)"

text \<open>The body of the loop of \<open>Next\<close>, for one line: an event, or go on.\<close>

definition on_line :: "parser \<Rightarrow> string \<Rightarrow> event option \<times> parser" where
  "on_line p text =
     (case stripBOM p text of (line, p1) \<Rightarrow>
        if line = [] then dispatch p1
        else if take (length commentPrefix) line = commentPrefix then (None, p1)
        else case parseFieldLine line of (name, v) \<Rightarrow> (None, consumeField p1 name v))"

partial_function (option) Next ::
    "'r reader \<Rightarrow> 'r SseSource \<Rightarrow> ((goerr + event) \<times> 'r SseSource) option" where
  "Next rd s =
     (case Scan rd (so_scanner s) of
        (Some text, sc) \<Rightarrow>
          (case on_line (so_parser s) text of
             (Some ev, p) \<Rightarrow> Some (Inr ev, \<lparr>so_scanner = sc, so_parser = p\<rparr>)
           | (None, p) \<Rightarrow> Next rd \<lparr>so_scanner = sc, so_parser = p\<rparr>)
      | (None, sc) \<Rightarrow>
          (case sc_err sc of
             Some e \<Rightarrow>
               if e = io_EOF
               then Some (Inl ErrNoMoreEvents,
                      \<lparr>so_scanner = sc, so_parser = dropIncomplete (so_parser s)\<rparr>)
               else Some (Inl (Wrapped e ''scan sse stream''), s\<lparr>so_scanner := sc\<rparr>)
           | None \<Rightarrow>
               Some (Inl ErrNoMoreEvents,
                 \<lparr>so_scanner = sc, so_parser = dropIncomplete (so_parser s)\<rparr>)))"

section \<open>The parser as a machine over lines\<close>

fun run_lines :: "parser \<Rightarrow> string list \<Rightarrow> event list \<times> parser" where
  "run_lines p [] = ([], p)"
| "run_lines p (l # ls) =
     (case on_line p l of (r, p1) \<Rightarrow> (case run_lines p1 ls of (evs, p2) \<Rightarrow>
        ((case r of None \<Rightarrow> evs | Some ev \<Rightarrow> ev # evs), p2)))"

text \<open>The events of a byte stream, and the last event id after it.\<close>

definition sse_events :: "string \<Rightarrow> event list" where
  "sse_events bytes = fst (run_lines new_parser (sse_lines bytes))"

text \<open>Every line of the stream fits the scanner's buffer, whatever the chunks.\<close>

definition lines_fit :: "string \<Rightarrow> bool" where
  "lines_fit bytes \<longleftrightarrow> (\<forall>l \<in> set (sse_lines bytes). length l + 2 \<le> maxLineSize)"

lemma run_lines_append:
  "run_lines p (ls @ ms) = (case run_lines p ls of (e1, p1) \<Rightarrow>
     (case run_lines p1 ms of (e2, p2) \<Rightarrow> (e1 @ e2, p2)))"
  by (induction ls arbitrary: p) (auto split: prod.splits option.splits)

section \<open>Next delivers what the machine does\<close>

context byte_reader
begin

definition so_ok :: "'r SseSource \<Rightarrow> bool" where
  "so_ok s \<longleftrightarrow> sc_ok (so_scanner s) \<and> lines_fit (sc_data (so_scanner s))"

definition so_pending :: "'r SseSource \<Rightarrow> event list" where
  "so_pending s = fst (run_lines (so_parser s) (sse_lines (sc_data (so_scanner s))))"

definition end_error :: goerr where
  "end_error = (if fin = io_EOF then ErrNoMoreEvents else Wrapped fin ''scan sse stream'')"

lemma Next_event:
  assumes "so_ok s" and "so_pending s = e # es"
  shows "\<exists>s'. Next rd s = Some (Inr e, s') \<and> so_ok s' \<and> so_pending s' = es"
  using assms
proof (induction "length (sc_data (so_scanner s))" arbitrary: s rule: less_induct)
  case less
  let ?d = "sc_data (so_scanner s)"
  have d: "?d \<noteq> []" using less.prems(2) by (auto simp: so_pending_def)
  then have ls: "sse_lines ?d = line_of ?d # sse_lines (after_line ?d)" by (simp add: sse_lines.simps [of ?d])
  with less.prems(1) have fit: "length (line_of ?d) + 2 \<le> maxLineSize" "lines_fit (after_line ?d)"
    by (auto simp: so_ok_def lines_fit_def)
  from Scan_line [OF _ d fit(1)] less.prems(1) obtain sc where
    sc: "Scan rd (so_scanner s) = (Some (line_of ?d), sc)" "sc_ok sc" "sc_data sc = after_line ?d"
    by (auto simp: so_ok_def)
  obtain r p where on: "on_line (so_parser s) (line_of ?d) = (r, p)" by fastforce
  let ?s = "\<lparr>so_scanner = sc, so_parser = p\<rparr>"
  have ok: "so_ok ?s" using sc fit by (simp add: so_ok_def)
  have pend: "so_pending s = (case r of None \<Rightarrow> so_pending ?s | Some ev \<Rightarrow> ev # so_pending ?s)"
    by (simp add: so_pending_def ls on sc(3) case_prod_beta split: option.split)
  show ?case
  proof (cases r)
    case None
    have "length (sc_data (so_scanner ?s)) < length ?d" using length_after_line [OF d] sc(3) by simp
    from less.hyps [OF this ok] pend None less.prems(2)
    have "\<exists>s'. Next rd ?s = Some (Inr e, s') \<and> so_ok s' \<and> so_pending s' = es" by simp
    then show ?thesis by (simp add: Next.simps [of rd s] sc(1) on None)
  next
    case (Some ev)
    with pend less.prems(2) ok show ?thesis by (simp add: Next.simps [of rd s] sc(1) on)
  qed
qed

lemma Next_end:
  assumes "so_ok s" and "so_pending s = []"
  shows "\<exists>s'. Next rd s = Some (Inl end_error, s')"
  using assms
proof (induction "length (sc_data (so_scanner s))" arbitrary: s rule: less_induct)
  case less
  let ?d = "sc_data (so_scanner s)"
  show ?case
  proof (cases "?d = []")
    case True
    from Scan_end [OF _ True] less.prems(1) obtain sc where
      "Scan rd (so_scanner s) = (None, sc)" "sc_err sc = Some fin" by (auto simp: so_ok_def)
    then show ?thesis by (simp add: Next.simps [of rd s] end_error_def)
  next
    case False
    then have ls: "sse_lines ?d = line_of ?d # sse_lines (after_line ?d)" by (simp add: sse_lines.simps [of ?d])
    with less.prems(1) have fit: "length (line_of ?d) + 2 \<le> maxLineSize" "lines_fit (after_line ?d)"
      by (auto simp: so_ok_def lines_fit_def)
    from Scan_line [OF _ False fit(1)] less.prems(1) obtain sc where
      sc: "Scan rd (so_scanner s) = (Some (line_of ?d), sc)" "sc_ok sc" "sc_data sc = after_line ?d"
      by (auto simp: so_ok_def)
    obtain r p where on: "on_line (so_parser s) (line_of ?d) = (r, p)" by fastforce
    let ?s = "\<lparr>so_scanner = sc, so_parser = p\<rparr>"
    have ok: "so_ok ?s" using sc fit by (simp add: so_ok_def)
    have "so_pending s = (case r of None \<Rightarrow> so_pending ?s | Some ev \<Rightarrow> ev # so_pending ?s)"
      by (simp add: so_pending_def ls on sc(3) case_prod_beta split: option.split)
    with less.prems(2) have r: "r = None" "so_pending ?s = []" by (auto split: option.splits)
    have "length (sc_data (so_scanner ?s)) < length ?d" using length_after_line [OF False] sc(3) by simp
    from less.hyps [OF this ok r(2)] show ?thesis by (simp add: Next.simps [of rd s] sc(1) on r(1))
  qed
qed

lemma collect_Next:
  "so_ok s \<Longrightarrow> collect_from (Next rd) seen s = Some (seen @ so_pending s, end_error)"
proof (induction "so_pending s" arbitrary: s seen)
  case Nil
  with Next_end show ?case by (force simp: collect_from.simps [of _ seen s])
next
  case (Cons e es)
  from Next_event [OF Cons.prems Cons.hyps(2) [symmetric]] obtain s' where
    s': "Next rd s = Some (Inr e, s')" "so_ok s'" "so_pending s' = es" by blast
  from Cons.hyps(1) [OF s'(3) [symmetric] s'(2), of "seen @ [e]"] s' Cons.hyps(2) show ?case
    by (simp add: collect_from.simps [of _ seen s])
qed

lemma NewSource_ok:
  "\<lbrakk>rok r; lines_fit (content r)\<rbrakk>
    \<Longrightarrow> so_ok (NewSource r) \<and> so_pending (NewSource r) = sse_events (content r)"
  by (simp add: so_ok_def so_pending_def NewSource_def NewScanner_def sc_ok_def sc_data_def sse_events_def)

end

section \<open>A reader of chunks\<close>

text \<open>A reader that has its bytes in non-empty chunks and then fails with \<open>fin\<close>.\<close>

definition chunk_read :: "goerr \<Rightarrow> string list reader" where
  "chunk_read fin n r =
     (case r of
        [] \<Rightarrow> (([], Some fin), [])
      | c # cs \<Rightarrow> if n < length c then ((take n c, None), drop n c # cs) else ((c, None), cs))"

interpretation chunks: byte_reader "chunk_read fin" concat fin "\<lambda>cs. [] \<notin> set cs" for fin
  by unfold_locales (auto simp: chunk_read_def split: list.splits if_splits)

interpretation sse_source: event_source "Next (chunk_read io_EOF)" "chunks.so_pending" "chunks.so_ok io_EOF"
proof unfold_locales
  fix s e es assume "chunks.so_ok io_EOF s" "chunks.so_pending s = e # es"
  then show "\<exists>s'. Next (chunk_read io_EOF) s = Some (Inr e, s') \<and> chunks.so_ok io_EOF s' \<and> chunks.so_pending s' = es"
    by (rule chunks.Next_event)
next
  fix s assume "chunks.so_ok io_EOF s" "chunks.so_pending s = []"
  then show "\<exists>s'. Next (chunk_read io_EOF) s = Some (Inl ErrNoMoreEvents, s')"
    using chunks.Next_end [of io_EOF s] by (simp add: chunks.end_error_def)
qed

text \<open>
  C6. The events a \<open>Source\<close> delivers depend on the bytes of the stream only, not on how the
  reader cuts them into reads: they are those of the parser on the lines of the stream, and
  the consumer's loop ends, with \<open>ErrNoMoreEvents\<close> after a clean end of the stream and
  otherwise with the reader's own error, wrapped. Every line has to fit the scanner's
  buffer of 1 MiB together with its terminator.
\<close>

theorem source_independent_of_chunks:
  assumes "byte_reader rd content fin rok" and "rok r" and "lines_fit (content r)"
  shows "collect (Next rd) (NewSource r) = Some (sse_events (content r),
    if fin = io_EOF then ErrNoMoreEvents else Wrapped fin ''scan sse stream'')"
  using byte_reader.collect_Next [OF assms(1), of "NewSource r" "[]"]
    byte_reader.NewSource_ok [OF assms]
  by (simp add: collect_def byte_reader.end_error_def [OF assms(1)])

theorem source_independent_of_chunks_witness:
  "collect (Next (chunk_read io_EOF)) (NewSource [''data: h'', [CHR ''i'', CR], [LF, LF]])
    = Some (sse_events (''data: hi'' @ [CR, LF, LF]), ErrNoMoreEvents)"
proof -
  have "sse_lines (''data: hi'' @ [CR, LF, LF]) = [''data: hi'', []]"
    by (simp add: sse_lines.simps line_of_def after_line_def is_term_def)
  then have "lines_fit (''data: hi'' @ [CR, LF, LF])" by (simp add: lines_fit_def maxLineSize_def)
  with source_independent_of_chunks [OF chunks.byte_reader_axioms,
      of "[''data: h'', [CHR ''i'', CR], [LF, LF]]" io_EOF]
  show ?thesis by simp
qed

context byte_reader
begin

lemma too_long_pending:
  assumes "sc_ok s" and "maxLineSize < length (line_of (sc_data s))"
  shows "sc_err s = None"
proof (rule ccontr)
  assume "sc_err s \<noteq> None"
  with assms(1) have "length (sc_data s) \<le> maxLineSize" by (auto simp: sc_ok_def sc_data_def)
  with assms(2) length_line_of [of "sc_data s"] show False by simp
qed

text \<open>The lines before one that does not fit are parsed as usual; then the scanner gives up.\<close>

lemma collect_too_long:
  assumes "sc_ok (so_scanner s)" and "sse_lines (sc_data (so_scanner s)) = ls @ l # ms"
    and "\<forall>k \<in> set ls. length k + 2 \<le> maxLineSize" and "maxLineSize < length l"
  shows "collect_from (Next rd) seen s
    = Some (seen @ fst (run_lines (so_parser s) ls), Wrapped ErrTooLong ''scan sse stream'')"
  using assms
proof (induction ls arbitrary: s seen)
  case Nil
  let ?d = "sc_data (so_scanner s)"
  have "?d \<noteq> []" using Nil.prems(2) by auto
  then have "line_of ?d = l" using Nil.prems(2) by (simp add: sse_lines.simps [of ?d])
  with Nil.prems(4) have long: "maxLineSize < length (line_of ?d)" by simp
  obtain sc where "Scan rd (so_scanner s) = (None, sc)" "sc_err sc = Some ErrTooLong"
    using Scan_too_long [OF Nil.prems(1) too_long_pending [OF Nil.prems(1) long] long] by blast
  then have "Next rd s = Some (Inl (Wrapped ErrTooLong ''scan sse stream''), s\<lparr>so_scanner := sc\<rparr>)"
    by (simp add: Next.simps [of rd s] io_EOF_def)
  then show ?case by (simp add: collect_from.simps [of _ seen s])
next
  case (Cons k ls)
  let ?d = "sc_data (so_scanner s)"
  have d: "?d \<noteq> []" using Cons.prems(2) by auto
  then have k: "line_of ?d = k" "sse_lines (after_line ?d) = ls @ l # ms"
    using Cons.prems(2) by (simp_all add: sse_lines.simps [of ?d])
  with Cons.prems(3) have "length (line_of ?d) + 2 \<le> maxLineSize" by simp
  from Scan_line [OF Cons.prems(1) d this] k(1) obtain sc where
    sc: "Scan rd (so_scanner s) = (Some k, sc)" "sc_ok sc" "sc_data sc = after_line ?d"
    by auto
  obtain r p where on: "on_line (so_parser s) k = (r, p)" by fastforce
  let ?s = "\<lparr>so_scanner = sc, so_parser = p\<rparr>"
  have ih: "collect_from (Next rd) seen' ?s
      = Some (seen' @ fst (run_lines p ls), Wrapped ErrTooLong ''scan sse stream'')" for seen'
    using Cons.IH [of ?s seen'] sc k(2) Cons.prems(3,4) by simp
  show ?case
  proof (cases r)
    case None
    then have "Next rd s = Next rd ?s" by (simp add: Next.simps [of rd s] sc(1) on)
    then have "collect_from (Next rd) seen s = collect_from (Next rd) seen ?s"
      by (simp add: collect_from.simps [of _ seen])
    with None show ?thesis by (simp add: ih on case_prod_beta)
  next
    case (Some ev)
    then have "Next rd s = Some (Inr ev, ?s)" by (simp add: Next.simps [of rd s] sc(1) on)
    with Some show ?thesis by (simp add: collect_from.simps [of _ seen s] ih on case_prod_beta)
  qed
qed

end

text \<open>
  C29. A line longer than the 1 MiB buffer, wherever it stands in the stream, is not cut or
  delivered, whatever the reader's chunks: if the lines before it fit the buffer with their
  terminators, the events that they complete are delivered, and then \<open>Next\<close> fails with \<open>bufio.ErrTooLong\<close>, wrapped.
\<close>

theorem source_rejects_long_line:
  assumes "byte_reader rd content fin rok" and "rok r"
    and "sse_lines (content r) = ls @ l # ms" and "\<forall>k \<in> set ls. length k + 2 \<le> maxLineSize"
    and "maxLineSize < length l"
  shows "collect (Next rd) (NewSource r)
    = Some (fst (run_lines new_parser ls), Wrapped ErrTooLong ''scan sse stream'')"
proof -
  have "byte_reader.sc_ok content fin rok (NewScanner r)" "byte_reader.sc_data content (NewScanner r) = content r"
    using assms(2)
    by (simp_all add: byte_reader.sc_ok_def [OF assms(1)] byte_reader.sc_data_def [OF assms(1)] NewScanner_def)
  with byte_reader.collect_too_long [OF assms(1), of "NewSource r" ls l ms "[]"] assms(3-5) show ?thesis
    by (simp add: collect_def NewSource_def)
qed

section \<open>What a frame is read back as\<close>

datatype frame = FEvent event | FComment string | FRetry int

fun frame_bytes :: "frame \<Rightarrow> string" where
  "frame_bytes (FEvent ev) = FrameLines ev"
| "frame_bytes (FComment t) = FrameComment t"
| "frame_bytes (FRetry d) = FrameRetry d"

text \<open>The event a receiver sees: the id carried forward, the fields sanitized, the payload's line ends LF.\<close>

definition received :: "string \<Rightarrow> event \<Rightarrow> event" where
  "received lastID ev = \<lparr>ev_ID = (if ev_ID ev = [] then lastID else sanitizeFieldValue (ev_ID ev)),
     ev_Event = sanitizeFieldValue (ev_Event ev), ev_Data = normalize (ev_Data ev)\<rparr>"

fun received_all :: "string \<Rightarrow> frame list \<Rightarrow> event list" where
  "received_all lastID [] = []"
| "received_all lastID (FEvent ev # fs) =
     received lastID ev # received_all (ev_ID (received lastID ev)) fs"
| "received_all lastID (f # fs) = received_all lastID fs"

text \<open>Between two frames the buffers are empty.\<close>

definition between :: "parser \<Rightarrow> bool" where
  "between p \<longleftrightarrow> pa_dataBuf p = [] \<and> pa_eventType p = []"

lemma stripBOM_ascii: "byte c < 128 \<Longrightarrow> stripBOM p (c # s) = (c # s, p\<lparr>pa_bomChecked := True\<rparr>)"
  by (auto simp: stripBOM_def trim_prefix_def utf8BOM_def)

lemma on_field:
  assumes "name = c # s" and "byte c < 128" and "CHR '':'' \<notin> set name"
  shows "on_line p (field name v) = (None, consumeField (p\<lparr>pa_bomChecked := True\<rparr>) name v)"
proof -
  have "stripBOM p (field name v) = (field name v, p\<lparr>pa_bomChecked := True\<rparr>)"
    using stripBOM_ascii [OF assms(2), of p "s @ '': '' @ v"] assms(1) by (simp add: field_def)
  moreover have "field name v \<noteq> []" "take 1 (field name v) \<noteq> '':''"
    using assms by (auto simp: field_def)
  ultimately show ?thesis
    using parse_field [OF assms(3)] by (simp add: on_line_def sse_consts)
qed

lemma on_data: "on_line p (field ''data'' v) = (None, p\<lparr>pa_bomChecked := True, pa_dataBuf := pa_dataBuf p @ v @ [LF]\<rparr>)"
  by (subst on_field [OF refl]) (simp_all add: consumeField_def sse_consts)

lemma on_event: "on_line p (field ''event'' v) = (None, p\<lparr>pa_bomChecked := True, pa_eventType := v\<rparr>)"
  by (subst on_field [OF refl]) (simp_all add: consumeField_def sse_consts)

lemma on_id: "NUL \<notin> set v \<Longrightarrow> on_line p (field ''id'' v) = (None, p\<lparr>pa_bomChecked := True, pa_lastEventID := v\<rparr>)"
  by (subst on_field [OF refl]) (simp_all add: consumeField_def consumeID_def sse_consts)

lemma on_retry: "on_line p (field ''retry'' v) = (None, consumeRetry (p\<lparr>pa_bomChecked := True\<rparr>) v)"
  by (subst on_field [OF refl]) (simp_all add: consumeField_def sse_consts)

lemma on_comment: "on_line p (field [] v) = (None, p\<lparr>pa_bomChecked := True\<rparr>)"
proof -
  have "stripBOM p (field [] v) = (field [] v, p\<lparr>pa_bomChecked := True\<rparr>)"
    using stripBOM_ascii [of "CHR '':''" p "'' '' @ v"] by (simp add: field_def)
  then show ?thesis by (simp add: on_line_def field_def sse_consts)
qed

lemma run_data:
  "run_lines p (map (field ''data'') ls)
    = ([], p\<lparr>pa_bomChecked := pa_bomChecked p \<or> ls \<noteq> [],
         pa_dataBuf := pa_dataBuf p @ concat (map (\<lambda>l. l @ [LF]) ls)\<rparr>)"
  by (induction ls arbitrary: p) (simp_all add: on_data)

lemma on_blank:
  "pa_bomChecked p \<Longrightarrow> on_line p [] = dispatch p"
  by (simp add: on_line_def stripBOM_def)

lemma run_frame:
  assumes "between p"
  shows "run_lines p (frame_lines ev) = ([received (pa_lastEventID p) ev],
    p\<lparr>pa_bomChecked := True, pa_lastEventID := ev_ID (received (pa_lastEventID p) ev)\<rparr>)"
proof -
  let ?i = "if ev_ID ev \<noteq> [] then [field ''id'' (sanitizeFieldValue (ev_ID ev))] else []"
  let ?t = "if ev_Event ev \<noteq> [] then [field ''event'' (sanitizeFieldValue (ev_Event ev))] else []"
  let ?d = "split_LF (normalize (ev_Data ev))"
  let ?p = "\<lparr>pa_dataBuf = normalize (ev_Data ev) @ [LF], pa_eventType = sanitizeFieldValue (ev_Event ev),
    pa_lastEventID = ev_ID (received (pa_lastEventID p) ev), pa_retry = pa_retry p, pa_bomChecked = True\<rparr>"
  have ne: "?d \<noteq> []" by (rule split_LF_Cons [of "normalize (ev_Data ev)"]) simp
  have empty: "sanitizeFieldValue [] = []" by (simp add: sanitizeFieldValue_def)
  have "run_lines p (?i @ ?t @ map (field ''data'') ?d) = ([], ?p)"
    using assms ne empty
    by (auto simp: run_lines_append run_data join_split_LF on_id on_event received_def between_def
        intro!: parser.equality)
  moreover have "on_line ?p [] = (Some (received (pa_lastEventID p) ev),
      p\<lparr>pa_bomChecked := True, pa_lastEventID := ev_ID (received (pa_lastEventID p) ev)\<rparr>)"
    using assms by (subst on_blank)
      (auto simp: dispatch_def trim_suffix_LF_def received_def between_def intro!: parser.equality)
  ultimately show ?thesis
    unfolding frame_lines_def append_assoc [symmetric]
    by (subst run_lines_append) (simp only: run_lines.simps prod.case option.case append_Nil append_assoc)
qed

lemma between_received [simp]:
  "between p \<Longrightarrow> between (p\<lparr>pa_bomChecked := b, pa_lastEventID := i\<rparr>)"
  "between p \<Longrightarrow> between (p\<lparr>pa_bomChecked := b\<rparr>)"
  "between p \<Longrightarrow> between (p\<lparr>pa_bomChecked := b, pa_retry := r\<rparr>)"
  by (simp_all add: between_def)

lemma run_comment:
  "between p \<Longrightarrow> run_lines p [field [] (sanitizeFieldValue t)] = ([], p\<lparr>pa_bomChecked := True\<rparr>)"
  by (simp add: on_comment)

lemma digits_ok: "isASCIIDigits (int_dec (max i 0)) \<and> digits_val (int_dec (max i 0)) = nat (max i 0)"
  using nat_dec_digits by (simp add: isASCIIDigits_def nat_int_dec digits_val_nat_dec)

text \<open>The retry value a receiver ends up with, in nanoseconds.\<close>

definition received_retry :: "int \<Rightarrow> int \<Rightarrow> int" where
  "received_retry old d =
     (let ms = max (d sdiv 1000000) 0 in if int64_range ms then wrap64 (ms * 1000000) else old)"

lemma run_retry:
  assumes "between p"
  shows "run_lines p [field ''retry'' (int_dec (max (d sdiv 1000000) 0)), []]
    = ([], p\<lparr>pa_bomChecked := True, pa_retry := received_retry (pa_retry p) d\<rparr>)"
  using assms digits_ok [of "d sdiv 1000000"]
  by (auto simp: on_retry consumeRetry_def on_blank dispatch_def between_def received_retry_def Let_def
      intro!: parser.equality)

lemma run_frame_bytes:
  assumes "between p"
  shows "\<exists>p'. between p' \<and> pa_bomChecked p' \<and> (\<forall>rest. fst (run_lines p (sse_lines (frame_bytes f @ rest)))
      = received_all (pa_lastEventID p) [f] @ fst (run_lines p' (sse_lines rest)))
    \<and> pa_lastEventID p' = (case f of FEvent ev \<Rightarrow> ev_ID (received (pa_lastEventID p) ev) | _ \<Rightarrow> pa_lastEventID p)"
proof (cases f)
  case (FEvent ev)
  have "sse_lines (FrameLines ev @ rest) = frame_lines ev @ sse_lines rest" for rest
    using sse_lines_concat [OF frame_lines_plain, of ev rest] by (simp add: FrameLines_lines)
  with run_frame [OF assms, of ev] assms FEvent show ?thesis
    by (intro exI [of _ "p\<lparr>pa_bomChecked := True, pa_lastEventID := ev_ID (received (pa_lastEventID p) ev)\<rparr>"])
      (simp add: run_lines_append case_prod_beta)
next
  case (FComment t)
  have "sse_lines (FrameComment t @ rest) = [field [] (sanitizeFieldValue t)] @ sse_lines rest" for rest
    using sse_lines_plain [of "field [] (sanitizeFieldValue t)" rest]
    by (simp add: FrameComment_lines field_def)
  with run_comment [OF assms, of t] assms FComment show ?thesis
    by (intro exI [of _ "p\<lparr>pa_bomChecked := True\<rparr>"])
      (simp only: run_lines_append frame_bytes.simps received_all.simps frame.case between_received, simp add: case_prod_beta)
next
  case (FRetry d)
  let ?r = "field ''retry'' (int_dec (max (d sdiv 1000000) 0))"
  have "list_all plain [?r, []]"
    using is_digit_plain [OF nat_dec_digits] by (simp add: field_def nat_int_dec)
  then have "sse_lines (FrameRetry d @ rest) = [?r, []] @ sse_lines rest" for rest
    using sse_lines_concat [of "[?r, []]" rest] by (simp only: FrameRetry_lines)
  with run_retry [OF assms, of d] assms FRetry show ?thesis
    by (intro exI [of _ "p\<lparr>pa_bomChecked := True, pa_retry := received_retry (pa_retry p) d\<rparr>"])
      (simp only: run_lines_append frame_bytes.simps received_all.simps frame.case between_received, simp add: case_prod_beta)
qed

lemma received_all_Cons:
  "received_all i (f # fs) = received_all i [f]
     @ received_all (case f of FEvent ev \<Rightarrow> ev_ID (received i ev) | _ \<Rightarrow> i) fs"
  by (cases f) simp_all

lemma run_frames:
  "between p \<Longrightarrow> \<exists>p'. between p' \<and> (\<forall>rest. fst (run_lines p (sse_lines (concat (map frame_bytes fs) @ rest)))
      = received_all (pa_lastEventID p) fs @ fst (run_lines p' (sse_lines rest)))"
proof (induction fs arbitrary: p)
  case Nil
  then show ?case by auto
next
  case (Cons f fs)
  from run_frame_bytes [OF Cons.prems, of f] obtain p1 where p1: "between p1"
    "\<And>rest. fst (run_lines p (sse_lines (frame_bytes f @ rest)))
      = received_all (pa_lastEventID p) [f] @ fst (run_lines p1 (sse_lines rest))"
    "pa_lastEventID p1 = (case f of FEvent ev \<Rightarrow> ev_ID (received (pa_lastEventID p) ev) | _ \<Rightarrow> pa_lastEventID p)"
    by blast
  from Cons.IH [OF p1(1)] obtain p2 where "between p2"
    "\<And>rest. fst (run_lines p1 (sse_lines (concat (map frame_bytes fs) @ rest)))
      = received_all (pa_lastEventID p1) fs @ fst (run_lines p2 (sse_lines rest))" by blast
  with p1 show ?case
    by (intro exI [of _ p2]) (simp add: received_all_Cons [of _ f fs] del: received_all.simps)
qed

lemma sse_events_frames: "sse_events (concat (map frame_bytes fs)) = received_all [] fs"
proof -
  have "between new_parser" by (simp add: between_def new_parser_def)
  from run_frames [OF this, of fs] obtain p where
    "fst (run_lines new_parser (sse_lines (concat (map frame_bytes fs) @ [])))
      = received_all (pa_lastEventID new_parser) fs @ fst (run_lines p (sse_lines []))" by blast
  then show ?thesis by (simp add: sse_events_def new_parser_def)
qed

text \<open>
  C5. Round trip over the wire: any sequence of event frames, comments and retry hints is read
  back as exactly its events, in order and number, whatever their payloads contain: the
  payload with its line ends turned into LF, the type without CR, LF and NUL, and the id
  likewise, carried forward from the last event that had one. Comments and retry hints yield
  no event, and no payload can forge one.
\<close>

theorem frames_read_back:
  "sse_events (concat (map frame_bytes fs)) = received_all [] fs
   \<and> length (sse_events (concat (map frame_bytes fs))) = length (filter (\<lambda>f. \<exists>ev. f = FEvent ev) fs)"
proof -
  have "length (received_all i fs) = length (filter (\<lambda>f. \<exists>ev. f = FEvent ev) fs)" for i
    by (induction i fs rule: received_all.induct) auto
  then show ?thesis by (simp add: sse_events_frames)
qed

text \<open>
  C28. An event with no CR in its payload and a clean id and type survives the wire unchanged,
  byte for byte.
\<close>

theorem clean_event_round_trip:
  assumes "\<forall>ev \<in> set evs. CR \<notin> set (ev_Data ev) \<and> ev_ID ev \<noteq> []
      \<and> sanitizeFieldValue (ev_ID ev) = ev_ID ev \<and> sanitizeFieldValue (ev_Event ev) = ev_Event ev"
  shows "sse_events (concat (map FrameLines evs)) = evs"
proof -
  have "received_all i (map FEvent evs) = evs" for i
    using assms by (induction evs arbitrary: i) (simp_all add: received_def normalize_id)
  moreover have "concat (map frame_bytes (map FEvent evs)) = concat (map FrameLines evs)" by (simp add: comp_def)
  ultimately show ?thesis using sse_events_frames by metis
qed

theorem clean_event_round_trip_witness:
  "sse_events (concat (map FrameLines [\<lparr>ev_ID = ''1'', ev_Event = ''ping'', ev_Data = [CHR ''a'', LF, LF, CHR ''b'']\<rparr>]))
    = [\<lparr>ev_ID = ''1'', ev_Event = ''ping'', ev_Data = [CHR ''a'', LF, LF, CHR ''b'']\<rparr>]"
  using clean_event_round_trip
    [of "[\<lparr>ev_ID = ''1'', ev_Event = ''ping'', ev_Data = [CHR ''a'', LF, LF, CHR ''b'']\<rparr>]"]
  by (simp add: sanitizeFieldValue_def)

section \<open>A stream that was cut\<close>

lemma after_line_cut:
  assumes "dropWhile (\<lambda>c. \<not> is_term c) s \<noteq> []"
  shows "line_of (s @ r) = line_of s"
    and "after_line (s @ r) = after_line s @ r \<or> after_line s = [] \<and> (\<exists>r'. r = LF # r' \<and> after_line (s @ r) = r')"
proof -
  obtain c q where q: "dropWhile (\<lambda>c. \<not> is_term c) s = c # q" using assms by (meson neq_Nil_conv)
  have "\<exists>x \<in> set s. is_term x" using assms by (auto simp: dropWhile_eq_Nil_conv)
  then have *: "takeWhile (\<lambda>c. \<not> is_term c) (s @ r) = takeWhile (\<lambda>c. \<not> is_term c) s"
    "dropWhile (\<lambda>c. \<not> is_term c) (s @ r) = dropWhile (\<lambda>c. \<not> is_term c) s @ r"
    by auto
  from *(1) show "line_of (s @ r) = line_of s" by (simp only: line_of_def)
  show "after_line (s @ r) = after_line s @ r \<or> after_line s = [] \<and> (\<exists>r'. r = LF # r' \<and> after_line (s @ r) = r')"
    unfolding after_line_def *(2) q by (cases q; cases r) auto
qed

lemma sse_lines_cut:
  "\<exists>ls l. sse_lines s = ls @ (if l = [] then [] else [l]) \<and> prefix ls (sse_lines (s @ r))"
proof (induction s rule: sse_lines.induct)
  case (1 s)
  show ?case
  proof (cases "s = []")
    case True
    then show ?thesis by (intro exI [of _ "[]"]) simp
  next
    case False
    show ?thesis
    proof (cases "dropWhile (\<lambda>c. \<not> is_term c) s = []")
      case True
      then have "plain s" by (simp add: plain_is_term dropWhile_eq_Nil_conv)
      with False sse_lines_unfinished show ?thesis by (intro exI [of _ "[]"] exI [of _ s]) simp
    next
      case cut: False
      have ls: "sse_lines s = line_of s # sse_lines (after_line s)"
        "sse_lines (s @ r) = line_of s # sse_lines (after_line (s @ r))"
        using False after_line_cut(1) [OF cut] by (simp_all add: sse_lines.simps [of s] sse_lines.simps [of "s @ r"])
      from after_line_cut(2) [OF cut, of r] show ?thesis
      proof
        assume a: "after_line (s @ r) = after_line s @ r"
        from 1 [OF False] obtain ls' l where "sse_lines (after_line s) = ls' @ (if l = [] then [] else [l])"
          "prefix ls' (sse_lines (after_line s @ r))" by blast
        with ls a show ?thesis by (intro exI [of _ "line_of s # ls'"] exI [of _ l]) simp
      next
        assume "after_line s = [] \<and> (\<exists>r'. r = LF # r' \<and> after_line (s @ r) = r')"
        with ls show ?thesis by (intro exI [of _ "[line_of s]"] exI [of _ "[]"]) simp
      qed
    qed
  qed
qed

lemma stripBOM_bom: "pa_bomChecked (snd (stripBOM p l))"
  by (simp add: stripBOM_def)

lemma consumeField_bom: "pa_bomChecked (consumeField p n v) = pa_bomChecked p"
  by (simp add: consumeField_def consumeID_def consumeRetry_def)

lemma dispatch_bom: "pa_bomChecked (snd (dispatch p)) = pa_bomChecked p"
  by (simp add: dispatch_def Let_def)

lemma on_line_bom: "pa_bomChecked (snd (on_line p l))"
  using stripBOM_bom [of p l]
  by (cases "stripBOM p l") (simp add: on_line_def dispatch_bom consumeField_bom split: prod.split)

lemma run_lines_bom: "ls \<noteq> [] \<or> pa_bomChecked p \<Longrightarrow> pa_bomChecked (snd (run_lines p ls))"
proof (induction ls arbitrary: p)
  case (Cons l ls)
  from Cons.IH [of "snd (on_line p l)"] on_line_bom [of p l] show ?case by (auto split: prod.splits)
qed simp

lemma on_line_no_event:
  assumes "l \<noteq> []" and "pa_bomChecked p \<or> pa_dataBuf p = []"
  shows "fst (on_line p l) = None"
proof (cases "pa_bomChecked p")
  case True
  with assms(1) show ?thesis by (simp add: on_line_def stripBOM_def split: prod.split)
next
  case False
  with assms(2) show ?thesis by (simp add: on_line_def stripBOM_def dispatch_def Let_def split: prod.split)
qed

lemma sse_events_cut: "prefix (sse_events bytes) (sse_events (bytes @ lost))"
proof -
  from sse_lines_cut [of bytes lost] obtain ls l rest where
    ls: "sse_lines bytes = ls @ (if l = [] then [] else [l])" "sse_lines (bytes @ lost) = ls @ rest"
    by (auto simp: prefix_def)
  obtain evs p where p: "run_lines new_parser ls = (evs, p)" by fastforce
  have "pa_bomChecked p \<or> pa_dataBuf p = []"
    using run_lines_bom [of ls new_parser] p by (cases ls) (auto simp: new_parser_def)
  then have none: "fst (on_line p l) = None" if "l \<noteq> []" using on_line_no_event that by blast
  have "sse_events bytes = evs"
  proof (cases "l = []")
    case False
    obtain q where "on_line p l = (None, q)" using none [OF False] by (metis prod.collapse)
    with p False show ?thesis by (simp add: sse_events_def ls(1) run_lines_append)
  qed (use p in \<open>simp add: sse_events_def ls(1)\<close>)
  moreover have "prefix evs (sse_events (bytes @ lost))"
    using p by (simp add: sse_events_def ls(2) run_lines_append split: prod.split)
  ultimately show ?thesis by simp
qed

text \<open>
  C15. A stream that is cut anywhere, inside a line, a terminator or a byte order mark, yields a
  prefix of the events of the whole stream: what was not terminated by a blank line is
  dropped, never delivered in part.
\<close>

theorem cut_stream_yields_prefix: "prefix (sse_events bytes) (sse_events (bytes @ lost))"
  by (rule sse_events_cut)

section \<open>Where the code does something else than its comments say\<close>

text \<open>
  C37. \<open>FrameLines\<close> tests the id before sanitizing it: an id made only of CR, LF and NUL is
  written as an empty \<open>id:\<close> field, which resets the receiver's last event id.
\<close>

theorem blank_id_resets_last_event_id:
  assumes "ev_ID ev \<noteq> []" and "set (ev_ID ev) \<subseteq> {CR, LF, NUL}"
  shows "map ev_ID (sse_events (FrameLines e0 @ FrameLines ev))
    = [sanitizeFieldValue (ev_ID e0), []]"
proof -
  have "sanitizeFieldValue (ev_ID ev) = []" using assms(2) by (auto simp: sanitize_eq filter_empty_conv)
  moreover have "sanitizeFieldValue [] = []" by (simp add: sanitizeFieldValue_def)
  ultimately show ?thesis
    using sse_events_frames [of "[FEvent e0, FEvent ev]"] assms(1)
    by (simp add: received_def)
qed

theorem blank_id_resets_last_event_id_witness:
  "map ev_ID (sse_events (FrameLines \<lparr>ev_ID = ''7'', ev_Event = ''a'', ev_Data = ''x''\<rparr>
      @ FrameLines \<lparr>ev_ID = [LF], ev_Event = ''b'', ev_Data = ''y''\<rparr>)) = [''7'', []]"
  using blank_id_resets_last_event_id [of "\<lparr>ev_ID = [LF], ev_Event = ''b'', ev_Data = ''y''\<rparr>"
      "\<lparr>ev_ID = ''7'', ev_Event = ''a'', ev_Data = ''x''\<rparr>"]
  by (simp add: sanitizeFieldValue_def)

theorem source_rejects_long_line_witness:
  "collect (Next (chunk_read io_EOF))
      (NewSource [''data: x'' @ [LF, LF], replicate (Suc maxLineSize) CHR ''x''])
    = Some ([\<lparr>ev_ID = [], ev_Event = [], ev_Data = ''x''\<rparr>], Wrapped ErrTooLong ''scan sse stream'')"
proof -
  let ?l = "replicate (Suc maxLineSize) CHR ''x''"
  have plain: "plain ''data: x''" "plain ?l" by (simp_all add: plain_def is_term_def)
  have lines: "sse_lines (''data: x'' @ [LF, LF] @ ?l) = [''data: x'', []] @ [?l]"
    using sse_lines_concat [of "[''data: x'', []]" ?l] sse_lines_unfinished [OF plain(2)] plain(1) by simp
  have "fst (run_lines new_parser [''data: x'', []]) = [\<lparr>ev_ID = [], ev_Event = [], ev_Data = ''x''\<rparr>]"
    using on_data [of new_parser "''x''"]
    by (simp add: on_blank dispatch_def new_parser_def field_def trim_suffix_LF_def)
  then show ?thesis
    using source_rejects_long_line [OF chunks.byte_reader_axioms, of "[''data: x'' @ [LF, LF], ?l]"
        "[''data: x'', []]" ?l "[]"] lines
    by (simp add: maxLineSize_def)
qed

lemma wrap64_neg: "2 ^ 63 \<le> i \<Longrightarrow> i < 2 ^ 64 \<Longrightarrow> wrap64 i = i - 2 ^ 64"
proof -
  assume "2 ^ 63 \<le> i" "i < 2 ^ 64"
  then have "(i - 2 ^ 63) mod 2 ^ 64 = i - 2 ^ 63" by (intro mod_pos_pos_trivial) simp_all
  moreover have "(i + 2 ^ 63) mod 2 ^ 64 = (i - 2 ^ 63) mod 2 ^ 64"
    using mod_add_self2 [of "i - 2 ^ 63" "2 ^ 64"] by (simp add: add.commute)
  ultimately show ?thesis by (simp add: wrap64_def)
qed

lemma wrap64_id: "int64_range (wrap64 i)" "int64_range i \<Longrightarrow> wrap64 i = i"
  using pos_mod_bound [of "2 ^ 64" "i + 2 ^ 63"] pos_mod_sign [of "2 ^ 64" "i + 2 ^ 63"]
  by (simp_all add: wrap64_def int64_range_def)

lemma run_retry_digits:
  "run_lines p (sse_lines (field ''retry'' (nat_dec n) @ [LF, LF])) =
    run_lines p [field ''retry'' (nat_dec n), []]"
proof -
  have "list_all plain [field ''retry'' (nat_dec n), []]"
    using is_digit_plain [OF nat_dec_digits] by (simp add: field_def)
  from sse_lines_concat [OF this, of "[]"] show ?thesis by simp
qed

text \<open>The delay a fresh \<open>Source\<close> keeps after a retry field of \<open>n\<close> milliseconds.\<close>

definition retry_after :: "nat \<Rightarrow> int" where
  "retry_after n = pa_retry (snd (run_lines new_parser (sse_lines (''retry: '' @ nat_dec n @ [LF, LF]))))"

lemma retry_read:
  "retry_after n = (if n < 2 ^ 63 then wrap64 (int n * 1000000) else 0)"
proof -
  have d: "isASCIIDigits (nat_dec n)"
    using nat_dec_digits [of n] nat_dec_Nil [of n] by (simp add: isASCIIDigits_def list_all_iff)
  have f: "''retry: '' @ nat_dec n @ [LF, LF] = field ''retry'' (nat_dec n) @ [LF, LF]" by (simp add: field_def)
  show ?thesis
    unfolding retry_after_def f run_retry_digits using d
    by (simp add: on_retry consumeRetry_def on_blank dispatch_def new_parser_def int64_range_def digits_val_nat_dec)
qed

text \<open>
  C38. A retry field is converted from milliseconds to nanoseconds without a check. A value of up
  to 9223372036854 is kept as it is, and one that does not fit an \<open>int64\<close> is ignored; but one
  that fits as milliseconds and not as nanoseconds is not ignored as out of range: it wraps
  to a wrong delay, and up to 18446744073709 to a negative one.
\<close>

theorem retry_conversion_wraps:
  "(n \<le> 9223372036854 \<longrightarrow> retry_after n = int n * 1000000)
   \<and> (9223372036854 < n \<and> n < 2 ^ 63 \<longrightarrow>
        retry_after n = wrap64 (int n * 1000000) \<and> retry_after n \<noteq> int n * 1000000)
   \<and> (9223372036854 < n \<and> n \<le> 18446744073709 \<longrightarrow> retry_after n < 0)
   \<and> (2 ^ 63 \<le> n \<longrightarrow> retry_after n = 0)"
  using wrap64_id [of "int n * 1000000"] wrap64_neg [of "int n * 1000000"]
  by (auto simp: retry_read int64_range_def)

theorem retry_conversion_wraps_witness: "retry_after 9223372036855 < 0 \<and> retry_after 18446744073710 \<noteq> 18446744073710 * 1000000"
  using retry_conversion_wraps [of 9223372036855] retry_conversion_wraps [of 18446744073710] by simp

text \<open>
  C33. Below that, a retry hint arrives as it was sent: a duration is read back rounded down to
  milliseconds, and a negative one as zero.
\<close>

theorem retry_round_trip:
  assumes "int64_range d"
  shows "pa_retry (snd (run_lines new_parser (sse_lines (FrameRetry d)))) = (if d < 0 then 0 else d - d mod 1000000)"
proof -
  let ?r = "field ''retry'' (int_dec (max (d sdiv 1000000) 0))"
  have "list_all plain [?r, []]"
    using is_digit_plain [OF nat_dec_digits] by (simp add: field_def nat_int_dec)
  then have lines: "sse_lines (FrameRetry d) = [?r, []]"
    using sse_lines_concat [of "[?r, []]" "[]"] by (simp only: FrameRetry_lines append_Nil2 sse_lines_Nil)
  have "max (d sdiv 1000000) 0 = (if d < 0 then 0 else d div 1000000)"
    by (auto simp: signed_divide_int_def sgn_if pos_imp_zdiv_nonneg_iff)
  moreover have "d div 1000000 * 1000000 = d - d mod 1000000" by (simp add: minus_mod_eq_div_mult [symmetric])
  moreover have "wrap64 (d - d mod 1000000) = d - d mod 1000000" if "0 \<le> d"
    using assms that by (simp add: wrap64_def int64_range_def)
  moreover have "int64_range (d div 1000000)" if "0 \<le> d"
  proof -
    have "0 \<le> d div 1000000" using that by (simp add: pos_imp_zdiv_nonneg_iff)
    moreover have "d div 1000000 * 1000000 \<le> d"
      using minus_mod_eq_div_mult [of d 1000000] pos_mod_sign [of 1000000 d] by linarith
    ultimately have "d div 1000000 \<le> d" by linarith
    with \<open>0 \<le> d div 1000000\<close> assms show ?thesis by (simp add: int64_range_def)
  qed
  moreover have "wrap64 0 = 0" "int64_range 0" by (simp_all add: wrap64_def int64_range_def)
  ultimately have "received_retry 0 d = (if d < 0 then 0 else d - d mod 1000000)"
    unfolding received_retry_def Let_def by simp
  with run_retry [of new_parser d] show ?thesis
    unfolding lines by (simp add: new_parser_def between_def)
qed

theorem retry_round_trip_witness:
  "pa_retry (snd (run_lines new_parser (sse_lines (FrameRetry 2500999999)))) = 2500000000"
  using retry_round_trip [of 2500999999] by (simp add: int64_range_def)

end
