(* ===== verification/Sse_Sink.thy ===== *)
theory Sse_Sink
  imports Sse_Source
begin

text \<open>
  \<open>sse/sink.go\<close>: \<open>WriterSink\<close> and \<open>HTTPSink\<close>. The \<open>io.Writer\<close> is a function from the bytes
  and the writer's state to an error and the next state, the flusher a function on that
  state; the mutex makes an \<open>Emit\<close> one step. The writer's contract is the locale
  \<open>byte_writer\<close>: what was written grows by the given bytes, and by a prefix of them when
  writing fails.
\<close>

type_synonym 'w writer = "string \<Rightarrow> 'w \<Rightarrow> goerr option \<times> 'w"

record 'w WriterSink =
  wk_write :: "'w writer"

definition NewWriterSink :: "'w writer \<Rightarrow> 'w WriterSink" where
  "NewWriterSink wr = \<lparr>wk_write = wr\<rparr>"

definition WriterSink_Emit :: "'w WriterSink \<Rightarrow> 'w sink" where
  "WriterSink_Emit s ev w =
     (case wk_write s (FrameLines ev) w of
        (Some e, w') \<Rightarrow> (Some (Wrapped e ''write sse frame''), w')
      | (None, w') \<Rightarrow> (None, w'))"

text \<open>A response writer that is a flusher has a flush operation, any other has none.\<close>

record 'w ResponseWriter =
  rw_write :: "'w writer"
  rw_flush :: "('w \<Rightarrow> 'w) option"

record 'w HTTPSink =
  hk_write :: "'w writer"
  hk_flush :: "'w \<Rightarrow> 'w"

definition NewHTTPSink :: "'w ResponseWriter \<Rightarrow> goerr + 'w HTTPSink" where
  "NewHTTPSink w =
     (case rw_flush w of
        None \<Rightarrow> Inl (Wrapped ErrNotAFlusher ''new http sink'')
      | Some f \<Rightarrow> Inr \<lparr>hk_write = rw_write w, hk_flush = f\<rparr>)"

definition HTTPSink_Emit :: "'w HTTPSink \<Rightarrow> 'w sink" where
  "HTTPSink_Emit s ev w =
     (case hk_write s (FrameLines ev) w of
        (Some e, w') \<Rightarrow> (Some (Wrapped e ''write sse frame''), w')
      | (None, w') \<Rightarrow> (None, hk_flush s w'))"

locale byte_writer =
  fixes wr :: "'w writer" and bytes :: "'w \<Rightarrow> string"
  assumes write_ok: "wr bs w = (None, w') \<Longrightarrow> bytes w' = bytes w @ bs"
    and write_err: "wr bs w = (Some e, w') \<Longrightarrow> \<exists>p. prefix p bs \<and> bytes w' = bytes w @ p"
begin

lemma emit_step:
  assumes "wr (FrameLines e) w = (q, w1)"
  shows "emit_all (WriterSink_Emit (NewWriterSink wr)) (e # es) w =
    (case q of None \<Rightarrow> emit_all (WriterSink_Emit (NewWriterSink wr)) es w1
      | Some x \<Rightarrow> (Some (Wrapped x ''write sse frame''), w1))"
  using assms by (simp add: WriterSink_Emit_def [of "NewWriterSink wr" e w]) (simp add: NewWriterSink_def split: option.split)

text \<open>Emitting in order, up to the first failure: whole frames, then a prefix of the failed one.\<close>

lemma emit_all_frames:
  "emit_all (WriterSink_Emit (NewWriterSink wr)) es w = (r, w') \<Longrightarrow>
    \<exists>k p. bytes w' = bytes w @ concat (map FrameLines (take k es)) @ p
      \<and> fst (emit_all (WriterSink_Emit (NewWriterSink wr)) (take k es) w) = None
      \<and> (if r = None then k = length es \<and> p = []
         else k < length es \<and> prefix p (FrameLines (es ! k))
           \<and> fst (emit_all (WriterSink_Emit (NewWriterSink wr)) (take (Suc k) es) w) \<noteq> None)"
proof (induction es arbitrary: w)
  case Nil
  then show ?case by auto
next
  case (Cons e es)
  obtain q w1 where w1: "wr (FrameLines e) w = (q, w1)" by fastforce
  note step = emit_step [OF w1]
  show ?case
  proof (cases q)
    case None
    with step [of es] Cons.prems have "emit_all (WriterSink_Emit (NewWriterSink wr)) es w1 = (r, w')" by simp
    from Cons.IH [OF this] obtain k p where
      "bytes w' = bytes w1 @ concat (map FrameLines (take k es)) @ p"
      "fst (emit_all (WriterSink_Emit (NewWriterSink wr)) (take k es) w1) = None"
      "if r = None then k = length es \<and> p = []
       else k < length es \<and> prefix p (FrameLines (es ! k))
           \<and> fst (emit_all (WriterSink_Emit (NewWriterSink wr)) (take (Suc k) es) w1) \<noteq> None" by blast
    moreover have "bytes w1 = bytes w @ FrameLines e" using write_ok w1 None by simp
    ultimately show ?thesis
      using None by (intro exI [of _ "Suc k"] exI [of _ p]) (simp add: step del: emit_all.simps(2))
  next
    case (Some x)
    with write_err w1 obtain p where "prefix p (FrameLines e)" "bytes w1 = bytes w @ p" by blast
    with step [of es] step [of "[]"] Cons.prems Some show ?thesis
      by (intro exI [of _ 0] exI [of _ p]) (auto simp del: emit_all.simps(2))
  qed
qed

end

text \<open>A buffer that takes every byte, and one that is full after \<open>n\<close> bytes.\<close>

definition buffer_write :: "string writer" where
  "buffer_write bs w = (None, w @ bs)"

definition limited_write :: "nat \<Rightarrow> string writer" where
  "limited_write n bs w =
     (if length w + length bs \<le> n then (None, w @ bs)
      else (Some (ErrOther ''short write''), w @ take (n - length w) bs))"

interpretation buffer: byte_writer buffer_write "\<lambda>w. w"
  by unfold_locales (auto simp: buffer_write_def)

interpretation limited: byte_writer "limited_write n" "\<lambda>w. w" for n
proof unfold_locales
  fix bs w e w' assume "limited_write n bs w = (Some e, w')"
  then show "\<exists>p. prefix p bs \<and> w' = w @ p"
    by (auto simp: limited_write_def take_is_prefix split: if_splits)
qed (auto simp: limited_write_def split: if_splits)

section \<open>What the sinks promise\<close>

text \<open>
  C30. \<open>NewHTTPSink\<close> refuses exactly the response writers that cannot flush, with
  \<open>ErrNotAFlusher\<close> in the error's chain. The sink it builds writes each event's frame and
  flushes exactly when writing succeeded.
\<close>

theorem http_sink_flushes_each_event:
  "case NewHTTPSink rw of
     Inl e \<Rightarrow> rw_flush rw = None \<and> errors_is e ErrNotAFlusher
   | Inr s \<Rightarrow> \<exists>f. rw_flush rw = Some f \<and>
       HTTPSink_Emit s ev w =
         (case WriterSink_Emit (NewWriterSink (rw_write rw)) ev w of
            (None, w') \<Rightarrow> (None, f w') | (Some e, w') \<Rightarrow> (Some e, w'))"
  by (auto simp: NewHTTPSink_def HTTPSink_Emit_def WriterSink_Emit_def NewWriterSink_def
      split: option.split prod.split)

lemma length_received_all: "length (received_all i (map FEvent es)) = length es"
  by (induction es arbitrary: i) simp_all

lemma take_received_all: "take n (received_all i (map FEvent es)) = received_all i (map FEvent (take n es))"
  by (induction es arbitrary: i n) (simp_all add: take_Cons split: nat.split)

lemma sse_events_events: "sse_events (concat (map FrameLines es)) = received_all [] (map FEvent es)"
  using sse_events_frames [of "map FEvent es"] by (simp add: comp_def)

lemma sse_events_cut_frame:
  assumes "k < length es" and "prefix p (FrameLines (es ! k))"
  shows "\<exists>n. (n = k \<or> n = Suc k)
    \<and> sse_events (concat (map FrameLines (take k es)) @ p) = received_all [] (map FEvent (take n es))"
proof -
  let ?b = "concat (map FrameLines (take k es))" and ?all = "received_all [] (map FEvent (take (Suc k) es))"
  obtain q where q: "FrameLines (es ! k) = p @ q" using assms(2) by (auto simp: prefix_def)
  have "(?b @ p) @ q = concat (map FrameLines (take (Suc k) es))"
    using assms(1) q by (simp add: take_Suc_conv_app_nth)
  with sse_events_cut [of "?b @ p" q] have up: "prefix (sse_events (?b @ p)) ?all"
    by (simp only: sse_events_events)
  from sse_events_cut [of ?b p] have low: "k \<le> length (sse_events (?b @ p))"
    using assms(1) by (auto simp: sse_events_events length_received_all dest: prefix_length_le)
  let ?n = "length (sse_events (?b @ p))"
  have "?n \<le> Suc k" using prefix_length_le [OF up] assms(1) by (simp add: length_received_all)
  with low have "?n = k \<or> ?n = Suc k" by linarith
  moreover have "sse_events (?b @ p) = take ?n ?all" using up by (metis append_eq_conv_conj prefix_def)
  then have "sse_events (?b @ p) = received_all [] (map FEvent (take ?n es))"
    using \<open>?n \<le> Suc k\<close> by (simp only: take_received_all take_take min.absorb1)
  ultimately show ?thesis by blast
qed

text \<open>
  C14. From sink to source: events emitted into a \<open>WriterSink\<close>, whose writer may fail in the
  middle of a frame, and read by a \<open>Source\<close> from a reader that delivers the written bytes in
  any chunks, when every written line fits the source's 1 MiB buffer, arrive as \<open>received\<close>: all of them when no write failed, and otherwise those
  before the \<open>k\<close>-th, the first that was refused, and possibly that one, but never a part of
  an event.
\<close>

theorem sink_to_source:
  assumes "byte_writer wr bytes" and "bytes w = []"
    and "emit_all (WriterSink_Emit (NewWriterSink wr)) es w = (r, w')"
    and "byte_reader rd content io_EOF rok" and "rok i" and "content i = bytes w'"
    and "lines_fit (bytes w')"
  shows "\<exists>n k. collect (Next rd) (NewSource i)
      = Some (received_all [] (map FEvent (take n es)), ErrNoMoreEvents)
    \<and> fst (emit_all (WriterSink_Emit (NewWriterSink wr)) (take k es) w) = None
    \<and> (if r = None then k = length es \<and> n = k
       else k < length es \<and> fst (emit_all (WriterSink_Emit (NewWriterSink wr)) (take (Suc k) es) w) \<noteq> None
         \<and> (n = k \<or> n = Suc k))"
proof -
  from byte_writer.emit_all_frames [OF assms(1,3)] assms(2) obtain k p where
    kp: "bytes w' = concat (map FrameLines (take k es)) @ p"
    "fst (emit_all (WriterSink_Emit (NewWriterSink wr)) (take k es) w) = None"
    "if r = None then k = length es \<and> p = []
     else k < length es \<and> prefix p (FrameLines (es ! k))
       \<and> fst (emit_all (WriterSink_Emit (NewWriterSink wr)) (take (Suc k) es) w) \<noteq> None"
    by auto
  have "collect (Next rd) (NewSource i) = Some (sse_events (bytes w'), ErrNoMoreEvents)"
    using byte_reader.collect_Next [OF assms(4), of "NewSource i" "[]"]
      byte_reader.NewSource_ok [OF assms(4,5)] assms(6,7)
    by (simp add: collect_def byte_reader.end_error_def [OF assms(4)])
  moreover have "\<exists>n. (if r = None then n = k else n = k \<or> n = Suc k)
      \<and> sse_events (bytes w') = received_all [] (map FEvent (take n es))"
  proof (cases "r = None")
    case True
    with kp show ?thesis by (auto simp: sse_events_events)
  next
    case False
    with kp sse_events_cut_frame [of k es p] show ?thesis by auto
  qed
  ultimately show ?thesis using kp(2,3) by (metis (no_types, lifting))
qed

theorem sink_to_source_witness:
  "collect (Next (chunk_read io_EOF)) (NewSource [FrameLines \<lparr>ev_ID = ''1'', ev_Event = ''a'', ev_Data = ''x''\<rparr>])
    = Some ([\<lparr>ev_ID = ''1'', ev_Event = ''a'', ev_Data = ''x''\<rparr>], ErrNoMoreEvents)"
proof -
  let ?e = "\<lparr>ev_ID = ''1'', ev_Event = ''a'', ev_Data = ''x''\<rparr>"
  have emit: "emit_all (WriterSink_Emit (NewWriterSink buffer_write)) [?e] [] = (None, FrameLines ?e)"
    by (simp add: WriterSink_Emit_def NewWriterSink_def buffer_write_def)
  have lines: "sse_lines (FrameLines ?e) = [''id: 1'', ''event: a'', ''data: x'', []]"
    using sse_lines_concat [OF frame_lines_plain, of ?e "[]"]
    by (simp add: FrameLines_lines) (simp add: frame_lines_def field_def sanitizeFieldValue_def normalize_def replace_cr_def)
  then have "lines_fit (FrameLines ?e)" by (simp add: lines_fit_def maxLineSize_def)
  moreover have "FrameLines ?e \<noteq> []" using lines by auto
  ultimately show ?thesis
    using sink_to_source [OF buffer.byte_writer_axioms refl emit chunks.byte_reader_axioms, of "[FrameLines ?e]"]
    by (auto simp: received_def sanitizeFieldValue_def normalize_def replace_cr_def)
qed

end
