(* ===== verification/Reassemble.thy ===== *)
theory Reassemble
  imports Sse_Sink "HOL-Library.AList" "HOL-Library.Multiset"
begin

text \<open>
  \<open>reassemble.go\<close>: the structured turn rebuilt from a source's events. The two maps of blocks
  in flight are association lists; where the code ranges over a map, the order is the
  parameter \<open>ord\<close>, which permutes the keys. What is logged is not modelled, and the string
  \<open>Error\<close> is the error it was rendered from.
\<close>

section \<open>The reassembled turn\<close>

definition TimelineKindThinking :: string where "TimelineKindThinking = ''thinking''"
definition TimelineKindText :: string where "TimelineKindText = ''text''"
definition TimelineKindTool :: string where "TimelineKindTool = ''tool''"

record ToolExecution =
  TE_Name :: string
  TE_Params :: string
  TE_Result :: string
  TE_ToolUseID :: string

record TimelineItem =
  TI_Kind :: string
  TI_Text :: string
  TI_Execution :: "ToolExecution option"

record ToolCall =
  TC_Name :: string
  TC_Params :: string
  TC_ToolUseID :: string

record ParsedStream =
  PS_StreamID :: string
  PS_Thinking :: string
  PS_Text :: string
  PS_ToolNames :: "string list"
  PS_Tools :: "ToolCall list"
  PS_Executions :: "ToolExecution list"
  PS_Timeline :: "TimelineItem list"
  PS_Error :: "goerr option"

record inflightTool =
  it_name :: string
  it_toolUseID :: string
  it_params :: "string list"

record inflightResult =
  ir_toolUseID :: string
  ir_parts :: "string list"

record reassembler =
  re_result :: ParsedStream
  re_curTextParts :: "string list"
  re_allTextParts :: "string list"
  re_curThinkingParts :: "string list"
  re_allThinkingParts :: "string list"
  re_tools :: "(int \<times> inflightTool) list"
  re_results :: "(int \<times> inflightResult) list"
  re_thinkingIndex :: int
  re_textIndex :: int

definition empty_stream :: ParsedStream where
  "empty_stream = \<lparr>PS_StreamID = [], PS_Thinking = [], PS_Text = [], PS_ToolNames = [], PS_Tools = [],
     PS_Executions = [], PS_Timeline = [], PS_Error = None\<rparr>"

definition new_reassembler :: reassembler where
  "new_reassembler = \<lparr>re_result = empty_stream, re_curTextParts = [], re_allTextParts = [],
     re_curThinkingParts = [], re_allThinkingParts = [], re_tools = [], re_results = [],
     re_thinkingIndex = -1, re_textIndex = -1\<rparr>"

section \<open>Segments and blocks\<close>

definition flushTextSegment :: "reassembler \<Rightarrow> reassembler" where
  "flushTextSegment r =
     (if re_curTextParts r = [] then r
      else let txt = concat (re_curTextParts r);
               r1 = r\<lparr>re_curTextParts := []\<rparr>
           in if txt = [] then r1
              else r1\<lparr>re_allTextParts := re_allTextParts r1 @ [txt],
                      re_result := (re_result r1)\<lparr>PS_Timeline := PS_Timeline (re_result r1)
                        @ [\<lparr>TI_Kind = TimelineKindText, TI_Text = txt, TI_Execution = None\<rparr>]\<rparr>\<rparr>)"

definition flushThinkingSegment :: "reassembler \<Rightarrow> reassembler" where
  "flushThinkingSegment r =
     (if re_curThinkingParts r = [] then r
      else let thinking = concat (re_curThinkingParts r);
               r1 = r\<lparr>re_curThinkingParts := []\<rparr>
           in if thinking = [] then r1
              else r1\<lparr>re_allThinkingParts := re_allThinkingParts r1 @ [thinking],
                      re_result := (re_result r1)\<lparr>PS_Timeline := PS_Timeline (re_result r1)
                        @ [\<lparr>TI_Kind = TimelineKindThinking, TI_Text = thinking, TI_Execution = None\<rparr>]\<rparr>\<rparr>)"

definition closeTextBlock :: "reassembler \<Rightarrow> reassembler" where
  "closeTextBlock r = (flushTextSegment r)\<lparr>re_textIndex := -1\<rparr>"

definition closeThinkingBlock :: "reassembler \<Rightarrow> reassembler" where
  "closeThinkingBlock r = (flushThinkingSegment r)\<lparr>re_thinkingIndex := -1\<rparr>"

definition finalizeTool :: "inflightTool \<Rightarrow> reassembler \<Rightarrow> reassembler" where
  "finalizeTool t r =
     (let rawJSON0 = concat (it_params t);
          rawJSON = (if rawJSON0 = [] then emptyToolInput else rawJSON0)
      in r\<lparr>re_result := (re_result r)\<lparr>PS_Tools := PS_Tools (re_result r)
           @ [\<lparr>TC_Name = it_name t, TC_Params = rawJSON, TC_ToolUseID = it_toolUseID t\<rparr>]\<rparr>\<rparr>)"

definition finalizeResult :: "inflightResult \<Rightarrow> reassembler \<Rightarrow> reassembler" where
  "finalizeResult res r =
     (let resultText = concat (ir_parts res)
      in case find (\<lambda>t. TC_ToolUseID t = ir_toolUseID res) (PS_Tools (re_result r)) of
           None \<Rightarrow> r
         | Some t \<Rightarrow>
             (let exec = \<lparr>TE_Name = TC_Name t, TE_Params = TC_Params t, TE_Result = resultText,
                          TE_ToolUseID = ir_toolUseID res\<rparr>
              in r\<lparr>re_result := (re_result r)\<lparr>
                   PS_Executions := PS_Executions (re_result r) @ [exec],
                   PS_Timeline := PS_Timeline (re_result r)
                     @ [\<lparr>TI_Kind = TimelineKindTool, TI_Text = [], TI_Execution = Some exec\<rparr>]\<rparr>\<rparr>))"

text \<open>Ranging over a map while deleting from it visits every key once, in some order.\<close>

definition flush_tool :: "int \<Rightarrow> reassembler \<Rightarrow> reassembler" where
  "flush_tool idx r =
     (case map_of (re_tools r) idx of
        None \<Rightarrow> r
      | Some t \<Rightarrow> (finalizeTool t r)\<lparr>re_tools := AList.delete idx (re_tools r)\<rparr>)"

definition flush_result :: "int \<Rightarrow> reassembler \<Rightarrow> reassembler" where
  "flush_result idx r =
     (case map_of (re_results r) idx of
        None \<Rightarrow> r
      | Some res \<Rightarrow> (finalizeResult res r)\<lparr>re_results := AList.delete idx (re_results r)\<rparr>)"

definition flushAll :: "(int list \<Rightarrow> int list) \<Rightarrow> reassembler \<Rightarrow> reassembler" where
  "flushAll ord r =
     (let r1 = closeThinkingBlock (closeTextBlock r);
          r2 = fold flush_tool (ord (map fst (re_tools r1))) r1
      in fold flush_result (ord (map fst (re_results r2))) r2)"

definition finalize :: "(int list \<Rightarrow> int list) \<Rightarrow> reassembler \<Rightarrow> reassembler" where
  "finalize ord r =
     (let r1 = flushAll ord r
      in r1\<lparr>re_result := (re_result r1)\<lparr>PS_Thinking := concat (re_allThinkingParts r1),
             PS_Text := concat (re_allTextParts r1)\<rparr>\<rparr>)"

section \<open>The handlers\<close>

definition onMessageStart :: "string \<Rightarrow> reassembler \<Rightarrow> reassembler" where
  "onMessageStart data r =
     (case unmarshal_MessageStartData data of
        None \<Rightarrow> r
      | Some msg \<Rightarrow> r\<lparr>re_result := (re_result r)\<lparr>PS_StreamID := MM_StreamID (MSD_Message msg)\<rparr>\<rparr>)"

text \<open>The anonymous struct of \<open>startTextThinkingOrUnknown\<close> is its one string.\<close>

definition dec_generic :: "string \<Rightarrow> jval \<Rightarrow> string option" where
  "dec_generic = dec_struct
     [(''content_block'', \<lambda>r v. dec_struct [(''type'', \<lambda>r v. dec_string r v)] r v)]"

definition unmarshal_generic :: "string \<Rightarrow> string option" where
  "unmarshal_generic = json_unmarshal dec_generic []"

definition startTextThinkingOrUnknown :: "string \<Rightarrow> int \<Rightarrow> reassembler \<Rightarrow> reassembler" where
  "startTextThinkingOrUnknown data index r =
     (case unmarshal_generic data of
        None \<Rightarrow> r
      | Some ty \<Rightarrow>
          (if ty = ContentBlockTypeText \<or> ty = []
           then (closeTextBlock (closeThinkingBlock r))\<lparr>re_textIndex := index\<rparr>
           else if ty = ContentBlockTypeThinking
           then (closeThinkingBlock (closeTextBlock r))\<lparr>re_thinkingIndex := index\<rparr>
           else r))"

definition start_tool_use :: "ContentBlockStartToolUseData \<Rightarrow> reassembler \<Rightarrow> reassembler" where
  "start_tool_use toolUse r =
     (let r1 = closeThinkingBlock (closeTextBlock r);
          name = TUB_Name (CTU_ContentBlock toolUse)
      in r1\<lparr>re_result := (re_result r1)\<lparr>PS_ToolNames := PS_ToolNames (re_result r1) @ [name]\<rparr>,
            re_tools := AList.update (CTU_Index toolUse)
              \<lparr>it_name = name, it_toolUseID = TUB_ID (CTU_ContentBlock toolUse), it_params = []\<rparr> (re_tools r1)\<rparr>)"

definition start_tool_result :: "ContentBlockStartToolResultData \<Rightarrow> reassembler \<Rightarrow> reassembler" where
  "start_tool_result toolResult r =
     (let r1 = closeThinkingBlock (closeTextBlock r)
      in r1\<lparr>re_results := AList.update (CTR_Index toolResult)
              \<lparr>ir_toolUseID = TRB_ToolUseID (CTR_ContentBlock toolResult), ir_parts = []\<rparr> (re_results r1)\<rparr>)"

text \<open>\<open>json.Unmarshal(data, &x) == nil && p(x)\<close>.\<close>

definition decoded :: "(string \<Rightarrow> 'a option) \<Rightarrow> ('a \<Rightarrow> bool) \<Rightarrow> string \<Rightarrow> 'a option" where
  "decoded um p data = (case um data of None \<Rightarrow> None | Some x \<Rightarrow> if p x then Some x else None)"

definition onContentBlockStart :: "string \<Rightarrow> reassembler \<Rightarrow> reassembler" where
  "onContentBlockStart data r =
     (case unmarshal_ContentBlockStopData data of
        None \<Rightarrow> r
      | Some meta \<Rightarrow>
          (case decoded unmarshal_ContentBlockStartToolUseData
                  (\<lambda>x. TUB_Type (CTU_ContentBlock x) = ContentBlockTypeToolUse) data of
             Some toolUse \<Rightarrow> start_tool_use toolUse r
           | None \<Rightarrow>
               (case decoded unmarshal_ContentBlockStartToolResultData
                       (\<lambda>x. TRB_Type (CTR_ContentBlock x) = ContentBlockTypeToolResult) data of
                  Some toolResult \<Rightarrow> start_tool_result toolResult r
                | None \<Rightarrow> startTextThinkingOrUnknown data (CBP_Index meta) r)))"

definition handleTextDelta :: "ContentBlockDeltaData \<Rightarrow> reassembler \<Rightarrow> reassembler" where
  "handleTextDelta delta r = r\<lparr>re_curTextParts := re_curTextParts r @ [TD_Text (CBD_Delta delta)]\<rparr>"

definition handleThinkingDelta :: "ContentBlockDeltaData \<Rightarrow> reassembler \<Rightarrow> reassembler" where
  "handleThinkingDelta delta r =
     (if CBD_Index delta = re_thinkingIndex r
      then r\<lparr>re_curThinkingParts := re_curThinkingParts r @ [TD_Text (CBD_Delta delta)]\<rparr> else r)"

text \<open>The result \<open>false\<close> of \<open>handleTextOrThinkingDelta\<close> is \<open>None\<close>.\<close>

definition handleTextOrThinkingDelta :: "ContentBlockDeltaData \<Rightarrow> reassembler \<Rightarrow> reassembler option" where
  "handleTextOrThinkingDelta delta r =
     (if TD_Type (CBD_Delta delta) = ContentBlockTypeTextDelta then Some (handleTextDelta delta r)
      else if TD_Type (CBD_Delta delta) = ContentBlockTypeThinkingDelta then Some (handleThinkingDelta delta r)
      else None)"

definition tool_input_delta :: "ContentBlockDeltaToolInputData \<Rightarrow> reassembler \<Rightarrow> reassembler" where
  "tool_input_delta d r =
     (case map_of (re_tools r) (CDI_Index d) of
        Some t \<Rightarrow> r\<lparr>re_tools := AList.update (CDI_Index d)
          (t\<lparr>it_params := it_params t @ [IJD_PartialJSON (CDI_Delta d)]\<rparr>) (re_tools r)\<rparr>
      | None \<Rightarrow> r)"

definition tool_result_delta :: "ContentBlockDeltaToolResultData \<Rightarrow> reassembler \<Rightarrow> reassembler" where
  "tool_result_delta d r =
     (case map_of (re_results r) (CDR_Index d) of
        Some res \<Rightarrow> r\<lparr>re_results := AList.update (CDR_Index d)
          (res\<lparr>ir_parts := ir_parts res @ [TRD_Text (CDR_Delta d)]\<rparr>) (re_results r)\<rparr>
      | None \<Rightarrow> r)"

definition onContentBlockDelta :: "string \<Rightarrow> reassembler \<Rightarrow> reassembler" where
  "onContentBlockDelta data r =
     (case (case unmarshal_ContentBlockDeltaData data of
              None \<Rightarrow> None | Some textDelta \<Rightarrow> handleTextOrThinkingDelta textDelta r) of
        Some r' \<Rightarrow> r'
      | None \<Rightarrow>
          (case decoded unmarshal_ContentBlockDeltaToolInputData
                  (\<lambda>x. IJD_Type (CDI_Delta x) = ContentBlockTypeInputJSON) data of
             Some inputDelta \<Rightarrow> tool_input_delta inputDelta r
           | None \<Rightarrow>
               (case decoded unmarshal_ContentBlockDeltaToolResultData
                       (\<lambda>x. TRD_Type (CDR_Delta x) = ContentBlockTypeJSONPartial) data of
                  Some resultDelta \<Rightarrow> tool_result_delta resultDelta r
                | None \<Rightarrow> r)))"

definition stop_block :: "int \<Rightarrow> reassembler \<Rightarrow> reassembler" where
  "stop_block i r =
     (case map_of (re_tools r) i of
        Some t \<Rightarrow> (let r1 = finalizeTool t r in r1\<lparr>re_tools := AList.delete i (re_tools r1)\<rparr>)
      | None \<Rightarrow>
          (case map_of (re_results r) i of
             Some res \<Rightarrow> (let r1 = finalizeResult res r in r1\<lparr>re_results := AList.delete i (re_results r1)\<rparr>)
           | None \<Rightarrow>
               (if i = re_textIndex r then closeTextBlock r
                else if i = re_thinkingIndex r then closeThinkingBlock r
                else r)))"

definition onContentBlockStop :: "string \<Rightarrow> reassembler \<Rightarrow> reassembler" where
  "onContentBlockStop data r =
     (case unmarshal_ContentBlockStopData data of
        None \<Rightarrow> r
      | Some stop \<Rightarrow> stop_block (CBP_Index stop) r)"

definition handleEvent :: "(int list \<Rightarrow> int list) \<Rightarrow> string \<Rightarrow> string \<Rightarrow> reassembler \<Rightarrow> reassembler" where
  "handleEvent ord eventType data r =
     (if eventType = EventTypeMessageStart then onMessageStart data r
      else if eventType = EventTypeContentBlockStart then onContentBlockStart data r
      else if eventType = EventTypeContentBlockDelta then onContentBlockDelta data r
      else if eventType = EventTypeContentBlockStop then onContentBlockStop data r
      else if eventType = EventTypeMessageStop then finalize ord r
      else r)"

partial_function (option) reassemble ::
    "(int list \<Rightarrow> int list) \<Rightarrow> 's source \<Rightarrow> reassembler \<Rightarrow> 's \<Rightarrow> ParsedStream option" where
  "reassemble ord nxt r s =
     (case nxt s of
        None \<Rightarrow> None
      | Some (Inl err, s') \<Rightarrow>
          Some (re_result (finalize ord
            (if errors_is err ErrNoMoreEvents then r
             else r\<lparr>re_result := (re_result r)\<lparr>PS_Error := Some (Wrapped err ''read next event'')\<rparr>\<rparr>)))
      | Some (Inr ev, s') \<Rightarrow>
          (let r' = handleEvent ord (ev_Event ev) (ev_Data ev) r
           in if ev_Event ev = EventTypeMessageStop then Some (re_result r')
              else reassemble ord nxt r' s'))"

definition Reassemble :: "(int list \<Rightarrow> int list) \<Rightarrow> 's source \<Rightarrow> 's \<Rightarrow> ParsedStream option" where
  "Reassemble ord nxt s = reassemble ord nxt new_reassembler s"

section \<open>Reassembly of a list of events\<close>

text \<open>The loop as a fold: the events up to and including the first \<open>message_stop\<close>.\<close>

definition handle :: "(int list \<Rightarrow> int list) \<Rightarrow> event \<Rightarrow> reassembler \<Rightarrow> reassembler" where
  "handle ord e r = handleEvent ord (ev_Event e) (ev_Data e) r"

fun handle_all :: "(int list \<Rightarrow> int list) \<Rightarrow> event list \<Rightarrow> reassembler \<Rightarrow> reassembler" where
  "handle_all ord [] r = r"
| "handle_all ord (e # es) r = handle_all ord es (handle ord e r)"

definition not_stop :: "event \<Rightarrow> bool" where
  "not_stop e \<longleftrightarrow> ev_Event e \<noteq> EventTypeMessageStop"

definition reassemble_events :: "(int list \<Rightarrow> int list) \<Rightarrow> event list \<Rightarrow> ParsedStream" where
  "reassemble_events ord es = re_result (finalize ord (handle_all ord (takeWhile not_stop es) new_reassembler))"

lemma handle_all_append: "handle_all ord (es @ fs) r = handle_all ord fs (handle_all ord es r)"
  by (induction es arbitrary: r) simp_all

context event_source
begin

lemma reassemble_pending:
  "inv s \<Longrightarrow> reassemble ord nxt r s
    = Some (re_result (finalize ord (handle_all ord (takeWhile not_stop (pending s)) r)))"
proof (induction "pending s" arbitrary: s r)
  case Nil
  with next_end show ?case by (force simp: reassemble.simps [of ord nxt r s])
next
  case (Cons e es)
  from next_event [OF Cons.prems Cons.hyps(2) [symmetric]] obtain s' where
    s': "nxt s = Some (Inr e, s')" "inv s'" "pending s' = es" by blast
  show ?case
  proof (cases "ev_Event e = EventTypeMessageStop")
    case True
    with s' Cons.hyps(2) [symmetric] show ?thesis
      by (simp add: reassemble.simps [of ord nxt r s] not_stop_def handle_def handleEvent_def wire_consts)
  next
    case False
    with s' Cons.hyps(1) [OF s'(3) [symmetric] s'(2)] Cons.hyps(2) [symmetric] show ?thesis
      by (simp add: reassemble.simps [of ord nxt r s] not_stop_def handle_def)
  qed
qed

lemma Reassemble_pending: "inv s \<Longrightarrow> Reassemble ord nxt s = Some (reassemble_events ord (pending s))"
  by (simp add: Reassemble_def reassemble_events_def reassemble_pending)

end

section \<open>What the handlers make of the publisher's events\<close>

named_theorems handled \<open>one handler on one of the publisher's events\<close>

lemma rt_generic_BlockStart [wire_rt]:
  "int64_range (CBS_Index d) \<Longrightarrow>
    unmarshal_generic (print_val (enc_ContentBlockStartData d)) = Some (to_valid_utf8 (CB_Type (CBS_ContentBlock d)))"
  by (simp add: unmarshal_generic_def dec_generic_def wire_eval)

lemma to_valid_consts [simp]:
  "to_valid_utf8 ContentBlockTypeText = ContentBlockTypeText"
  "to_valid_utf8 ContentBlockTypeThinking = ContentBlockTypeThinking"
  "to_valid_utf8 ContentBlockTypeToolUse = ContentBlockTypeToolUse"
  "to_valid_utf8 ContentBlockTypeToolResult = ContentBlockTypeToolResult"
  "to_valid_utf8 ContentBlockTypeTextDelta = ContentBlockTypeTextDelta"
  "to_valid_utf8 ContentBlockTypeThinkingDelta = ContentBlockTypeThinkingDelta"
  "to_valid_utf8 ContentBlockTypeInputJSON = ContentBlockTypeInputJSON"
  "to_valid_utf8 ContentBlockTypeJSONPartial = ContentBlockTypeJSONPartial"
  by (simp_all add: to_valid_ascii wire_consts)

lemma event_types_distinct:
  "EventTypeContentBlockStart \<noteq> EventTypeMessageStart"
  "EventTypeContentBlockDelta \<noteq> EventTypeMessageStart" "EventTypeContentBlockDelta \<noteq> EventTypeContentBlockStart"
  "EventTypeContentBlockStop \<noteq> EventTypeMessageStart" "EventTypeContentBlockStop \<noteq> EventTypeContentBlockStart"
  "EventTypeContentBlockStop \<noteq> EventTypeContentBlockDelta"
  by (simp_all add: wire_consts)

lemma block_types_distinct:
  "ContentBlockTypeText \<noteq> ContentBlockTypeToolUse" "ContentBlockTypeThinking \<noteq> ContentBlockTypeToolUse"
  "ContentBlockTypeText \<noteq> ContentBlockTypeToolResult" "ContentBlockTypeThinking \<noteq> ContentBlockTypeToolResult"
  "ContentBlockTypeThinking \<noteq> ContentBlockTypeText" "ContentBlockTypeThinking \<noteq> []"
  "ContentBlockTypeToolResult \<noteq> ContentBlockTypeToolUse"
  "ContentBlockTypeThinkingDelta \<noteq> ContentBlockTypeTextDelta"
  "ContentBlockTypeInputJSON \<noteq> ContentBlockTypeTextDelta" "ContentBlockTypeInputJSON \<noteq> ContentBlockTypeThinkingDelta"
  "ContentBlockTypeJSONPartial \<noteq> ContentBlockTypeTextDelta" "ContentBlockTypeJSONPartial \<noteq> ContentBlockTypeThinkingDelta"
  "ContentBlockTypeJSONPartial \<noteq> ContentBlockTypeInputJSON"
  by (simp_all add: wire_consts)

lemma handle_start [handled]:
  assumes "int64_range i"
  shows "handle ord (start_event k i) r =
    (case k of
       streamerText \<Rightarrow> (closeTextBlock (closeThinkingBlock r))\<lparr>re_textIndex := i\<rparr>
     | streamerThinking \<Rightarrow> (closeThinkingBlock (closeTextBlock r))\<lparr>re_thinkingIndex := i\<rparr>)"
  using assms
  by (cases k) (simp_all add: handle_def start_event_def payload_event_def pl_BlockStart_def handleEvent_def
      event_types_distinct onContentBlockStart_def decoded_def startTextThinkingOrUnknown_def
      wire_rt block_types_distinct)

lemma handle_delta [handled]:
  assumes "int64_range i"
  shows "handle ord (delta_event k i t) r =
    (case k of
       streamerText \<Rightarrow> r\<lparr>re_curTextParts := re_curTextParts r @ [to_valid_utf8 t]\<rparr>
     | streamerThinking \<Rightarrow>
         (if i = re_thinkingIndex r
          then r\<lparr>re_curThinkingParts := re_curThinkingParts r @ [to_valid_utf8 t]\<rparr> else r))"
  using assms
  by (cases k) (simp_all add: handle_def delta_event_def payload_event_def pl_BlockDelta_def handleEvent_def
      event_types_distinct onContentBlockDelta_def handleTextOrThinkingDelta_def handleTextDelta_def
      handleThinkingDelta_def wire_rt block_types_distinct)

lemma handle_stop [handled]:
  assumes "int64_range i"
  shows "handle ord (stop_event i) r = stop_block i r"
  using assms
  by (simp add: handle_def stop_event_def payload_event_def pl_BlockStop_def handleEvent_def
      event_types_distinct onContentBlockStop_def wire_rt)

definition tool_use_event :: "int \<Rightarrow> string \<Rightarrow> string \<Rightarrow> event" where
  "tool_use_event i u n = payload_event EventTypeContentBlockStart (pl_ToolUseStart i u n)"

definition tool_input_event :: "int \<Rightarrow> string \<Rightarrow> event" where
  "tool_input_event i t = payload_event EventTypeContentBlockDelta (pl_ToolInputDelta i t)"

definition tool_result_event :: "int \<Rightarrow> string \<Rightarrow> bool \<Rightarrow> event" where
  "tool_result_event i u x = payload_event EventTypeContentBlockStart (pl_ToolResultStart i u x)"

definition tool_text_event :: "int \<Rightarrow> string \<Rightarrow> event" where
  "tool_text_event i t = payload_event EventTypeContentBlockDelta (pl_ToolResultDelta i t)"

lemma handle_tool_use [handled]:
  assumes "int64_range i"
  shows "handle ord (tool_use_event i u n) r =
    (let r1 = closeThinkingBlock (closeTextBlock r)
     in r1\<lparr>re_result := (re_result r1)\<lparr>PS_ToolNames := PS_ToolNames (re_result r1) @ [to_valid_utf8 n]\<rparr>,
          re_tools := AList.update i
            \<lparr>it_name = to_valid_utf8 n, it_toolUseID = to_valid_utf8 u, it_params = []\<rparr> (re_tools r1)\<rparr>)"
  using assms
  by (simp add: handle_def tool_use_event_def payload_event_def pl_ToolUseStart_def handleEvent_def
      event_types_distinct onContentBlockStart_def decoded_def start_tool_use_def Let_def wire_rt block_types_distinct)

lemma handle_tool_input [handled]:
  assumes "int64_range i"
  shows "handle ord (tool_input_event i t) r =
    (case map_of (re_tools r) i of
       Some b \<Rightarrow> r\<lparr>re_tools := AList.update i (b\<lparr>it_params := it_params b @ [to_valid_utf8 t]\<rparr>) (re_tools r)\<rparr>
     | None \<Rightarrow> r)"
  using assms
  by (simp add: handle_def tool_input_event_def payload_event_def pl_ToolInputDelta_def handleEvent_def
      event_types_distinct onContentBlockDelta_def handleTextOrThinkingDelta_def decoded_def
      tool_input_delta_def wire_rt block_types_distinct split: option.split)

lemma handle_tool_result [handled]:
  assumes "int64_range i"
  shows "handle ord (tool_result_event i u x) r =
    (let r1 = closeThinkingBlock (closeTextBlock r)
     in r1\<lparr>re_results := AList.update i \<lparr>ir_toolUseID = to_valid_utf8 u, ir_parts = []\<rparr> (re_results r1)\<rparr>)"
  using assms
  by (simp add: handle_def tool_result_event_def payload_event_def pl_ToolResultStart_def handleEvent_def
      event_types_distinct onContentBlockStart_def decoded_def start_tool_result_def wire_rt block_types_distinct)

lemma handle_tool_text [handled]:
  assumes "int64_range i"
  shows "handle ord (tool_text_event i t) r =
    (case map_of (re_results r) i of
       Some b \<Rightarrow> r\<lparr>re_results := AList.update i (b\<lparr>ir_parts := ir_parts b @ [to_valid_utf8 t]\<rparr>) (re_results r)\<rparr>
     | None \<Rightarrow> r)"
  using assms
  by (simp add: handle_def tool_text_event_def payload_event_def pl_ToolResultDelta_def handleEvent_def
      event_types_distinct onContentBlockDelta_def handleTextOrThinkingDelta_def decoded_def
      tool_result_delta_def wire_rt block_types_distinct split: option.split)

lemma handle_message_start [handled]:
  "handle ord (payload_event EventTypeMessageStart (pl_MessageStart a b c)) r
    = r\<lparr>re_result := (re_result r)\<lparr>PS_StreamID := to_valid_utf8 b\<rparr>\<rparr>"
proof -
  let ?d = "\<lparr>MSD_Type = EventTypeMessageStart, MSD_Message = \<lparr>MM_ID = a, MM_StreamID = b, MM_Type = MessageTypeMessage,
    MM_Role = RoleAssistant, MM_Content = Some [], MM_Model = c, MM_StopReason = None, MM_StopSequence = None,
    MM_Usage = \<lparr>InputTokens = 0, OutputTokens = 0\<rparr>\<rparr>\<rparr>"
  have d: "pl_MessageStart a b c = PMessageStart ?d" by (simp add: pl_MessageStart_def)
  have "map_option (\<lambda>m. MM_StreamID (MSD_Message m)) (unmarshal_MessageStartData (print_val (enc_MessageStartData ?d)))
      = Some (to_valid_utf8 b)"
    using rt_MessageStart [of ?d] by (simp add: int64_range_def)
  then show ?thesis
    by (auto simp: handle_def payload_event_def d handleEvent_def onMessageStart_def)
qed

lemma handle_other [handled]:
  "handle ord (payload_event EventTypePing p) r = r"
  "handle ord (payload_event EventTypeMessageDelta p) r = r"
  by (simp_all add: handle_def payload_event_def handleEvent_def wire_consts)

lemma not_stop_events [simp]:
  "not_stop (start_event k i)" "not_stop (delta_event k i t)" "not_stop (stop_event i)"
  "not_stop (tool_use_event i u n)" "not_stop (tool_input_event i t)"
  "not_stop (tool_result_event i u x)" "not_stop (tool_text_event i t)"
  "not_stop (payload_event EventTypeMessageStart p)" "not_stop (payload_event EventTypePing p)"
  "not_stop (payload_event EventTypeMessageDelta p)" "\<not> not_stop (payload_event EventTypeMessageStop p)"
  by (simp_all add: not_stop_def start_event_def delta_event_def stop_event_def tool_use_event_def
      tool_input_event_def tool_result_event_def tool_text_event_def payload_event_def wire_consts)

section \<open>A turn of consecutive blocks\<close>

datatype seg =
    TextSeg "string list"
  | ThinkSeg "string list"
  | ToolSeg string string "string list"
  | ResultSeg string bool "string list"

fun seg_events :: "int \<Rightarrow> seg \<Rightarrow> event list" where
  "seg_events i (TextSeg ts) =
     start_event streamerText i # map (delta_event streamerText i) ts @ [stop_event i]"
| "seg_events i (ThinkSeg ts) =
     start_event streamerThinking i # map (delta_event streamerThinking i) ts @ [stop_event i]"
| "seg_events i (ToolSeg u n ts) = tool_use_event i u n # map (tool_input_event i) ts @ [stop_event i]"
| "seg_events i (ResultSeg u x ts) = tool_result_event i u x # map (tool_text_event i) ts @ [stop_event i]"

fun segs_events :: "int \<Rightarrow> seg list \<Rightarrow> event list" where
  "segs_events i [] = []"
| "segs_events i (s # ss) = seg_events i s @ segs_events (i + 1) ss"

text \<open>What a decoded delta sequence says, and what a block adds to the turn.\<close>

definition decoded_text :: "string list \<Rightarrow> string" where
  "decoded_text ts = concat (map to_valid_utf8 ts)"

definition tool_call :: "string \<Rightarrow> string \<Rightarrow> string list \<Rightarrow> ToolCall" where
  "tool_call u n ts = \<lparr>TC_Name = to_valid_utf8 n,
     TC_Params = (if decoded_text ts = [] then emptyToolInput else decoded_text ts),
     TC_ToolUseID = to_valid_utf8 u\<rparr>"

definition executions_of :: "ToolCall list \<Rightarrow> string \<Rightarrow> string list \<Rightarrow> ToolExecution list" where
  "executions_of calls u ts =
     (case find (\<lambda>t. TC_ToolUseID t = to_valid_utf8 u) calls of
        None \<Rightarrow> []
      | Some t \<Rightarrow> [\<lparr>TE_Name = TC_Name t, TE_Params = TC_Params t, TE_Result = decoded_text ts,
                  TE_ToolUseID = to_valid_utf8 u\<rparr>])"

definition tool_item :: "ToolExecution \<Rightarrow> TimelineItem" where
  "tool_item e = \<lparr>TI_Kind = TimelineKindTool, TI_Text = [], TI_Execution = Some e\<rparr>"

fun apply_seg :: "ParsedStream \<Rightarrow> seg \<Rightarrow> ParsedStream" where
  "apply_seg p (TextSeg ts) =
     (let t = decoded_text ts
      in if t = [] then p
         else p\<lparr>PS_Text := PS_Text p @ t, PS_Timeline := PS_Timeline p
                @ [\<lparr>TI_Kind = TimelineKindText, TI_Text = t, TI_Execution = None\<rparr>]\<rparr>)"
| "apply_seg p (ThinkSeg ts) =
     (let t = decoded_text ts
      in if t = [] then p
         else p\<lparr>PS_Thinking := PS_Thinking p @ t, PS_Timeline := PS_Timeline p
                @ [\<lparr>TI_Kind = TimelineKindThinking, TI_Text = t, TI_Execution = None\<rparr>]\<rparr>)"
| "apply_seg p (ToolSeg u n ts) =
     p\<lparr>PS_ToolNames := PS_ToolNames p @ [to_valid_utf8 n], PS_Tools := PS_Tools p @ [tool_call u n ts]\<rparr>"
| "apply_seg p (ResultSeg u x ts) =
     (let es = executions_of (PS_Tools p) u ts
      in p\<lparr>PS_Executions := PS_Executions p @ es, PS_Timeline := PS_Timeline p @ map tool_item es\<rparr>)"

text \<open>Between blocks nothing is in flight; what the result will be once finalized.\<close>

definition idle :: "reassembler \<Rightarrow> bool" where
  "idle r \<longleftrightarrow> re_curTextParts r = [] \<and> re_curThinkingParts r = [] \<and> re_tools r = [] \<and> re_results r = []
     \<and> re_thinkingIndex r = -1 \<and> re_textIndex r = -1"

definition view :: "reassembler \<Rightarrow> ParsedStream" where
  "view r = (re_result r)\<lparr>PS_Text := concat (re_allTextParts r), PS_Thinking := concat (re_allThinkingParts r)\<rparr>"

lemmas close_defs = closeTextBlock_def closeThinkingBlock_def flushTextSegment_def flushThinkingSegment_def

lemma handle_text_deltas:
  "int64_range i \<Longrightarrow> handle_all ord (map (delta_event streamerText i) ts) r
    = r\<lparr>re_curTextParts := re_curTextParts r @ map to_valid_utf8 ts\<rparr>"
  by (induction ts arbitrary: r) (simp_all add: handled)

lemma handle_thinking_deltas:
  "\<lbrakk>int64_range i; re_thinkingIndex r = i\<rbrakk> \<Longrightarrow> handle_all ord (map (delta_event streamerThinking i) ts) r
    = r\<lparr>re_curThinkingParts := re_curThinkingParts r @ map to_valid_utf8 ts\<rparr>"
  by (induction ts arbitrary: r) (simp_all add: handled)

lemma handle_tool_inputs:
  "\<lbrakk>int64_range i; re_tools r = [(i, b)]\<rbrakk> \<Longrightarrow> handle_all ord (map (tool_input_event i) ts) r
    = r\<lparr>re_tools := [(i, b\<lparr>it_params := it_params b @ map to_valid_utf8 ts\<rparr>)]\<rparr>"
  by (induction ts arbitrary: r b) (simp_all add: handled)

lemma handle_tool_texts:
  "\<lbrakk>int64_range i; re_results r = [(i, b)]\<rbrakk> \<Longrightarrow> handle_all ord (map (tool_text_event i) ts) r
    = r\<lparr>re_results := [(i, b\<lparr>ir_parts := ir_parts b @ map to_valid_utf8 ts\<rparr>)]\<rparr>"
  by (induction ts arbitrary: r b) (simp_all add: handled)

lemma handle_seg:
  assumes "idle r" and "int64_range i" and "0 \<le> i"
  shows "idle (handle_all ord (seg_events i s) r) \<and> view (handle_all ord (seg_events i s) r) = apply_seg (view r) s"
proof (cases s)
  case (TextSeg ts)
  with assms show ?thesis
    by (simp add: handle_all_append handled handle_text_deltas stop_block_def)
      (simp add: idle_def view_def close_defs decoded_text_def Let_def)
next
  case (ThinkSeg ts)
  with assms show ?thesis
    by (simp add: handle_all_append handled handle_thinking_deltas stop_block_def)
      (simp add: idle_def view_def close_defs decoded_text_def Let_def)
next
  case (ToolSeg u n ts)
  with assms show ?thesis
    by (simp add: handle_all_append handled idle_def close_defs)
      (simp add: handle_tool_inputs handled stop_block_def finalizeTool_def tool_call_def view_def decoded_text_def)
next
  case (ResultSeg u x ts)
  with assms show ?thesis
    by (simp add: handle_all_append handled idle_def close_defs)
      (simp add: handle_tool_texts handled stop_block_def finalizeResult_def executions_of_def tool_item_def
        view_def decoded_text_def Let_def split: option.split)
qed

lemma handle_segs:
  "\<lbrakk>idle r; 0 \<le> i; i + int (length ss) \<le> 2 ^ 63\<rbrakk>
    \<Longrightarrow> idle (handle_all ord (segs_events i ss) r)
      \<and> view (handle_all ord (segs_events i ss) r) = foldl apply_seg (view r) ss"
proof (induction ss arbitrary: i r)
  case (Cons s ss)
  have "int64_range i" using Cons.prems by (simp add: int64_range_def)
  from handle_seg [OF Cons.prems(1) this Cons.prems(2), of ord s]
  show ?case using Cons.IH [of "handle_all ord (seg_events i s) r" "i + 1"] Cons.prems
    by (simp add: handle_all_append)
qed simp

text \<open>An order in which a map is ranged over.\<close>

definition map_order :: "(int list \<Rightarrow> int list) \<Rightarrow> bool" where
  "map_order ord \<longleftrightarrow> (\<forall>ks. mset (ord ks) = mset ks)"

lemma map_order_Nil: "map_order ord \<Longrightarrow> ord [] = []"
  unfolding map_order_def by (metis mset_zero_iff mset.simps(1))

lemma finalize_idle: "\<lbrakk>map_order ord; idle r\<rbrakk> \<Longrightarrow> re_result (finalize ord r) = view r"
  by (simp add: finalize_def flushAll_def idle_def close_defs map_order_Nil view_def Let_def)

lemma takeWhile_not_stop_segs: "takeWhile not_stop (segs_events i ss @ es) = segs_events i ss @ takeWhile not_stop es"
proof -
  have "\<forall>e \<in> set (seg_events j s). not_stop e" for j s by (cases s) auto
  then have "\<forall>e \<in> set (segs_events i ss). not_stop e" by (induction ss arbitrary: i) auto
  then show ?thesis by (simp add: takeWhile_append2)
qed

definition turn_events :: "string \<Rightarrow> string \<Rightarrow> string \<Rightarrow> seg list \<Rightarrow> string \<Rightarrow> int \<Rightarrow> event list" where
  "turn_events msgID streamID model ss stopReason tokens =
     preamble_events msgID streamID model @ segs_events 0 ss @ epilogue_events stopReason tokens"

lemma reassemble_turn:
  assumes "map_order ord" and "int (length ss) \<le> 2 ^ 63"
  shows "reassemble_events ord (turn_events a b c ss stopReason n @ es)
    = foldl apply_seg (empty_stream\<lparr>PS_StreamID := to_valid_utf8 b\<rparr>) ss"
proof -
  let ?r = "new_reassembler\<lparr>re_result := empty_stream\<lparr>PS_StreamID := to_valid_utf8 b\<rparr>\<rparr>"
  have idle: "idle ?r" "view ?r = empty_stream\<lparr>PS_StreamID := to_valid_utf8 b\<rparr>"
    by (simp_all add: idle_def view_def new_reassembler_def empty_stream_def)
  have tw: "takeWhile not_stop (turn_events a b c ss stopReason n @ es) = preamble_events a b c @ segs_events 0 ss
      @ [payload_event EventTypeMessageDelta (pl_MessageDelta stopReason n)]"
    by (simp add: turn_events_def preamble_events_def epilogue_events_def takeWhile_not_stop_segs)
  have pre: "handle_all ord (preamble_events a b c) new_reassembler = ?r"
    by (simp add: preamble_events_def handled) (simp add: new_reassembler_def)
  from handle_segs [OF idle(1), of 0 ss ord] assms(2) idle(2)
  have "idle (handle_all ord (segs_events 0 ss) ?r)"
    "view (handle_all ord (segs_events 0 ss) ?r) = foldl apply_seg (empty_stream\<lparr>PS_StreamID := to_valid_utf8 b\<rparr>) ss"
    by auto
  with finalize_idle [OF assms(1)] show ?thesis
    unfolding reassemble_events_def tw handle_all_append pre by (simp add: handled)
qed

text \<open>
  C20. Round trip of a turn: the events the publisher emits for a turn of consecutive reasoning,
  text, tool and result blocks, read from any source that keeps the source contract, are
  reassembled to that turn: stream id, text, reasoning, tool names, calls with their joined
  input (an empty object for none), executions matched to their calls by id, and the
  timeline in order. \<open>Reassemble\<close> returns, stops at \<open>message_stop\<close> and ignores what follows.
\<close>

theorem turn_reassembled:
  assumes "event_source nxt pending ok" and "ok s" and "map_order ord" and "int (length ss) \<le> 2 ^ 63"
    and "pending s = turn_events msgID streamID model ss stopReason tokens @ es"
  shows "Reassemble ord nxt s = Some (foldl apply_seg (empty_stream\<lparr>PS_StreamID := to_valid_utf8 streamID\<rparr>) ss)"
  using event_source.Reassemble_pending [OF assms(1,2)] reassemble_turn [OF assms(3,4)] assms(5) by simp

theorem turn_reassembled_witness:
  "map_option PS_Tools (Reassemble rev SliceSource_Next (NewSliceSource
      (turn_events ''m'' ''chat'' ''gpt'' [TextSeg [''Hi''], ToolSeg ''t1'' ''ls'' [], ResultSeg ''t1'' False [''a'', ''b'']]
         StopReasonToolUse 3 @ [])))
    = Some [\<lparr>TC_Name = ''ls'', TC_Params = ''{}'', TC_ToolUseID = ''t1''\<rparr>]"
proof -
  define ss where "ss = [TextSeg [''Hi''], ToolSeg ''t1'' ''ls'' [], ResultSeg ''t1'' False [''a'', ''b'']]"
  define s where "s = NewSliceSource (turn_events ''m'' ''chat'' ''gpt'' ss StopReasonToolUse 3 @ [])"
  have "PS_Tools (foldl apply_seg (empty_stream\<lparr>PS_StreamID := to_valid_utf8 ''chat''\<rparr>) ss)
      = [\<lparr>TC_Name = ''ls'', TC_Params = ''{}'', TC_ToolUseID = ''t1''\<rparr>]"
    by (simp add: ss_def decoded_text_def tool_call_def empty_stream_def executions_of_def to_valid_ascii
        wire_consts Let_def)
  moreover have "Reassemble rev SliceSource_Next s
      = Some (foldl apply_seg (empty_stream\<lparr>PS_StreamID := to_valid_utf8 ''chat''\<rparr>) ss)"
    by (rule turn_reassembled [OF slice.event_source_axioms TrueI, where msgID = "''m''" and model = "''gpt''"
          and stopReason = StopReasonToolUse and tokens = 3 and es = "[]"])
      (simp_all add: s_def slice_pending_def NewSliceSource_def map_order_def, simp add: ss_def)
  ultimately show ?thesis by (simp add: s_def ss_def)
qed

section \<open>No text is lost\<close>

text \<open>The text an event carries for the answer: that of a well-formed text delta.\<close>

definition delta_text :: "event \<Rightarrow> string" where
  "delta_text e =
     (if ev_Event e = EventTypeContentBlockDelta
      then case unmarshal_ContentBlockDeltaData (ev_Data e) of
          Some d \<Rightarrow> if TD_Type (CBD_Delta d) = ContentBlockTypeTextDelta then TD_Text (CBD_Delta d) else []
        | None \<Rightarrow> []
      else [])"

definition text_so_far :: "reassembler \<Rightarrow> string" where
  "text_so_far r = concat (re_allTextParts r) @ concat (re_curTextParts r)"

lemma text_so_far_close [simp]:
  "text_so_far (closeTextBlock r) = text_so_far r" "text_so_far (closeThinkingBlock r) = text_so_far r"
  by (auto simp: text_so_far_def close_defs Let_def)

lemma text_so_far_upd [simp]:
  "text_so_far (r\<lparr>re_result := a\<rparr>) = text_so_far r" "text_so_far (r\<lparr>re_tools := b\<rparr>) = text_so_far r"
  "text_so_far (r\<lparr>re_results := c\<rparr>) = text_so_far r" "text_so_far (r\<lparr>re_textIndex := d\<rparr>) = text_so_far r"
  "text_so_far (r\<lparr>re_thinkingIndex := d\<rparr>) = text_so_far r"
  "text_so_far (r\<lparr>re_curThinkingParts := f\<rparr>) = text_so_far r"
  "text_so_far (r\<lparr>re_curTextParts := re_curTextParts r @ [t]\<rparr>) = text_so_far r @ t"
  by (simp_all add: text_so_far_def)

lemma text_so_far_finalizeTool [simp]: "text_so_far (finalizeTool t r) = text_so_far r"
  by (simp add: finalizeTool_def Let_def)

lemma text_so_far_finalizeResult [simp]: "text_so_far (finalizeResult t r) = text_so_far r"
  by (simp add: finalizeResult_def Let_def split: option.split)

lemma text_so_far_handle: "not_stop e \<Longrightarrow> text_so_far (handle ord e r) = text_so_far r @ delta_text e"
proof -
  assume e: "not_stop e"
  have start: "text_so_far (onContentBlockStart d r) = text_so_far r" for d
    by (simp add: onContentBlockStart_def start_tool_use_def start_tool_result_def
        startTextThinkingOrUnknown_def Let_def split: option.split)
  have start_msg: "text_so_far (onMessageStart d r) = text_so_far r" for d
    by (simp add: onMessageStart_def split: option.split)
  have stop: "text_so_far (onContentBlockStop d r) = text_so_far r" for d
    by (simp add: onContentBlockStop_def stop_block_def Let_def split: option.split)
  have other: "text_so_far (tool_input_delta x r) = text_so_far r" "text_so_far (tool_result_delta y r) = text_so_far r" for x y
    by (simp_all add: tool_input_delta_def tool_result_delta_def split: option.split)
  have delta: "text_so_far (onContentBlockDelta (ev_Data e) r) = text_so_far r @ delta_text e"
    if "ev_Event e = EventTypeContentBlockDelta"
    using that other block_types_distinct(8)
    by (auto simp: onContentBlockDelta_def handleTextOrThinkingDelta_def handleTextDelta_def handleThinkingDelta_def
        delta_text_def split: option.split)
  show ?thesis
    using e start start_msg stop delta event_types_distinct
    by (auto simp: handle_def handleEvent_def not_stop_def) (simp_all add: delta_text_def)
qed

lemma fold_keeps: "(\<And>x r. x \<in> set xs \<Longrightarrow> f (g x r) = f r) \<Longrightarrow> f (fold g xs r) = f r"
  by (induction xs arbitrary: r) auto

lemma text_so_far_flush [simp]:
  "text_so_far (flush_tool k r) = text_so_far r" "text_so_far (flush_result k r) = text_so_far r"
  by (simp_all add: flush_tool_def flush_result_def split: option.split)

lemma curTextParts_finalize [simp]:
  "re_curTextParts (finalizeTool t r) = re_curTextParts r" "re_curTextParts (finalizeResult u r) = re_curTextParts r"
  by (simp_all add: finalizeTool_def finalizeResult_def Let_def split: option.split)

lemma curTextParts_flush [simp]:
  "re_curTextParts (flush_tool k r) = re_curTextParts r" "re_curTextParts (flush_result k r) = re_curTextParts r"
  by (simp_all add: flush_tool_def flush_result_def split: option.split)

lemma curTextParts_folds [simp]:
  "re_curTextParts (fold flush_tool ks r) = re_curTextParts r"
  "re_curTextParts (fold flush_result ks r) = re_curTextParts r"
  by (rule fold_keeps, simp)+

lemma text_so_far_folds [simp]:
  "text_so_far (fold flush_tool ks r) = text_so_far r" "text_so_far (fold flush_result ks r) = text_so_far r"
  by (rule fold_keeps, simp)+

lemma curTextParts_close [simp]:
  "re_curTextParts (closeThinkingBlock r) = re_curTextParts r" "re_curTextParts (closeTextBlock r) = []"
  by (simp_all add: close_defs Let_def)

lemma curTextParts_flushAll [simp]: "re_curTextParts (flushAll ord r) = []"
  by (simp add: flushAll_def Let_def)

lemma text_so_far_flushAll [simp]: "text_so_far (flushAll ord r) = text_so_far r"
  by (simp add: flushAll_def Let_def)

lemma final_text: "PS_Text (re_result (finalize ord r)) = text_so_far r"
proof -
  have "text_so_far (flushAll ord r) = concat (re_allTextParts (flushAll ord r))"
    by (simp only: text_so_far_def curTextParts_flushAll) simp
  then show ?thesis by (simp add: finalize_def Let_def)
qed

lemma text_so_far_handle_all:
  "list_all not_stop es \<Longrightarrow> text_so_far (handle_all ord es r) = text_so_far r @ concat (map delta_text es)"
  by (induction es arbitrary: r) (simp_all add: text_so_far_handle)

lemma reassembled_text: "PS_Text (reassemble_events ord es) = concat (map delta_text (takeWhile not_stop es))"
proof -
  have "list_all not_stop (takeWhile not_stop es)" by (auto simp: list_all_iff dest: set_takeWhileD)
  then show ?thesis
    by (simp add: reassemble_events_def final_text text_so_far_handle_all)
      (simp add: text_so_far_def new_reassembler_def)
qed

text \<open>
  C22. Whatever events a source delivers, malformed, misplaced or cut off, and in whatever order
  maps are ranged over, \<open>Text\<close> is the concatenation of all text deltas that arrived before
  the first \<open>message_stop\<close>: no text is lost, repeated or reordered. So the text of a stream
  that broke off is a prefix of the text of the whole stream.
\<close>

theorem reassembled_text_is_all_deltas:
  assumes "event_source nxt pending ok" and "ok s"
  shows "map_option PS_Text (Reassemble ord nxt s)
      = Some (concat (map delta_text (takeWhile not_stop (pending s))))
    \<and> prefix (PS_Text (reassemble_events ord (take n (pending s)))) (PS_Text (reassemble_events ord (pending s)))"
proof -
  have "prefix (takeWhile not_stop (take n es)) (takeWhile not_stop es)" for es
    by (induction es arbitrary: n) (auto simp: take_Cons split: nat.split)
  then have "prefix (concat (map delta_text (takeWhile not_stop (take n es))))
      (concat (map delta_text (takeWhile not_stop es)))" for es
    by (metis concat_append map_append prefix_def)
  then show ?thesis
    using event_source.Reassemble_pending [OF assms] by (simp add: reassembled_text)
qed

theorem reassembled_text_is_all_deltas_witness:
  "map_option PS_Text (Reassemble rev SliceSource_Next (NewSliceSource [delta_event streamerText 7 ''a'', stop_event 3]))
    = Some ''a''"
proof -
  have "delta_text (delta_event streamerText 7 ''a'') = ''a''" "delta_text (stop_event 3) = []"
    by (simp_all add: delta_text_def delta_event_def stop_event_def payload_event_def pl_BlockDelta_def pl_BlockStop_def
        wire_rt int64_range_def to_valid_ascii event_types_distinct)
  then show ?thesis
    using reassembled_text_is_all_deltas [OF slice.event_source_axioms TrueI,
        of rev "NewSliceSource [delta_event streamerText 7 ''a'', stop_event 3]"]
    by (simp add: slice_pending_def NewSliceSource_def)
qed

text \<open>
  C23. An event other than \<open>message_stop\<close> whose payload is not well-formed JSON changes nothing,
  nor does an event of a type the reassembler does not know. (\<open>message_stop\<close> ends the turn
  whatever its payload, which is not read.)
\<close>

theorem malformed_event_dropped:
  assumes "json_parse data = None \<and> t \<noteq> EventTypeMessageStop
    \<or> t \<notin> {EventTypeMessageStart, EventTypeContentBlockStart, EventTypeContentBlockDelta,
        EventTypeContentBlockStop, EventTypeMessageStop}"
  shows "handleEvent ord t data r = r"
  using assms
  by (auto simp: handleEvent_def onMessageStart_def onContentBlockStart_def onContentBlockDelta_def
      onContentBlockStop_def decoded_def json_unmarshal_def unmarshal_MessageStartData_def
      unmarshal_ContentBlockStopData_def unmarshal_ContentBlockDeltaData_def
      unmarshal_ContentBlockDeltaToolInputData_def unmarshal_ContentBlockDeltaToolResultData_def)

theorem malformed_event_dropped_witness:
  "handleEvent rev EventTypeContentBlockDelta ''{'' (new_reassembler\<lparr>re_textIndex := 0\<rparr>)
    = new_reassembler\<lparr>re_textIndex := 0\<rparr>"
proof (rule malformed_event_dropped)
  have "json_parse ''{'' = None" by code_simp
  then show "json_parse ''{'' = None \<and> EventTypeContentBlockDelta \<noteq> EventTypeMessageStop
    \<or> EventTypeContentBlockDelta \<notin> {EventTypeMessageStart, EventTypeContentBlockStart, EventTypeContentBlockDelta,
        EventTypeContentBlockStop, EventTypeMessageStop}"
    by (simp add: wire_consts)
qed

end
