(* ===== verification/Elelem.thy ===== *)
theory Elelem
  imports Reassemble
begin

text \<open>
  \<open>elelemstream\<close>: the adapter between the callbacks of the elelem engine and the publisher.
  A round streams reasoning and text deltas, then tool calls, then their results; the adapter
  gives each its content-block index. The engine is vendored code: its callbacks reach the model
  as arguments, with the fields the adapter reads.
\<close>

section \<open>What the engine hands over\<close>

record elelem_Delta =
  ed_Text :: string
  ed_Reasoning :: string

record elelem_ToolResult =
  etr_Content :: string
  etr_IsError :: bool

record ToolCallEvent =
  tce_CallID :: string
  tce_Name :: string
  tce_Arguments :: string
  tce_Index :: int
  tce_Result :: "elelem_ToolResult option"

section \<open>roundstream.go\<close>

record 'w roundStream =
  rs_publisher :: "'w publisher"
  rs_thinking :: "'w TextStreamer"
  rs_text :: "'w TextStreamer option"

definition newRoundStream :: "'w publisher \<Rightarrow> int \<Rightarrow> 'w roundStream" where
  "newRoundStream pub base =
     \<lparr>rs_publisher = pub, rs_thinking = NewThinkingStreamer (Some pub) base, rs_text = None\<rparr>"

definition openText :: "'w roundStream \<Rightarrow> 'w \<Rightarrow> goerr option \<times> 'w roundStream \<times> 'w" where
  "openText rs w =
     (if rs_text rs \<noteq> None then (None, rs, w)
      else case TextStreamer_Close (rs_thinking rs) w of
          (Some e, t, w') \<Rightarrow> (Some (Wrapped e ''close thinking block''), rs\<lparr>rs_thinking := t\<rparr>, w')
        | (None, t, w') \<Rightarrow>
            (None, rs\<lparr>rs_thinking := t,
               rs_text := Some (NewTextStreamer (Some (rs_publisher rs)) (TextStreamer_BlockIndex t))\<rparr>, w'))"

text \<open>\<open>stream.text.Write\<close> and \<open>stream.text.Close\<close>, which run only after \<open>openText\<close> has set \<open>text\<close>.\<close>

definition text_Write :: "string \<Rightarrow> 'w roundStream \<Rightarrow> 'w \<Rightarrow> goerr option \<times> 'w roundStream \<times> 'w" where
  "text_Write chunk rs w =
     (case TextStreamer_Write (the (rs_text rs)) chunk w of (r, t, w') \<Rightarrow> (r, rs\<lparr>rs_text := Some t\<rparr>, w'))"

definition text_Close :: "'w roundStream \<Rightarrow> 'w \<Rightarrow> goerr option \<times> 'w roundStream \<times> 'w" where
  "text_Close rs w =
     (case TextStreamer_Close (the (rs_text rs)) w of (r, t, w') \<Rightarrow> (r, rs\<lparr>rs_text := Some t\<rparr>, w'))"

definition thinking_Write :: "string \<Rightarrow> 'w roundStream \<Rightarrow> 'w \<Rightarrow> goerr option \<times> 'w roundStream \<times> 'w" where
  "thinking_Write chunk rs w =
     (case TextStreamer_Write (rs_thinking rs) chunk w of (r, t, w') \<Rightarrow> (r, rs\<lparr>rs_thinking := t\<rparr>, w'))"

text \<open>\<open>if err := f(); err != nil { return Wrap(err, m) }\<close>, then the next statement, on a value and the world.\<close>

definition and_next ::
    "string \<Rightarrow> ('w \<Rightarrow> goerr option \<times> 's \<times> 'w) \<Rightarrow> ('s \<Rightarrow> 'w \<Rightarrow> goerr option \<times> 's \<times> 'w)
      \<Rightarrow> 'w \<Rightarrow> goerr option \<times> 's \<times> 'w" where
  "and_next m f g w =
     (case f w of (Some e, s, w') \<Rightarrow> (Some (Wrapped e m), s, w') | (None, s, w') \<Rightarrow> g s w')"

abbreviation (input) return_nil :: "'s \<Rightarrow> 'w \<Rightarrow> goerr option \<times> 's \<times> 'w" where
  "return_nil s w \<equiv> (None, s, w)"

definition handleDelta :: "elelem_Delta \<Rightarrow> 'w roundStream \<Rightarrow> 'w \<Rightarrow> goerr option \<times> 'w roundStream \<times> 'w" where
  "handleDelta delta rs =
     and_next ''write reasoning delta''
       (if ed_Reasoning delta \<noteq> [] \<and> rs_text rs = None then thinking_Write (ed_Reasoning delta) rs else return_nil rs)
       (\<lambda>rs. if ed_Text delta = [] then return_nil rs
             else and_next ''open text block for delta'' (openText rs)
                    (\<lambda>rs. and_next ''write text delta'' (text_Write (ed_Text delta) rs) return_nil))"

definition finish :: "'w roundStream \<Rightarrow> 'w \<Rightarrow> goerr option \<times> 'w roundStream \<times> 'w" where
  "finish rs =
     and_next ''open text block to finish round'' (openText rs)
       (\<lambda>rs. and_next ''close text block'' (text_Close rs) return_nil)"

definition nextBlockIndex :: "'w roundStream \<Rightarrow> int" where
  "nextBlockIndex rs =
     (case rs_text rs of None \<Rightarrow> TextStreamer_BlockIndex (rs_thinking rs)
      | Some t \<Rightarrow> TextStreamer_BlockIndex t)"

lemma openText_opens: "openText rs w = (None, rs', w') \<Longrightarrow> rs_text rs' \<noteq> None"
  by (auto simp: openText_def split: if_splits prod.splits option.splits)

section \<open>adapter.go\<close>

definition contentBlocksPerTool :: int where "contentBlocksPerTool = 2"

record 'w Adapter =
  ad_publisher :: "'w publisher"
  ad_blockIndex :: int
  ad_rounds :: int
  ad_roundStream :: "'w roundStream option"
  ad_toolBase :: int
  ad_toolCallCount :: int

definition NewAdapter :: "'w publisher \<Rightarrow> 'w Adapter" where
  "NewAdapter pub = \<lparr>ad_publisher = pub, ad_blockIndex = 0, ad_rounds = 0, ad_roundStream = None,
     ad_toolBase = 0, ad_toolCallCount = 0\<rparr>"

definition Rounds :: "'w Adapter \<Rightarrow> int" where
  "Rounds a = ad_rounds a"

type_synonym 'w handler = "'w Adapter \<Rightarrow> 'w \<Rightarrow> goerr option \<times> 'w Adapter \<times> 'w"

definition OnRoundStart :: "'w handler" where
  "OnRoundStart a w =
     (None, a\<lparr>ad_roundStream := Some (newRoundStream (ad_publisher a) (ad_blockIndex a))\<rparr>, w)"

definition OnDelta :: "elelem_Delta \<Rightarrow> 'w handler" where
  "OnDelta delta a w =
     (case ad_roundStream a of
        None \<Rightarrow> (Some (Wrapped ErrRoundStreamNotInitialized ''handle delta''), a, w)
      | Some rs \<Rightarrow>
          (case handleDelta delta rs w of (r, rs', w') \<Rightarrow> (r, a\<lparr>ad_roundStream := Some rs'\<rparr>, w')))"

text \<open>\<open>calls\<close> is \<open>len(message.ToolCalls)\<close>, the only part of the message that is read.\<close>

definition OnAssistantMessage :: "int \<Rightarrow> 'w handler" where
  "OnAssistantMessage calls a w =
     (case ad_roundStream a of
        None \<Rightarrow> (Some (Wrapped ErrRoundStreamNotInitialized ''close assistant message''), a, w)
      | Some rs \<Rightarrow>
          (case finish rs w of
             (Some e, rs', w') \<Rightarrow>
               (Some (Wrapped e ''finish round stream''), a\<lparr>ad_roundStream := Some rs'\<rparr>, w')
           | (None, rs', w') \<Rightarrow>
               (None, a\<lparr>ad_roundStream := Some rs', ad_blockIndex := nextBlockIndex rs',
                        ad_toolBase := nextBlockIndex rs', ad_toolCallCount := calls\<rparr>, w')))"

definition OnRoundEnd :: "int \<Rightarrow> 'w handler" where
  "OnRoundEnd round a w = (None, a\<lparr>ad_rounds := round + 1\<rparr>, w)"

definition OnToolCallStart :: "ToolCallEvent \<Rightarrow> 'w handler" where
  "OnToolCallStart ev a w =
     (case SendToolUseBlock (ad_publisher a) (ad_toolBase a + tce_Index ev) (tce_CallID ev) (tce_Name ev)
             (tce_Arguments ev) w of
        (Some e, w') \<Rightarrow> (Some (Wrapped e ''send tool_use block''), a, w')
      | (None, w') \<Rightarrow> (None, a, w'))"

definition OnToolResult :: "ToolCallEvent \<Rightarrow> 'w handler" where
  "OnToolResult ev a w =
     (case tce_Result ev of
        None \<Rightarrow> (Some (Wrappedf ErrToolResultMissing ''tool call %q'' [tce_CallID ev]), a, w)
      | Some res \<Rightarrow>
          (case SendToolResultBlock (ad_publisher a) (ad_toolBase a + ad_toolCallCount a + tce_Index ev)
                  (tce_CallID ev) (etr_Content res) (etr_IsError res) w of
             (Some e, w') \<Rightarrow> (Some (Wrapped e ''send tool_result block''), a, w')
           | (None, w') \<Rightarrow>
               (None,
                (if tce_Index ev = ad_toolCallCount a - 1
                 then a\<lparr>ad_blockIndex := ad_toolBase a + contentBlocksPerTool * ad_toolCallCount a\<rparr> else a),
                w')))"

text \<open>
  The callbacks of a request. The engine's setters append to a chain (since its v0.3.0), so
  \<open>Bind\<close> adds the adapter's handlers behind those already registered.
\<close>

record 'w callbacks =
  cb_roundStart :: "'w handler list"
  cb_delta :: "(elelem_Delta \<Rightarrow> 'w handler) list"
  cb_assistantMessage :: "(int \<Rightarrow> 'w handler) list"
  cb_roundEnd :: "(int \<Rightarrow> 'w handler) list"
  cb_toolCallStart :: "(ToolCallEvent \<Rightarrow> 'w handler) list"
  cb_toolResult :: "(ToolCallEvent \<Rightarrow> 'w handler) list"

definition Bind :: "'w callbacks \<Rightarrow> 'w callbacks" where
  "Bind req = req\<lparr>
     cb_roundStart := cb_roundStart req @ [OnRoundStart],
     cb_delta := cb_delta req @ [OnDelta],
     cb_assistantMessage := cb_assistantMessage req @ [OnAssistantMessage],
     cb_roundEnd := cb_roundEnd req @ [OnRoundEnd],
     cb_toolCallStart := cb_toolCallStart req @ [OnToolCallStart],
     cb_toolResult := cb_toolResult req @ [OnToolResult]\<rparr>"

section \<open>stopreason.go\<close>

text \<open>The engine's predicate on its own finish reasons, from the vendored \<open>params.go\<close>.\<close>

definition IsTruncated :: "string \<Rightarrow> bool" where
  "IsTruncated f \<longleftrightarrow> f = ''length'' \<or> f = ''context_exceeded''"

definition MapStopReason :: "string \<Rightarrow> bool \<Rightarrow> string" where
  "MapStopReason finishReason hasToolCalls =
     (if IsTruncated finishReason then StopReasonMaxTokens
      else if hasToolCalls then StopReasonToolUse
      else StopReasonEndTurn)"

end
