(* ===== verification/Elelem_Run.thy ===== *)
theory Elelem_Run
  imports Elelem "HOL-Library.Sublist"
begin

text \<open>
  What the callbacks of a round do to the stream: on every sink, working or failing, they emit the
  events of a plan, which says in which order, and what a refused event stops.
\<close>

section \<open>Operations that emit a list of events\<close>

lemma emit_all_append:
  "emit_all emit (es @ fs) w = (case emit_all emit es w of (None, v) \<Rightarrow> emit_all emit fs v | (Some x, v) \<Rightarrow> (Some x, v))"
  by (induction es arbitrary: w) (auto split: prod.splits option.splits)

text \<open>
  \<open>op\<close> emits \<open>es\<close>: it leaves the world as the plain loop over \<open>es\<close> does, succeeds exactly when
  the loop does, with the result \<open>s\<close>, and else its error has the sink's in its chain.
\<close>

definition performs :: "'w sink \<Rightarrow> event list \<Rightarrow> ('w \<Rightarrow> goerr option \<times> 's \<times> 'w) \<Rightarrow> 's \<Rightarrow> bool" where
  "performs emit es op s \<longleftrightarrow>
     (\<forall>w. case emit_all emit es w of
            (None, v) \<Rightarrow> op w = (None, s, v)
          | (Some x, v) \<Rightarrow> \<exists>e t. op w = (Some e, t, v) \<and> errors_is e x)"

lemma performsI:
  assumes "\<And>w v. emit_all emit es w = (None, v) \<Longrightarrow> op w = (None, s, v)"
    and "\<And>w x v. emit_all emit es w = (Some x, v) \<Longrightarrow> \<exists>e t. op w = (Some e, t, v) \<and> errors_is e x"
  shows "performs emit es op s"
  unfolding performs_def using assms by (simp split: prod.split option.split)

lemma performs_ok: "\<lbrakk>performs emit es op s; emit_all emit es w = (None, v)\<rbrakk> \<Longrightarrow> op w = (None, s, v)"
  unfolding performs_def by (drule spec [of _ w]) simp

lemma performs_err:
  "\<lbrakk>performs emit es op s; emit_all emit es w = (Some x, v)\<rbrakk> \<Longrightarrow> \<exists>e t. op w = (Some e, t, v) \<and> errors_is e x"
  unfolding performs_def by (drule spec [of _ w]) simp

lemma performs_nil: "performs emit [] (return_nil s) s"
  by (rule performsI) simp_all

lemma performs_seq:
  assumes f: "performs emit es f s1" and g: "performs emit fs (g s1) s2"
    and h: "\<And>w. h w = (case f w of (Some e, t, w') \<Rightarrow> (Some (j e), t, w') | (None, t, w') \<Rightarrow> g t w')"
    and j: "\<And>e x. errors_is e x \<Longrightarrow> errors_is (j e) x"
  shows "performs emit (es @ fs) h s2"
proof (rule performsI)
  fix w v
  assume "emit_all emit (es @ fs) w = (None, v)"
  then obtain v1 where "emit_all emit es w = (None, v1)" "emit_all emit fs v1 = (None, v)"
    by (auto simp: emit_all_append split: prod.splits option.splits)
  with performs_ok [OF f] performs_ok [OF g] show "h w = (None, s2, v)"
    by (simp add: h)
next
  fix w x v
  assume a: "emit_all emit (es @ fs) w = (Some x, v)"
  show "\<exists>e t. h w = (Some e, t, v) \<and> errors_is e x"
  proof (cases "fst (emit_all emit es w)")
    case None
    then obtain v1 where v1: "emit_all emit es w = (None, v1)" by (metis prod.collapse)
    with a have "emit_all emit fs v1 = (Some x, v)" by (simp add: emit_all_append)
    from performs_err [OF g this] performs_ok [OF f v1] show ?thesis by (simp add: h)
  next
    case (Some y)
    with a have "emit_all emit es w = (Some x, v)" by (auto simp: emit_all_append split: prod.splits)
    from performs_err [OF f this] j show ?thesis by (auto simp: h)
  qed
qed

lemma performs_next:
  assumes "performs emit es f s1" and "performs emit fs (g s1) s2"
  shows "performs emit (es @ fs) (and_next m f g) s2"
  using assms by (rule performs_seq [where j = "\<lambda>e. Wrapped e m"]) (auto simp: and_next_def)

lemma performs_map:
  assumes "performs emit es f s" and "\<And>w. g w = (case f w of (r, t, w') \<Rightarrow> (r, k t, w'))" and "s' = k s"
  shows "performs emit es g s'"
proof (rule performsI)
  show "g w = (None, s', v)" if "emit_all emit es w = (None, v)" for w v
    using performs_ok [OF assms(1) that] by (simp add: assms(2,3))
  show "\<exists>e t. g w = (Some e, t, v) \<and> errors_is e x" if "emit_all emit es w = (Some x, v)" for w x v
    using performs_err [OF assms(1) that] by (auto simp: assms(2))
qed

text \<open>A method of the publisher, whose outcome is known, followed by the handler's own assignment.\<close>

lemma performs_send:
  assumes "\<And>w. same_outcome (f w) (emit_all emit es w)"
    and "\<And>w. g w = (case f w of (Some e, w') \<Rightarrow> (Some (Wrapped e m), s, w') | (None, w') \<Rightarrow> (None, s', w'))"
  shows "performs emit es g s'"
proof (rule performsI)
  show "g w = (None, s', v)" if "emit_all emit es w = (None, v)" for w v
    using assms(1) [of w] that by (auto simp: assms(2) same_outcome_def split: prod.splits option.splits)
  show "\<exists>e t. g w = (Some e, t, v) \<and> errors_is e x" if "emit_all emit es w = (Some x, v)" for w x v
    using assms(1) [of w] that by (auto simp: assms(2) same_outcome_def split: prod.splits option.splits)
qed

section \<open>Plans\<close>

text \<open>
  A phase of a plan is a list of events, emitted until one is refused, or a list of such lists, each
  of which is attempted whatever became of those before it; the first error counts. A failed
  phase is the last.
\<close>

datatype phase = In_order "event list" | Each "event list list"

fun emit_each :: "'w sink \<Rightarrow> event list list \<Rightarrow> 'w \<Rightarrow> goerr option \<times> 'w" where
  "emit_each emit [] w = (None, w)"
| "emit_each emit (g # gs) w =
     (case emit_all emit g w of (r, w1) \<Rightarrow>
        (case emit_each emit gs w1 of (q, w2) \<Rightarrow> (if r = None then q else r, w2)))"

fun emit_phase :: "'w sink \<Rightarrow> phase \<Rightarrow> 'w \<Rightarrow> goerr option \<times> 'w" where
  "emit_phase emit (In_order es) = emit_all emit es"
| "emit_phase emit (Each gs) = emit_each emit gs"

fun emit_plan :: "'w sink \<Rightarrow> phase list \<Rightarrow> 'w \<Rightarrow> goerr option \<times> 'w" where
  "emit_plan emit [] w = (None, w)"
| "emit_plan emit (ph # phs) w =
     (case emit_phase emit ph w of (None, v) \<Rightarrow> emit_plan emit phs v | (Some x, v) \<Rightarrow> (Some x, v))"

fun phase_events :: "phase \<Rightarrow> event list" where
  "phase_events (In_order es) = es"
| "phase_events (Each gs) = concat gs"

definition plan_events :: "phase list \<Rightarrow> event list" where
  "plan_events phs = concat (map phase_events phs)"

lemma plan_events_simps [simp]:
  "plan_events [] = []" "plan_events (ph # phs) = phase_events ph @ plan_events phs"
  "plan_events (phs @ qs) = plan_events phs @ plan_events qs"
  by (simp_all add: plan_events_def)

lemma emit_plan_append:
  "emit_plan emit (phs @ qs) w = (case emit_plan emit phs w of (None, v) \<Rightarrow> emit_plan emit qs v | (Some x, v) \<Rightarrow> (Some x, v))"
  by (induction phs arbitrary: w) (auto split: prod.splits option.splits)

text \<open>A plan succeeds exactly when the plain loop over its events does, with the same result.\<close>

lemma emit_each_None: "emit_each emit gs w = (None, v) \<longleftrightarrow> emit_all emit (concat gs) w = (None, v)"
proof (induction gs arbitrary: w)
  case (Cons g gs)
  obtain r w1 where "emit_all emit g w = (r, w1)" by force
  with Cons [of w1] show ?case by (cases r) (auto simp: emit_all_append split: prod.splits)
qed simp

lemma emit_plan_None: "emit_plan emit phs w = (None, v) \<longleftrightarrow> emit_all emit (plan_events phs) w = (None, v)"
proof (induction phs arbitrary: w)
  case (Cons ph phs)
  have ph: "emit_phase emit ph w = (None, u) \<longleftrightarrow> emit_all emit (phase_events ph) w = (None, u)" for u
    by (cases ph) (simp_all add: emit_each_None)
  obtain r u q u' where "emit_phase emit ph w = (r, u)" "emit_all emit (phase_events ph) w = (q, u')" by force
  with ph [of u] ph [of u'] Cons [of u] show ?case by (cases r; cases q) (auto simp: emit_all_append)
qed simp

context sink_contract
begin

text \<open>Whatever fails, what a plan delivers are some of its events, in order.\<close>

lemma emit_each_delivers:
  "\<lbrakk>inv w; emit_each emit gs w = (r, v)\<rbrakk> \<Longrightarrow> inv v \<and> (\<exists>es. subseq es (concat gs) \<and> delivered v = delivered w @ es)"
proof (induction gs arbitrary: w r)
  case (Cons g gs)
  obtain r1 w1 q where 1: "emit_all emit g w = (r1, w1)" "emit_each emit gs w1 = (q, v)"
    using Cons.prems(2) by (auto split: prod.splits)
  from emit_all_prefix [OF Cons.prems(1) 1(1)] obtain n where
    n: "inv w1" "delivered w1 = delivered w @ take n g" by blast
  from Cons.IH [OF n(1) 1(2)] obtain es where
    es: "inv v" "subseq es (concat gs)" "delivered v = delivered w1 @ es" by blast
  have "subseq (take n g) g" by (metis append_take_drop_id subseq_rev_drop_many subseq_order.refl)
  with es(2) have "subseq (take n g @ es) (concat (g # gs))" by (simp add: list_emb_append_mono)
  with n es show ?case by auto
qed auto

lemma emit_plan_delivers:
  "\<lbrakk>inv w; emit_plan emit phs w = (r, v)\<rbrakk> \<Longrightarrow> inv v \<and> (\<exists>es. subseq es (plan_events phs) \<and> delivered v = delivered w @ es)"
proof (induction phs arbitrary: w r)
  case (Cons ph phs)
  obtain q w1 where ph: "emit_phase emit ph w = (q, w1)" by force
  have "inv w1 \<and> (\<exists>es. subseq es (phase_events ph) \<and> delivered w1 = delivered w @ es)"
  proof (cases ph)
    case (In_order es)
    with emit_all_prefix [OF Cons.prems(1)] ph obtain n where "inv w1" "delivered w1 = delivered w @ take n es" by force
    moreover have "subseq (take n es) es" by (metis append_take_drop_id subseq_rev_drop_many subseq_order.refl)
    ultimately show ?thesis using In_order by auto
  next
    case (Each gs)
    with emit_each_delivers [OF Cons.prems(1)] ph show ?thesis by simp
  qed
  then obtain es where es: "inv w1" "subseq es (phase_events ph)" "delivered w1 = delivered w @ es" by blast
  show ?case
  proof (cases q)
    case None
    with Cons.prems(2) ph have "emit_plan emit phs w1 = (r, v)" by simp
    from Cons.IH [OF es(1) this] obtain fs where
      "inv v" "subseq fs (plan_events phs)" "delivered v = delivered w1 @ fs" by blast
    with es show ?thesis by (auto intro!: exI [of _ "es @ fs"] list_emb_append_mono)
  next
    case (Some x)
    with Cons.prems(2) ph have "v = w1" by simp
    moreover have "subseq es (plan_events (ph # phs))" using es(2) by (simp add: subseq_rev_drop_many)
    ultimately show ?thesis using es by blast
  qed
qed auto

end

text \<open>\<open>op\<close> carries out a plan, as \<open>performs\<close> says for a list of events.\<close>

definition enacts :: "'w sink \<Rightarrow> phase list \<Rightarrow> ('w \<Rightarrow> goerr option \<times> 's \<times> 'w) \<Rightarrow> 's \<Rightarrow> bool" where
  "enacts emit phs op s \<longleftrightarrow>
     (\<forall>w. case emit_plan emit phs w of
            (None, v) \<Rightarrow> op w = (None, s, v)
          | (Some x, v) \<Rightarrow> \<exists>e t. op w = (Some e, t, v) \<and> errors_is e x)"

lemma enactsI:
  assumes "\<And>w v. emit_plan emit phs w = (None, v) \<Longrightarrow> op w = (None, s, v)"
    and "\<And>w x v. emit_plan emit phs w = (Some x, v) \<Longrightarrow> \<exists>e t. op w = (Some e, t, v) \<and> errors_is e x"
  shows "enacts emit phs op s"
  unfolding enacts_def using assms by (simp split: prod.split option.split)

lemma enacts_ok: "\<lbrakk>enacts emit phs op s; emit_plan emit phs w = (None, v)\<rbrakk> \<Longrightarrow> op w = (None, s, v)"
  unfolding enacts_def by (drule spec [of _ w]) simp

lemma enacts_err:
  "\<lbrakk>enacts emit phs op s; emit_plan emit phs w = (Some x, v)\<rbrakk> \<Longrightarrow> \<exists>e t. op w = (Some e, t, v) \<and> errors_is e x"
  unfolding enacts_def by (drule spec [of _ w]) simp

lemma enacts_performs: "performs emit es op s \<Longrightarrow> enacts emit [In_order es] op s"
  by (rule enactsI) (auto split: prod.splits option.splits dest: performs_ok performs_err)

lemma enacts_seq:
  assumes f: "enacts emit phs f s1" and g: "enacts emit qs (g s1) s2"
    and h: "\<And>w. h w = (case f w of (Some e, t, w') \<Rightarrow> (Some e, t, w') | (None, t, w') \<Rightarrow> g t w')"
  shows "enacts emit (phs @ qs) h s2"
proof (rule enactsI)
  fix w v
  assume "emit_plan emit (phs @ qs) w = (None, v)"
  then obtain v1 where "emit_plan emit phs w = (None, v1)" "emit_plan emit qs v1 = (None, v)"
    by (auto simp: emit_plan_append split: prod.splits option.splits)
  with enacts_ok [OF f] enacts_ok [OF g] show "h w = (None, s2, v)" by (simp add: h)
next
  fix w x v
  assume a: "emit_plan emit (phs @ qs) w = (Some x, v)"
  obtain r v1 where 1: "emit_plan emit phs w = (r, v1)" by force
  show "\<exists>e t. h w = (Some e, t, v) \<and> errors_is e x"
  proof (cases r)
    case None
    with a 1 have "emit_plan emit qs v1 = (Some x, v)" by (simp add: emit_plan_append)
    from enacts_err [OF g this] enacts_ok [OF f] 1 None show ?thesis by (simp add: h)
  next
    case (Some y)
    with a 1 have "emit_plan emit phs w = (Some x, v)" by (simp add: emit_plan_append)
    from enacts_err [OF f this] show ?thesis by (auto simp: h)
  qed
qed

section \<open>The streamers\<close>

lemma Publish_outcome:
  "same_outcome (Publish (NewPublisher emit) t d w) (emit_all emit [payload_event t d] w)" if "marshals d"
  using same_outcome_one [OF that, of "NewPublisher emit" t w] by simp

lemma performs_delta:
  assumes "ts_publisher s = Some (NewPublisher emit)"
  shows "performs emit [delta_event (ts_kind s) (ts_blockIndex s) c] (TextStreamer_delta (NewPublisher emit) s c) s"
proof (rule performs_send [where m = "''send content block delta''" and s = s])
  show "same_outcome (deltaBlock (NewPublisher emit) s c w) (emit_all emit [delta_event (ts_kind s) (ts_blockIndex s) c] w)" for w
    using Publish_outcome [OF marshals_pl(3)] by (simp add: deltaBlock_eq delta_event_def)
qed (simp add: TextStreamer_delta_def)

lemma performs_TextStreamer_Write:
  assumes "ts_publisher s = Some (NewPublisher emit)" and "c \<noteq> []"
  shows "performs emit ((if ts_blockStarted s then [] else [start_event (ts_kind s) (ts_blockIndex s)])
      @ [delta_event (ts_kind s) (ts_blockIndex s) c])
    (TextStreamer_Write s c) (s\<lparr>ts_message := ts_message s @ c, ts_blockStarted := True\<rparr>)"
proof -
  let ?s = "s\<lparr>ts_message := ts_message s @ c\<rparr>" and ?i = "ts_blockIndex s"
  show ?thesis
  proof (cases "ts_blockStarted s")
    case True
    have w: "TextStreamer_Write s c = TextStreamer_delta (NewPublisher emit) ?s c"
      using assms True by (simp add: TextStreamer_Write_def fun_eq_iff)
    have s: "s\<lparr>ts_message := ts_message s @ c, ts_blockStarted := True\<rparr> = ?s"
      using True by simp
    have "performs emit [delta_event (ts_kind s) ?i c] (TextStreamer_delta (NewPublisher emit) ?s c) ?s"
      using performs_delta [of ?s emit c] assms by simp
    then show ?thesis unfolding w s using True by (simp only: if_True append_Nil)
  next
    case False
    have st: "performs emit [start_event (ts_kind s) ?i]
      (\<lambda>w. case startBlock (NewPublisher emit) ?s w of
          (Some e, w') \<Rightarrow> (Some (Wrapped e ''send content block start''), ?s, w')
        | (None, w') \<Rightarrow> (None, ?s\<lparr>ts_blockStarted := True\<rparr>, w')) (?s\<lparr>ts_blockStarted := True\<rparr>)"
    proof (rule performs_send)
      show "same_outcome (startBlock (NewPublisher emit) ?s w) (emit_all emit [start_event (ts_kind s) ?i] w)" for w
        using Publish_outcome [OF marshals_pl(2)] by (simp add: startBlock_eq start_event_def)
    qed simp
    have "performs emit ([start_event (ts_kind s) ?i] @ [delta_event (ts_kind s) ?i c])
      (TextStreamer_Write s c) (?s\<lparr>ts_blockStarted := True\<rparr>)"
      using st
    proof (rule performs_seq)
      show "performs emit [delta_event (ts_kind s) ?i c]
        (TextStreamer_delta (NewPublisher emit) (?s\<lparr>ts_blockStarted := True\<rparr>) c) (?s\<lparr>ts_blockStarted := True\<rparr>)"
        using performs_delta [of "?s\<lparr>ts_blockStarted := True\<rparr>" emit c] assms(1) by simp
    qed (use False assms in \<open>auto simp: TextStreamer_Write_def split: prod.splits option.splits\<close>)
    with False show ?thesis by simp
  qed
qed

lemma performs_TextStreamer_Close:
  assumes "ts_publisher s = Some (NewPublisher emit)"
  shows "performs emit (if ts_blockStarted s then [stop_event (ts_blockIndex s)] else [])
    (TextStreamer_Close s)
    (if ts_blockStarted s then s\<lparr>ts_blockStarted := False, ts_blockIndex := ts_blockIndex s + 1\<rparr> else s)"
proof (cases "ts_blockStarted s")
  case True
  have "performs emit [stop_event (ts_blockIndex s)] (TextStreamer_Close s)
    (s\<lparr>ts_blockStarted := False, ts_blockIndex := ts_blockIndex s + 1\<rparr>)"
  proof (rule performs_send)
    show "same_outcome (SendContentBlockStop (NewPublisher emit) (ts_blockIndex s) w)
        (emit_all emit [stop_event (ts_blockIndex s)] w)" for w
      using Publish_outcome [OF marshals_pl(4)] by (simp add: send_defs stop_event_def)
  qed (simp add: TextStreamer_Close_def assms True)
  with True show ?thesis by simp
next
  case False
  then have "TextStreamer_Close s = return_nil s" by (simp add: TextStreamer_Close_def fun_eq_iff)
  with False show ?thesis by (simp add: performs_nil)
qed


section \<open>One round of deltas\<close>

text \<open>The reasoning texts and the answer texts the stream of a round carries, delta by delta.\<close>

fun round_step :: "string list \<times> string list \<Rightarrow> elelem_Delta \<Rightarrow> string list \<times> string list" where
  "round_step (rts, tts) d =
     ((if ed_Reasoning d \<noteq> [] \<and> tts = [] then rts @ [ed_Reasoning d] else rts),
      (if ed_Text d \<noteq> [] then tts @ [ed_Text d] else tts))"

definition round_texts :: "elelem_Delta list \<Rightarrow> string list \<times> string list" where
  "round_texts ds = foldl round_step ([], []) ds"

text \<open>The round's streamers after these texts, and the events so far.\<close>

abbreviation blocks_of :: "string list \<Rightarrow> int" where
  "blocks_of ts \<equiv> (if ts = [] then 0 else 1)"

definition rs_at :: "'w publisher \<Rightarrow> int \<Rightarrow> string list \<Rightarrow> string list \<Rightarrow> 'w roundStream" where
  "rs_at pub base rts tts =
     \<lparr>rs_publisher = pub,
      rs_thinking = \<lparr>ts_publisher = Some pub, ts_kind = streamerThinking, ts_message = concat rts,
        ts_blockIndex = (if tts = [] then base else base + blocks_of rts),
        ts_blockStarted = (rts \<noteq> [] \<and> tts = [])\<rparr>,
      rs_text = (if tts = [] then None
        else Some \<lparr>ts_publisher = Some pub, ts_kind = streamerText, ts_message = concat tts,
          ts_blockIndex = base + blocks_of rts, ts_blockStarted = True\<rparr>)\<rparr>"

definition open_block :: "streamerKind \<Rightarrow> int \<Rightarrow> string list \<Rightarrow> event list" where
  "open_block k i ts = (if ts = [] then [] else start_event k i # map (delta_event k i) ts)"

definition events_at :: "int \<Rightarrow> string list \<Rightarrow> string list \<Rightarrow> event list" where
  "events_at base rts tts =
     (if tts = [] then open_block streamerThinking base rts
      else block_events streamerThinking base rts @ open_block streamerText (base + blocks_of rts) tts)"

lemma rs_at_start: "newRoundStream pub base = rs_at pub base [] []"
  by (simp add: newRoundStream_def NewThinkingStreamer_def rs_at_def)

lemma performs_thinking_Write:
  assumes "r \<noteq> []"
  shows "performs emit ((if rts = [] then [start_event streamerThinking base] else []) @ [delta_event streamerThinking base r])
    (thinking_Write r (rs_at (NewPublisher emit) base rts [])) (rs_at (NewPublisher emit) base (rts @ [r]) [])"
proof (rule performs_map [where k = "\<lambda>t. rs_at (NewPublisher emit) base rts []\<lparr>rs_thinking := t\<rparr>"])
  show "performs emit ((if rts = [] then [start_event streamerThinking base] else []) @ [delta_event streamerThinking base r])
    (TextStreamer_Write (rs_thinking (rs_at (NewPublisher emit) base rts [])) r)
    \<lparr>ts_publisher = Some (NewPublisher emit), ts_kind = streamerThinking, ts_message = concat rts @ r,
        ts_blockIndex = base, ts_blockStarted = True\<rparr>"
    using performs_TextStreamer_Write [of "rs_thinking (rs_at (NewPublisher emit) base rts [])" emit r] assms
    by (cases "rts = []") (simp_all add: rs_at_def)
qed (simp_all add: thinking_Write_def rs_at_def)

lemma performs_text_Write:
  assumes "t \<noteq> []" and "rs_text rs = Some \<lparr>ts_publisher = Some (NewPublisher emit),
      ts_kind = streamerText, ts_message = concat tts, ts_blockIndex = i, ts_blockStarted = (tts \<noteq> [])\<rparr>"
  shows "performs emit ((if tts = [] then [start_event streamerText i] else []) @ [delta_event streamerText i t])
    (text_Write t rs) (rs\<lparr>rs_text := Some \<lparr>ts_publisher = Some (NewPublisher emit),
      ts_kind = streamerText, ts_message = concat tts @ t, ts_blockIndex = i, ts_blockStarted = True\<rparr>\<rparr>)"
proof (rule performs_map [where k = "\<lambda>t. rs\<lparr>rs_text := Some t\<rparr>"])
  show "performs emit ((if tts = [] then [start_event streamerText i] else []) @ [delta_event streamerText i t])
    (TextStreamer_Write (the (rs_text rs)) t)
    \<lparr>ts_publisher = Some (NewPublisher emit), ts_kind = streamerText, ts_message = concat tts @ t,
        ts_blockIndex = i, ts_blockStarted = True\<rparr>"
    using performs_TextStreamer_Write [of "the (rs_text rs)" emit t] assms
    by (cases "tts = []") simp_all
qed (simp_all add: text_Write_def)

text \<open>Opening the text block ends the reasoning block, if there is one.\<close>

abbreviation opened :: "'w sink \<Rightarrow> int \<Rightarrow> string list \<Rightarrow> string list \<Rightarrow> 'w roundStream" where
  "opened emit base rts tts \<equiv> rs_at (NewPublisher emit) base rts [[]]\<lparr>rs_text := Some \<lparr>ts_publisher = Some (NewPublisher emit),
     ts_kind = streamerText, ts_message = concat tts, ts_blockIndex = base + blocks_of rts,
     ts_blockStarted = (tts \<noteq> [])\<rparr>\<rparr>"

lemma opened_rs_at: "tts \<noteq> [] \<Longrightarrow> opened emit base rts tts = rs_at (NewPublisher emit) base rts tts"
  by (simp add: rs_at_def)

lemma performs_openText:
  "performs emit (if rts \<noteq> [] \<and> tts = [] then [stop_event base] else [])
    (openText (rs_at (NewPublisher emit) base rts tts)) (opened emit base rts tts)"
proof (cases "tts = []")
  case False
  then have "openText (rs_at (NewPublisher emit) base rts tts) = return_nil (opened emit base rts tts)"
    by (simp add: openText_def fun_eq_iff rs_at_def)
  with False show ?thesis by (simp add: performs_nil)
next
  case True
  let ?rs = "rs_at (NewPublisher emit) base rts []"
  have "performs emit (if rts \<noteq> [] then [stop_event base] else []) (TextStreamer_Close (rs_thinking ?rs))
    (rs_thinking (rs_at (NewPublisher emit) base rts [[]]))"
    using performs_TextStreamer_Close [of "rs_thinking ?rs" emit] by (cases "rts = []") (simp_all add: rs_at_def)
  then have "performs emit (if rts \<noteq> [] then [stop_event base] else [])
      (\<lambda>w. case TextStreamer_Close (rs_thinking ?rs) w of (r, t, w') \<Rightarrow> (r, ?rs\<lparr>rs_thinking := t\<rparr>, w'))
      (?rs\<lparr>rs_thinking := rs_thinking (rs_at (NewPublisher emit) base rts [[]])\<rparr>)"
    by (rule performs_map [where k = "\<lambda>t. ?rs\<lparr>rs_thinking := t\<rparr>"]) simp_all
  then have "performs emit ((if rts \<noteq> [] then [stop_event base] else []) @ [])
      (and_next ''close thinking block''
        (\<lambda>w. case TextStreamer_Close (rs_thinking ?rs) w of (r, t, w') \<Rightarrow> (r, ?rs\<lparr>rs_thinking := t\<rparr>, w'))
        (\<lambda>rs. return_nil (rs\<lparr>rs_text := Some (NewTextStreamer (Some (rs_publisher rs)) (TextStreamer_BlockIndex (rs_thinking rs)))\<rparr>)))
      (opened emit base rts [])"
    by (rule performs_next)
      (simp add: performs_nil rs_at_def NewTextStreamer_def TextStreamer_BlockIndex_def)
  moreover have "openText ?rs = and_next ''close thinking block''
        (\<lambda>w. case TextStreamer_Close (rs_thinking ?rs) w of (r, t, w') \<Rightarrow> (r, ?rs\<lparr>rs_thinking := t\<rparr>, w'))
        (\<lambda>rs. return_nil (rs\<lparr>rs_text := Some (NewTextStreamer (Some (rs_publisher rs)) (TextStreamer_BlockIndex (rs_thinking rs)))\<rparr>))"
    by (auto simp: openText_def and_next_def fun_eq_iff rs_at_def split: prod.splits option.splits)
  ultimately show ?thesis using True by (simp add: eq_commute)
qed


lemma performs_handleDelta:
  assumes "round_step (rts, tts) d = (rts', tts')"
  obtains es where "performs emit es (handleDelta d (rs_at (NewPublisher emit) base rts tts))
      (rs_at (NewPublisher emit) base rts' tts')"
    "events_at base rts' tts' = events_at base rts tts @ es"
proof -
  let ?p = "NewPublisher emit"
  let ?es1 = "if ed_Reasoning d \<noteq> [] \<and> tts = []
    then (if rts = [] then [start_event streamerThinking base] else []) @ [delta_event streamerThinking base (ed_Reasoning d)] else []"
  let ?i = "base + blocks_of rts'"
  let ?es2 = "if ed_Text d = [] then [] else (if rts' \<noteq> [] \<and> tts = [] then [stop_event base] else [])
    @ (((if tts = [] then [start_event streamerText ?i] else []) @ [delta_event streamerText ?i (ed_Text d)]) @ [])"
  have 1: "performs emit ?es1
      (if ed_Reasoning d \<noteq> [] \<and> rs_text (rs_at ?p base rts tts) = None
       then thinking_Write (ed_Reasoning d) (rs_at ?p base rts tts) else return_nil (rs_at ?p base rts tts))
      (rs_at ?p base rts' tts)"
    using assms performs_thinking_Write [where r = "ed_Reasoning d" and emit = emit and rts = rts and base = base]
    by (auto simp: rs_at_def performs_nil)
  have tw: "performs emit ((if tts = [] then [start_event streamerText ?i] else []) @ [delta_event streamerText ?i (ed_Text d)])
      (text_Write (ed_Text d) (opened emit base rts' tts)) (rs_at ?p base rts' tts')" if "ed_Text d \<noteq> []"
  proof -
    have tts': "tts' = tts @ [ed_Text d]" using that assms by auto
    then have ne: "tts' \<noteq> []" by simp
    have "performs emit ((if tts = [] then [start_event streamerText ?i] else []) @ [delta_event streamerText ?i (ed_Text d)])
      (text_Write (ed_Text d) (opened emit base rts' tts)) (opened emit base rts' tts')"
      using performs_text_Write [OF that, where rs = "opened emit base rts' tts" and emit = emit and tts = tts and i = ?i]
        that unfolding tts' by simp
    then show ?thesis by (simp only: opened_rs_at [OF ne])
  qed
  have 2: "performs emit ?es2
      (if ed_Text d = [] then return_nil (rs_at ?p base rts' tts)
       else and_next ''open text block for delta'' (openText (rs_at ?p base rts' tts))
              (\<lambda>rs. and_next ''write text delta'' (text_Write (ed_Text d) rs) return_nil))
      (rs_at ?p base rts' tts')"
  proof (cases "ed_Text d = []")
    case True
    with assms have "tts' = tts" by auto
    with True show ?thesis by (simp add: performs_nil)
  next
    case False
    show ?thesis unfolding if_not_P [OF False]
      by (rule performs_next [OF performs_openText], rule performs_next [OF tw [OF False]], rule performs_nil)
  qed
  have "performs emit (?es1 @ ?es2) (handleDelta d (rs_at ?p base rts tts)) (rs_at ?p base rts' tts')"
    unfolding handleDelta_def by (rule performs_next [OF 1]) (rule 2)
  moreover have "events_at base rts' tts' = events_at base rts tts @ ?es1 @ ?es2"
    using assms by (auto simp: events_at_def open_block_def block_events_def split: if_splits)
  ultimately show thesis by (rule that)
qed


text \<open>Handlers one after the other, until one fails.\<close>

fun in_turn :: "('s \<Rightarrow> 'w \<Rightarrow> goerr option \<times> 's \<times> 'w) list \<Rightarrow> 's \<Rightarrow> 'w \<Rightarrow> goerr option \<times> 's \<times> 'w" where
  "in_turn [] s w = (None, s, w)"
| "in_turn (f # fs) s w =
     (case f s w of (Some e, s', w') \<Rightarrow> (Some e, s', w') | (None, s', w') \<Rightarrow> in_turn fs s' w')"

lemma performs_in_turn_Nil: "performs emit [] (in_turn [] s) s"
  by (rule performsI) simp_all

lemma performs_in_turn_Cons:
  assumes "performs emit es (f s) s1" and "performs emit fs (in_turn gs s1) s2"
  shows "performs emit (es @ fs) (in_turn (f # gs) s) s2"
  using assms by (rule performs_seq [where j = "\<lambda>e. e"]) auto

lemma performs_in_turn_append:
  assumes "performs emit es (in_turn fs s) s1" and "performs emit es' (in_turn gs s1) s2"
  shows "performs emit (es @ es') (in_turn (fs @ gs) s) s2"
proof -
  have "in_turn (fs @ gs) s w = (case in_turn fs s w of (Some e, t, w') \<Rightarrow> (Some e, t, w') | (None, t, w') \<Rightarrow> in_turn gs t w')" for s w
    by (induction fs arbitrary: s w) (auto split: prod.splits option.splits)
  with assms show ?thesis by (intro performs_seq [where j = "\<lambda>e. e"]) auto
qed

lemma performs_deltas:
  assumes "foldl round_step (rts, tts) ds = (rts', tts')"
  obtains es where "performs emit es (in_turn (map handleDelta ds) (rs_at (NewPublisher emit) base rts tts))
      (rs_at (NewPublisher emit) base rts' tts')"
    "events_at base rts' tts' = events_at base rts tts @ es"
  using assms
proof (induction ds arbitrary: rts tts thesis)
  case Nil
  then show ?case using performs_in_turn_Nil by (metis append_Nil2 foldl_Nil list.simps(8) prod.inject)
next
  case (Cons d ds)
  obtain r1 t1 where 1: "round_step (rts, tts) d = (r1, t1)" by force
  obtain es1 where es1: "performs emit es1 (handleDelta d (rs_at (NewPublisher emit) base rts tts))
      (rs_at (NewPublisher emit) base r1 t1)" "events_at base r1 t1 = events_at base rts tts @ es1"
    using performs_handleDelta [OF 1] by metis
  have 2: "foldl round_step (r1, t1) ds = (rts', tts')"
    using Cons.prems(2) by (simp only: foldl_Cons 1)
  obtain es2 where es2: "performs emit es2 (in_turn (map handleDelta ds) (rs_at (NewPublisher emit) base r1 t1))
      (rs_at (NewPublisher emit) base rts' tts')" "events_at base rts' tts' = events_at base r1 t1 @ es2"
    using Cons.IH [OF _ 2] by metis
  have "performs emit (es1 @ es2) (in_turn (map handleDelta (d # ds)) (rs_at (NewPublisher emit) base rts tts))
      (rs_at (NewPublisher emit) base rts' tts')"
    unfolding list.map by (rule performs_in_turn_Cons [where f = "handleDelta d"]) (rule es1(1), rule es2(1))
  then show ?case by (rule Cons.prems(1)) (simp add: es1(2) es2(2))
qed

text \<open>The content blocks of a round: reasoning and answer, each if there is any.\<close>

definition content_segs :: "string list \<Rightarrow> string list \<Rightarrow> seg list" where
  "content_segs rts tts = (if rts = [] then [] else [ThinkSeg rts]) @ (if tts = [] then [] else [TextSeg tts])"

lemma performs_finish:
  obtains es rs' where "performs emit es (finish (rs_at (NewPublisher emit) base rts tts)) rs'"
    "events_at base rts tts @ es = segs_events base (content_segs rts tts)"
    "nextBlockIndex rs' = base + int (length (content_segs rts tts))"
proof -
  let ?i = "base + blocks_of rts"
  let ?t = "\<lparr>ts_publisher = Some (NewPublisher emit), ts_kind = streamerText, ts_message = concat tts,
     ts_blockIndex = ?i + blocks_of tts, ts_blockStarted = False\<rparr>"
  let ?rs' = "opened emit base rts tts\<lparr>rs_text := Some ?t\<rparr>"
  have "performs emit (if tts \<noteq> [] then [stop_event ?i] else []) (TextStreamer_Close (the (rs_text (opened emit base rts tts)))) ?t"
    using performs_TextStreamer_Close [of "the (rs_text (opened emit base rts tts))" emit] by (cases "tts = []") simp_all
  then have tc: "performs emit (if tts \<noteq> [] then [stop_event ?i] else []) (text_Close (opened emit base rts tts)) ?rs'"
    by (rule performs_map [where k = "\<lambda>t. opened emit base rts tts\<lparr>rs_text := Some t\<rparr>"]) (simp_all add: text_Close_def)
  show thesis
  proof (rule that)
    show "performs emit ((if rts \<noteq> [] \<and> tts = [] then [stop_event base] else [])
        @ ((if tts \<noteq> [] then [stop_event ?i] else []) @ [])) (finish (rs_at (NewPublisher emit) base rts tts)) ?rs'"
      unfolding finish_def
      by (rule performs_next [OF performs_openText], rule performs_next [OF tc], rule performs_nil)
    show "nextBlockIndex ?rs' = base + int (length (content_segs rts tts))"
      by (simp add: nextBlockIndex_def TextStreamer_BlockIndex_def content_segs_def)
  qed (simp add: events_at_def open_block_def block_events_def content_segs_def)
qed


section \<open>A round of callbacks\<close>

record tool_run =
  tr_id :: string
  tr_name :: string
  tr_arguments :: string
  tr_content :: string
  tr_isError :: bool

record elelem_round =
  rd_deltas :: "elelem_Delta list"
  rd_calls :: "tool_run list"

definition call_event :: "nat \<Rightarrow> tool_run \<Rightarrow> elelem_ToolResult option \<Rightarrow> ToolCallEvent" where
  "call_event i c res = \<lparr>tce_CallID = tr_id c, tce_Name = tr_name c, tce_Arguments = tr_arguments c,
     tce_Index = int i, tce_Result = res\<rparr>"

definition result_of :: "tool_run \<Rightarrow> elelem_ToolResult option" where
  "result_of c = Some \<lparr>etr_Content = tr_content c, etr_IsError = tr_isError c\<rparr>"

text \<open>Handlers that all run, whichever of them fail; the first error is kept.\<close>

fun every_turn :: "('s \<Rightarrow> 'w \<Rightarrow> goerr option \<times> 's \<times> 'w) list \<Rightarrow> 's \<Rightarrow> 'w \<Rightarrow> goerr option \<times> 's \<times> 'w" where
  "every_turn [] s w = (None, s, w)"
| "every_turn (f # fs) s w =
     (case f s w of (r, s1, w1) \<Rightarrow>
        (case every_turn fs s1 w1 of (q, s2, w2) \<Rightarrow> (if r = None then q else r, s2, w2)))"

text \<open>
  A round of the engine (the vendored \<open>engine.go\<close>: \<open>prepareRound\<close>, \<open>streamAssistant\<close>,
  \<open>recordAssistant\<close>, \<open>runToolCalls\<close>, \<open>recordToolOutcomes\<close>), as far as the callbacks go. Up to
  the starts of the tool calls, in call order, the first failure ends the round. The results
  are reported for every call, in call order, even after a failure to report an earlier one,
  and the first error is kept. The handlers of one callback form a chain that stops at the
  first failure (\<open>chainCallback\<close>). Failures of the engine's own (of the model's driver, of a
  tool, of a limit) are not part of a round.
\<close>

definition fire_round :: "'w callbacks \<Rightarrow> int \<Rightarrow> elelem_round \<Rightarrow> 'w handler" where
  "fire_round cb n rd a w =
     (case in_turn
        (cb_roundStart cb
         @ concat (map (\<lambda>d. map (\<lambda>f. f d) (cb_delta cb)) (rd_deltas rd))
         @ map (\<lambda>f. f (int (length (rd_calls rd)))) (cb_assistantMessage cb)
         @ map (\<lambda>f. f n) (cb_roundEnd cb)
         @ concat (map (\<lambda>(i, c). map (\<lambda>f. f (call_event i c None)) (cb_toolCallStart cb)) (enumerate 0 (rd_calls rd)))) a w of
        (Some e, a1, w1) \<Rightarrow> (Some e, a1, w1)
      | (None, a1, w1) \<Rightarrow>
          every_turn (map (\<lambda>(i, c). in_turn (map (\<lambda>f. f (call_event i c (result_of c))) (cb_toolResult cb)))
            (enumerate 0 (rd_calls rd))) a1 w1)"

definition no_callbacks :: "'w callbacks" where
  "no_callbacks = \<lparr>cb_roundStart = [], cb_delta = [], cb_assistantMessage = [], cb_roundEnd = [],
     cb_toolCallStart = [], cb_toolResult = []\<rparr>"

definition run_round :: "int \<Rightarrow> elelem_round \<Rightarrow> 'w handler" where
  "run_round n rd = fire_round (Bind no_callbacks) n rd"

definition start_callbacks :: "nat \<Rightarrow> tool_run list \<Rightarrow> 'w handler list" where
  "start_callbacks k cs = map (\<lambda>(i, c). OnToolCallStart (call_event i c None)) (enumerate k cs)"

definition result_callbacks :: "nat \<Rightarrow> tool_run list \<Rightarrow> 'w handler list" where
  "result_callbacks k cs = map (\<lambda>(i, c). OnToolResult (call_event i c (result_of c))) (enumerate k cs)"

lemma in_turn_single: "in_turn [f] = f"
proof (intro ext)
  show "in_turn [f] s w = f s w" for s w by (cases "f s w") (auto split: option.split)
qed

lemma run_round_eq:
  "run_round n rd a w =
     (case in_turn ([OnRoundStart] @ map OnDelta (rd_deltas rd)
        @ [OnAssistantMessage (int (length (rd_calls rd))), OnRoundEnd n] @ start_callbacks 0 (rd_calls rd)) a w of
        (Some e, a1, w1) \<Rightarrow> (Some e, a1, w1)
      | (None, a1, w1) \<Rightarrow> every_turn (result_callbacks 0 (rd_calls rd)) a1 w1)"
proof -
  have pairs: "concat (map (\<lambda>(i, c). [h i c]) xs) = map (\<lambda>(i, c). h i c) xs"
    for h :: "nat \<Rightarrow> tool_run \<Rightarrow> 'w handler" and xs by (induction xs) auto
  have deltas: "concat (map (\<lambda>d. [OnDelta d]) ds) = map OnDelta ds" for ds by (induction ds) auto
  let ?cb = "Bind no_callbacks" and ?cs = "enumerate 0 (rd_calls rd)"
  have front: "cb_roundStart ?cb @ concat (map (\<lambda>d. map (\<lambda>f. f d) (cb_delta ?cb)) (rd_deltas rd))
      @ map (\<lambda>f. f (int (length (rd_calls rd)))) (cb_assistantMessage ?cb) @ map (\<lambda>f. f n) (cb_roundEnd ?cb)
      @ concat (map (\<lambda>(i, c). map (\<lambda>f. f (call_event i c None)) (cb_toolCallStart ?cb)) ?cs)
    = [OnRoundStart] @ map OnDelta (rd_deltas rd) @ [OnAssistantMessage (int (length (rd_calls rd))), OnRoundEnd n]
      @ start_callbacks 0 (rd_calls rd)"
    by (simp add: Bind_def no_callbacks_def start_callbacks_def pairs deltas)
  have results: "map (\<lambda>(i, c). in_turn (map (\<lambda>f. f (call_event i c (result_of c))) (cb_toolResult ?cb))) ?cs
      = result_callbacks 0 (rd_calls rd)"
    by (simp add: Bind_def no_callbacks_def result_callbacks_def in_turn_single)
  show ?thesis unfolding run_round_def fire_round_def front results ..
qed

fun run_callbacks :: "int \<Rightarrow> elelem_round list \<Rightarrow> 'w handler list" where
  "run_callbacks n [] = []"
| "run_callbacks n (rd # rds) = run_round n rd # run_callbacks (n + 1) rds"

text \<open>The content blocks a round stands for.\<close>

definition tool_segs :: "tool_run list \<Rightarrow> seg list" where
  "tool_segs cs = map (\<lambda>c. ToolSeg (tr_id c) (tr_name c) [tr_arguments c]) cs"

definition result_segs :: "tool_run list \<Rightarrow> seg list" where
  "result_segs cs = map (\<lambda>c. ResultSeg (tr_id c) (tr_isError c) [tr_content c]) cs"

definition call_segs :: "elelem_round \<Rightarrow> seg list" where
  "call_segs rd = (case round_texts (rd_deltas rd) of (rts, tts) \<Rightarrow> content_segs rts tts) @ tool_segs (rd_calls rd)"

definition round_segs :: "elelem_round \<Rightarrow> seg list" where
  "round_segs rd = call_segs rd @ result_segs (rd_calls rd)"

text \<open>The plan of a round: its blocks one after the other from index \<open>i\<close>, of which those of the results are all attempted.\<close>

fun seg_groups :: "int \<Rightarrow> seg list \<Rightarrow> event list list" where
  "seg_groups i [] = []"
| "seg_groups i (s # ss) = seg_events i s # seg_groups (i + 1) ss"

definition round_plan :: "int \<Rightarrow> elelem_round \<Rightarrow> phase list" where
  "round_plan i rd = [In_order (segs_events i (call_segs rd)),
     Each (seg_groups (i + int (length (call_segs rd))) (result_segs (rd_calls rd)))]"

fun run_plan :: "int \<Rightarrow> elelem_round list \<Rightarrow> phase list" where
  "run_plan i [] = []"
| "run_plan i (rd # rds) = round_plan i rd @ run_plan (i + int (length (round_segs rd))) rds"

lemma segs_events_append: "segs_events i (xs @ ys) = segs_events i xs @ segs_events (i + int (length xs)) ys"
  by (induction xs arbitrary: i) (simp_all add: algebra_simps)

lemma concat_seg_groups: "concat (seg_groups i ss) = segs_events i ss"
  by (induction i ss rule: seg_groups.induct) simp_all

lemma round_plan_events: "plan_events (round_plan i rd) = segs_events i (round_segs rd)"
  by (simp add: round_plan_def concat_seg_groups round_segs_def segs_events_append)

lemma run_plan_events: "plan_events (run_plan i rds) = segs_events i (concat (map round_segs rds))"
  by (induction i rds rule: run_plan.induct) (simp_all add: round_plan_events segs_events_append)

text \<open>The deltas of a round, through the adapter.\<close>

lemma in_turn_OnDelta:
  assumes "ad_roundStream a = Some rs"
  shows "in_turn (map OnDelta ds) a w =
    (case in_turn (map handleDelta ds) rs w of (r, rs', w') \<Rightarrow> (r, a\<lparr>ad_roundStream := Some rs'\<rparr>, w'))"
  using assms
proof (induction ds arbitrary: a rs w)
  case (Cons d ds)
  obtain r rs1 w1 where 1: "handleDelta d rs w = (r, rs1, w1)" by (metis prod_cases3)
  show ?case
  proof (cases r)
    case None
    with 1 Cons.IH [of "a\<lparr>ad_roundStream := Some rs1\<rparr>" rs1 w1] Cons.prems show ?thesis
      by (auto simp: OnDelta_def split: prod.splits)
  next
    case (Some e)
    with 1 Cons.prems show ?thesis by (simp add: OnDelta_def)
  qed
qed simp

lemma performs_content:
  assumes "ad_publisher a = NewPublisher emit" and "round_texts ds = (rts, tts)"
  obtains es rs where "performs emit es
      (in_turn ([OnRoundStart] @ map OnDelta ds @ [OnAssistantMessage calls, OnRoundEnd n]) a)
      (a\<lparr>ad_roundStream := Some rs, ad_blockIndex := ad_blockIndex a + int (length (content_segs rts tts)),
         ad_toolBase := ad_blockIndex a + int (length (content_segs rts tts)),
         ad_toolCallCount := calls, ad_rounds := n + 1\<rparr>)"
    "es = segs_events (ad_blockIndex a) (content_segs rts tts)"
proof -
  let ?b = "ad_blockIndex a" and ?p = "NewPublisher emit"
  let ?a1 = "a\<lparr>ad_roundStream := Some (rs_at ?p ?b [] [])\<rparr>"
  let ?a2 = "a\<lparr>ad_roundStream := Some (rs_at ?p ?b rts tts)\<rparr>"
  obtain es where es: "performs emit es (in_turn (map handleDelta ds) (rs_at ?p ?b [] [])) (rs_at ?p ?b rts tts)"
      "events_at ?b rts tts = events_at ?b [] [] @ es"
    using performs_deltas [OF assms(2) [unfolded round_texts_def]] by metis
  obtain fs rs where fin: "performs emit fs (finish (rs_at ?p ?b rts tts)) rs"
      "events_at ?b rts tts @ fs = segs_events ?b (content_segs rts tts)"
      "nextBlockIndex rs = ?b + int (length (content_segs rts tts))"
    using performs_finish by metis
  let ?a3 = "a\<lparr>ad_roundStream := Some rs, ad_blockIndex := nextBlockIndex rs, ad_toolBase := nextBlockIndex rs,
     ad_toolCallCount := calls\<rparr>"
  have start: "performs emit [] (OnRoundStart a) ?a1"
    by (rule performsI) (simp_all add: OnRoundStart_def assms(1) rs_at_start)
  have deltas: "performs emit es (in_turn (map OnDelta ds) ?a1) ?a2"
    by (rule performs_map [OF es(1), where k = "\<lambda>rs. ?a1\<lparr>ad_roundStream := Some rs\<rparr>"])
      (simp_all add: in_turn_OnDelta)
  have msg: "performs emit fs (OnAssistantMessage calls ?a2) ?a3"
    by (rule performsI)
      (auto simp: OnAssistantMessage_def performs_ok [OF fin(1)] dest!: performs_err [OF fin(1)])
  have end1: "performs emit [] (OnRoundEnd n ?a3) (?a3\<lparr>ad_rounds := n + 1\<rparr>)"
    by (rule performsI) (simp_all add: OnRoundEnd_def)
  have "performs emit ([] @ es @ fs @ [] @ [])
      (in_turn (OnRoundStart # map OnDelta ds @ [OnAssistantMessage calls, OnRoundEnd n]) a) (?a3\<lparr>ad_rounds := n + 1\<rparr>)"
    by (rule performs_in_turn_Cons [where f = OnRoundStart], rule start,
        rule performs_in_turn_append, rule deltas,
        rule performs_in_turn_Cons [where f = "OnAssistantMessage calls"], rule msg,
        rule performs_in_turn_Cons [where f = "OnRoundEnd n"], rule end1, rule performs_in_turn_Nil)
  then show thesis
    using that [of "es @ fs" rs] es(2) fin(2,3) by (simp add: events_at_def open_block_def)
qed


text \<open>Tool calls and their results, each in its own block.\<close>

lemma tool_use_seg: "tool_use_events i u n js = seg_events i (ToolSeg u n [js])"
  by (simp add: tool_use_events_def tool_use_event_def tool_input_event_def stop_event_def)

lemma tool_result_seg: "tool_result_events i u t x = seg_events i (ResultSeg u x [t])"
  by (simp add: tool_result_events_def tool_result_event_def tool_text_event_def stop_event_def)

lemma start_callbacks_simps [simp]:
  "start_callbacks k [] = []"
  "start_callbacks k (c # cs) = OnToolCallStart (call_event k c None) # start_callbacks (Suc k) cs"
  by (simp_all add: start_callbacks_def)

lemma result_callbacks_simps [simp]:
  "result_callbacks k [] = []"
  "result_callbacks k (c # cs) = OnToolResult (call_event k c (result_of c)) # result_callbacks (Suc k) cs"
  by (simp_all add: result_callbacks_def)

declare in_turn.simps [simp del]

lemma performs_start_callbacks:
  assumes "ad_publisher a = NewPublisher emit"
  shows "performs emit (segs_events (ad_toolBase a + int k) (tool_segs cs)) (in_turn (start_callbacks k cs) a) a"
proof (induction cs arbitrary: k)
  case Nil
  show ?case by (simp add: tool_segs_def performs_in_turn_Nil)
next
  case (Cons c cs)
  have "performs emit (seg_events (ad_toolBase a + int k) (ToolSeg (tr_id c) (tr_name c) [tr_arguments c]))
      (OnToolCallStart (call_event k c None) a) a"
    by (rule performs_send [OF SendToolUseBlock_outcome [of "NewPublisher emit", simplified tool_use_seg publisher.sel], where m = "''send tool_use block''" and s = a])
      (simp add: OnToolCallStart_def call_event_def assms)
  from performs_in_turn_Cons [where f = "OnToolCallStart (call_event k c None)", OF this Cons.IH [of "Suc k"]]
  show ?case by (simp add: tool_segs_def algebra_simps)
qed

text \<open>The results, each of which is sent whatever became of those before it.\<close>

lemma OnToolResult_result:
  fixes c :: tool_run and k :: nat
  assumes "ad_publisher a = NewPublisher emit"
  defines "es \<equiv> seg_events (ad_toolBase a + ad_toolCallCount a + int k) (ResultSeg (tr_id c) (tr_isError c) [tr_content c])"
  obtains r a' v where "OnToolResult (call_event k c (result_of c)) a w = (r, a', v)"
    "case emit_all emit es w of (None, u) \<Rightarrow> r = None \<and> v = u | (Some x, u) \<Rightarrow> v = u \<and> (\<exists>e. r = Some e \<and> errors_is e x)"
    "a' = (if r = None \<and> int k = ad_toolCallCount a - 1
       then a\<lparr>ad_blockIndex := ad_toolBase a + 2 * ad_toolCallCount a\<rparr> else a)"
proof -
  obtain q v where q: "SendToolResultBlock (NewPublisher emit) (ad_toolBase a + ad_toolCallCount a + int k)
      (tr_id c) (tr_content c) (tr_isError c) w = (q, v)" by force
  have "same_outcome (q, v) (emit_all emit es w)"
    using SendToolResultBlock_outcome [of "NewPublisher emit", simplified tool_result_seg publisher.sel] q
    unfolding es_def by metis
  then have "case emit_all emit es w of (None, u) \<Rightarrow> q = None \<and> v = u | (Some x, u) \<Rightarrow> v = u \<and> (\<exists>e. q = Some e \<and> errors_is e x)"
    by (auto simp: same_outcome_def split: prod.splits option.splits)
  with q assms(1) show thesis
    by (intro that [of "wrap_err ''send tool_result block'' q"
          "if q = None \<and> int k = ad_toolCallCount a - 1 then a\<lparr>ad_blockIndex := ad_toolBase a + 2 * ad_toolCallCount a\<rparr> else a" v])
      (auto simp: OnToolResult_def contentBlocksPerTool_def call_event_def result_of_def split: prod.splits option.splits)
qed

lemma every_result:
  fixes a :: "'w Adapter"
  assumes "ad_publisher a = NewPublisher emit" and "ad_toolCallCount a = int (k + length cs)"
  shows "case emit_each emit (seg_groups (ad_toolBase a + ad_toolCallCount a + int k) (result_segs cs)) w of
      (None, v) \<Rightarrow> every_turn (result_callbacks k cs) a w
        = (None, if cs = [] then a else a\<lparr>ad_blockIndex := ad_toolBase a + 2 * ad_toolCallCount a\<rparr>, v)
    | (Some x, v) \<Rightarrow> \<exists>e t. every_turn (result_callbacks k cs) a w = (Some e, t, v) \<and> errors_is e x"
  using assms
proof (induction cs arbitrary: k w)
  case Nil
  show ?case by (simp add: result_segs_def)
next
  case (Cons c cs)
  define i where "i = ad_toolBase a + ad_toolCallCount a + int k"
  define es where "es = seg_events i (ResultSeg (tr_id c) (tr_isError c) [tr_content c])"
  define gs where "gs = seg_groups (i + 1) (result_segs cs)"
  define h :: "'w handler" where "h = OnToolResult (call_event k c (result_of c))"
  define hs :: "'w handler list" where "hs = result_callbacks (Suc k) cs"
  define a2 where "a2 = a\<lparr>ad_blockIndex := ad_toolBase a + 2 * ad_toolCallCount a\<rparr>"
  obtain r a1 v where 1: "h a w = (r, a1, v)"
    "case emit_all emit es w of (None, u) \<Rightarrow> r = None \<and> v = u | (Some x, u) \<Rightarrow> v = u \<and> (\<exists>e. r = Some e \<and> errors_is e x)"
    "a1 = (if r = None \<and> int k = ad_toolCallCount a - 1 then a2 else a)"
    by (rule OnToolResult_result [OF Cons.prems(1), of k c w], rule that) (simp_all only: es_def i_def h_def a2_def)
  obtain q u0 where "emit_all emit es w = (q, u0)" by force
  with 1(2) have q: "emit_all emit es w = (q, v)" "r = None \<longleftrightarrow> q = None"
    "\<forall>x. q = Some x \<longrightarrow> (\<exists>e. r = Some e \<and> errors_is e x)"
    by (cases q; auto)+
  have groups: "seg_groups i (result_segs (c # cs)) = es # gs" and hds: "result_callbacks k (c # cs) = h # hs"
    by (simp_all add: result_segs_def es_def gs_def h_def hs_def)
  have "case emit_each emit (es # gs) w of
      (None, v) \<Rightarrow> every_turn (h # hs) a w = (None, a2, v)
    | (Some x, v) \<Rightarrow> \<exists>e t. every_turn (h # hs) a w = (Some e, t, v) \<and> errors_is e x"
  proof (cases "cs = []")
    case True
    then have "gs = []" "hs = []" "int k = ad_toolCallCount a - 1"
      using Cons.prems(2) by (simp_all add: gs_def hs_def result_segs_def)
    then have gs: "gs = []" "hs = []" and a1: "r = None \<longrightarrow> a1 = a2" using 1(3) by simp_all
    show ?thesis
    proof (cases q)
      case None
      with q have "r = None" by simp
      with a1 have "h a w = (None, a2, v)" using 1(1) by simp
      with q None gs show ?thesis by simp
    next
      case (Some x)
      with q obtain e where "r = Some e" "errors_is e x" by blast
      with q 1(1) Some gs show ?thesis by simp
    qed
  next
    case False
    then have a1: "a1 = a" using 1(3) Cons.prems(2) by simp
    obtain p u where p: "emit_each emit gs v = (p, u)" by force
    have "case (p, u) of (None, v') \<Rightarrow> every_turn hs a v = (None, a2, v')
      | (Some x, v') \<Rightarrow> \<exists>e t. every_turn hs a v = (Some e, t, v') \<and> errors_is e x"
      using Cons.IH [of "Suc k" v] Cons.prems False p
      unfolding gs_def hs_def a2_def i_def by (cases p) (simp_all add: algebra_simps)
    with p 1(1) a1 q show ?thesis by (cases q; cases p) auto
  qed
  then show ?case
    unfolding groups [symmetric] hds [symmetric] i_def a2_def by (simp only: list.distinct if_False)
qed

section \<open>Rounds and runs\<close>

lemma enacts_round:
  assumes "ad_publisher a = NewPublisher emit"
  obtains a' where "enacts emit (round_plan (ad_blockIndex a) rd) (run_round n rd a) a'"
    "ad_publisher a' = NewPublisher emit" "ad_rounds a' = n + 1"
    "ad_blockIndex a' = ad_blockIndex a + int (length (round_segs rd))"
proof -
  obtain rts tts where rt: "round_texts (rd_deltas rd) = (rts, tts)" by force
  let ?cs = "rd_calls rd"
  let ?i = "ad_blockIndex a + int (length (content_segs rts tts))"
  let ?j = "ad_blockIndex a + int (length (call_segs rd))"
  obtain rs where content: "performs emit (segs_events (ad_blockIndex a) (content_segs rts tts))
      (in_turn ([OnRoundStart] @ map OnDelta (rd_deltas rd) @ [OnAssistantMessage (int (length ?cs)), OnRoundEnd n]) a)
      (a\<lparr>ad_roundStream := Some rs, ad_blockIndex := ?i, ad_toolBase := ?i,
         ad_toolCallCount := int (length ?cs), ad_rounds := n + 1\<rparr>)" (is "performs _ _ _ ?a1")
    using performs_content [OF assms rt] by metis
  let ?a2 = "if ?cs = [] then ?a1 else ?a1\<lparr>ad_blockIndex := ?i + 2 * int (length ?cs)\<rparr>"
  have starts: "performs emit (segs_events ?i (tool_segs ?cs)) (in_turn (start_callbacks 0 ?cs) ?a1) ?a1"
    using performs_start_callbacks [of ?a1 emit 0 ?cs] assms by simp
  have j: "?j = ?i + int (length ?cs)" by (simp add: call_segs_def rt tool_segs_def)
  have front: "enacts emit [In_order (segs_events (ad_blockIndex a) (call_segs rd))]
      (in_turn ([OnRoundStart] @ map OnDelta (rd_deltas rd)
        @ [OnAssistantMessage (int (length ?cs)), OnRoundEnd n] @ start_callbacks 0 ?cs) a) ?a1"
    using enacts_performs [OF performs_in_turn_append [OF content starts]]
    by (simp add: call_segs_def rt segs_events_append)
  have results: "enacts emit [Each (seg_groups ?j (result_segs ?cs))] (every_turn (result_callbacks 0 ?cs) ?a1) ?a2"
    unfolding enacts_def
  proof
    fix w
    show "case emit_plan emit [Each (seg_groups ?j (result_segs ?cs))] w of
        (None, v) \<Rightarrow> every_turn (result_callbacks 0 ?cs) ?a1 w = (None, ?a2, v)
      | (Some x, v) \<Rightarrow> \<exists>e t. every_turn (result_callbacks 0 ?cs) ?a1 w = (Some e, t, v) \<and> errors_is e x"
      using every_result [of ?a1 emit 0 ?cs w] assms unfolding j
      by (simp cong: if_cong split del: if_split split: prod.splits option.splits)
  qed
  have "enacts emit ([In_order (segs_events (ad_blockIndex a) (call_segs rd))] @ [Each (seg_groups ?j (result_segs ?cs))])
      (run_round n rd a) ?a2"
    by (rule enacts_seq [where g = "every_turn (result_callbacks 0 ?cs)", OF front results]) (rule run_round_eq)
  then have "enacts emit (round_plan (ad_blockIndex a) rd) (run_round n rd a) ?a2" by (simp add: round_plan_def)
  moreover have "ad_blockIndex ?a2 = ad_blockIndex a + int (length (round_segs rd))"
    by (simp add: round_segs_def call_segs_def rt tool_segs_def result_segs_def)
  ultimately show thesis by (intro that [of ?a2]) (simp_all add: assms)
qed

lemma enacts_run:
  assumes "ad_publisher a = NewPublisher emit"
  obtains a' where "enacts emit (run_plan (ad_blockIndex a) rds) (in_turn (run_callbacks n rds) a) a'"
  using assms
proof (induction rds arbitrary: a n thesis)
  case Nil
  have "enacts emit [] (in_turn [] a) a" by (rule enactsI) (simp_all add: in_turn.simps)
  with Nil(1) [of a] show ?case by simp
next
  case (Cons rd rds)
  obtain a1 where a1: "enacts emit (round_plan (ad_blockIndex a) rd) (run_round n rd a) a1"
      "ad_publisher a1 = NewPublisher emit" "ad_blockIndex a1 = ad_blockIndex a + int (length (round_segs rd))"
    using enacts_round [OF Cons.prems(2)] by metis
  obtain a2 where a2: "enacts emit (run_plan (ad_blockIndex a1) rds) (in_turn (run_callbacks (n + 1) rds) a1) a2"
    using Cons.IH [OF _ a1(2)] by metis
  have "enacts emit (round_plan (ad_blockIndex a) rd @ run_plan (ad_blockIndex a1) rds)
      (in_turn (run_callbacks n (rd # rds)) a) a2"
    by (rule enacts_seq [where g = "in_turn (run_callbacks (n + 1) rds)", OF a1(1) a2])
      (simp add: in_turn.simps split: prod.split option.split)
  with Cons.prems(1) show ?case by (simp add: a1(3))
qed

text \<open>
  C2. A round of callbacks, on any sink: reasoning, answer, tool calls and results become
  consecutive content blocks starting at the adapter's block index, in this order, and the
  index ends behind the last of them. Of reasoning, answer and calls the first event the sink
  refuses ends the round, and nothing is emitted after it. The engine reports every result
  even if an earlier one could not be sent, so then the results' blocks are all attempted,
  each up to its first refused event. The round's error is the first one, with the sink's in
  its chain.
\<close>

theorem adapter_round_blocks:
  "plan_events (round_plan (ad_blockIndex a) rd) = segs_events (ad_blockIndex a) (round_segs rd)
   \<and> (case emit_plan (pub_sink (ad_publisher a)) (round_plan (ad_blockIndex a) rd) w of
        (None, v) \<Rightarrow> \<exists>a'. run_round n rd a w = (None, a', v)
          \<and> ad_blockIndex a' = ad_blockIndex a + int (length (round_segs rd)) \<and> Rounds a' = n + 1
      | (Some x, v) \<Rightarrow> \<exists>e a'. run_round n rd a w = (Some e, a', v) \<and> errors_is e x)"
proof -
  have "ad_publisher a = NewPublisher (pub_sink (ad_publisher a))" by simp
  then obtain a' where a': "enacts (pub_sink (ad_publisher a)) (round_plan (ad_blockIndex a) rd) (run_round n rd a) a'"
    "ad_rounds a' = n + 1" "ad_blockIndex a' = ad_blockIndex a + int (length (round_segs rd))"
    using enacts_round by metis
  show ?thesis
    using enacts_ok [OF a'(1), of w] enacts_err [OF a'(1), of w] a'(2,3)
    by (auto simp: Rounds_def round_plan_events split: prod.split option.split)
qed

section \<open>A whole turn\<close>

text \<open>A program that streams a run: preamble, the callbacks of every round, epilogue.\<close>

definition adapter_turn ::
    "'w publisher \<Rightarrow> string \<Rightarrow> string \<Rightarrow> string \<Rightarrow> elelem_round list \<Rightarrow> string \<Rightarrow> int \<Rightarrow> 'w \<Rightarrow> goerr option \<times> 'w" where
  "adapter_turn pub msgID streamID model rds stopReason tokens w =
     (case SendStreamPreamble pub msgID streamID model w of
        (Some e, w1) \<Rightarrow> (Some e, w1)
      | (None, w1) \<Rightarrow>
          (case in_turn (run_callbacks 0 rds) (NewAdapter pub) w1 of
             (Some e, a, w2) \<Rightarrow> (Some e, w2)
           | (None, a, w2) \<Rightarrow> SendStreamEpilogue pub stopReason tokens w2))"

definition turn_plan :: "string \<Rightarrow> string \<Rightarrow> string \<Rightarrow> elelem_round list \<Rightarrow> string \<Rightarrow> int \<Rightarrow> phase list" where
  "turn_plan msgID streamID model rds stopReason tokens =
     In_order (preamble_events msgID streamID model) # run_plan 0 rds @ [In_order (epilogue_events stopReason tokens)]"

lemma turn_plan_events: "plan_events (turn_plan b c d rds r k) = turn_events b c d (concat (map round_segs rds)) r k"
  by (simp add: turn_plan_def turn_events_def run_plan_events)

lemma same_outcome_seq:
  assumes "\<And>w. same_outcome (f w) (emit_plan emit phs w)" "\<And>w. same_outcome (g w) (emit_plan emit qs w)"
    and "\<And>w. h w = (case f w of (Some e, w') \<Rightarrow> (Some e, w') | (None, w') \<Rightarrow> g w')"
  shows "same_outcome (h w) (emit_plan emit (phs @ qs) w)"
proof (cases "f w")
  case (Pair r w1)
  obtain q v where q: "emit_plan emit phs w = (q, v)" by force
  with assms(1) [of w] Pair have "w1 = v" "r = None \<longleftrightarrow> q = None"
    by (auto simp: same_outcome_def split: option.splits)
  with assms(1) [of w] assms(2) [of v] q Pair show ?thesis
    by (cases q) (auto simp: emit_plan_append assms(3) same_outcome_def)
qed

lemma adapter_turn_outcome:
  "same_outcome (adapter_turn (NewPublisher emit) b c d rds r k w) (emit_plan emit (turn_plan b c d rds r k) w)"
proof -
  let ?p = "NewPublisher emit"
  obtain a where a: "enacts emit (run_plan 0 rds) (in_turn (run_callbacks 0 rds) (NewAdapter ?p)) a"
    using enacts_run [of "NewAdapter ?p" emit rds 0] by (auto simp: NewAdapter_def)
  let ?run = "\<lambda>w. case in_turn (run_callbacks 0 rds) (NewAdapter ?p) w of (r, a, w') \<Rightarrow> (r, w')"
  have one: "emit_plan emit [In_order es] w = emit_all emit es w" for es w
    by (simp split: prod.split option.split)
  have run: "same_outcome (?run w) (emit_plan emit (run_plan 0 rds) w)" for w
    using enacts_ok [OF a, of w] enacts_err [OF a, of w]
    by (cases "emit_plan emit (run_plan 0 rds) w"; cases "fst (emit_plan emit (run_plan 0 rds) w)")
      (auto simp: same_outcome_def)
  have rest: "same_outcome (case ?run w of (Some e, w') \<Rightarrow> (Some e, w') | (None, w') \<Rightarrow> SendStreamEpilogue ?p r k w')
      (emit_plan emit (run_plan 0 rds @ [In_order (epilogue_events r k)]) w)" for w
    using SendStreamEpilogue_outcome [of ?p r k, simplified]
    by (intro same_outcome_seq [where f = ?run, OF run]) (simp_all only: one)
  have "same_outcome (adapter_turn ?p b c d rds r k w)
      (emit_plan emit ([In_order (preamble_events b c d)] @ run_plan 0 rds @ [In_order (epilogue_events r k)]) w)"
    using SendStreamPreamble_outcome [of ?p b c d, simplified]
    by (intro same_outcome_seq [where f = "SendStreamPreamble ?p b c d", OF _ rest])
      (simp only: one, simp add: adapter_turn_def split: prod.split option.split)
  then show ?thesis by (simp add: turn_plan_def)
qed

end
