(* ===== verification/Queue_Source.thy ===== *)
theory Queue_Source
  imports Sinks
begin

text \<open>
  \<open>nats/source.go\<close> and \<open>ws/source.go\<close>: the source between a delivery callback and a reader.
  The two files hold the same code. \<open>Deliver\<close>, \<open>Close\<close> and \<open>Next\<close> run in different
  goroutines, so their statements are single steps, a goroutine is a program counter, and the
  system's steps interleave them in any order. A trace lists what the goroutines did.
\<close>

section \<open>Buffered channels\<close>

datatype 'a outcome = Proceeds 'a | Blocks | Panics

record 'a chan =
  ch_buf :: "'a list"
  ch_cap :: nat
  ch_closed :: bool

definition make_chan :: "nat \<Rightarrow> 'a chan" where
  "make_chan n = \<lparr>ch_buf = [], ch_cap = n, ch_closed = False\<rparr>"

definition chan_send :: "'a \<Rightarrow> 'a chan \<Rightarrow> 'a chan outcome" where
  "chan_send x c =
     (if ch_closed c then Panics
      else if length (ch_buf c) < ch_cap c then Proceeds (c\<lparr>ch_buf := ch_buf c @ [x]\<rparr>)
      else Blocks)"

text \<open>A receive from a closed channel yields what is left in it, then reports \<open>ok = false\<close>.\<close>

definition chan_recv :: "'a chan \<Rightarrow> ('a option \<times> 'a chan) outcome" where
  "chan_recv c =
     (case ch_buf c of
        x # xs \<Rightarrow> Proceeds (Some x, c\<lparr>ch_buf := xs\<rparr>)
      | [] \<Rightarrow> if ch_closed c then Proceeds (None, c) else Blocks)"

definition chan_close :: "'a chan \<Rightarrow> 'a chan outcome" where
  "chan_close c = (if ch_closed c then Panics else Proceeds (c\<lparr>ch_closed := True\<rparr>))"

section \<open>The source and its methods\<close>

text \<open>\<open>mu\<close> is the goroutine that holds the mutex.\<close>

record queue_source =
  qs_mu :: "nat option"
  qs_ch :: "event chan"
  qs_closed :: bool

definition nats_sourceBufferSize :: nat where "nats_sourceBufferSize = 64"
definition ws_sourceBufferSize :: nat where "ws_sourceBufferSize = 64"

definition nats_NewSource :: queue_source where
  "nats_NewSource = \<lparr>qs_mu = None, qs_ch = make_chan nats_sourceBufferSize, qs_closed = False\<rparr>"

definition ws_NewSource :: queue_source where
  "ws_NewSource = \<lparr>qs_mu = None, qs_ch = make_chan ws_sourceBufferSize, qs_closed = False\<rparr>"

text \<open>
  The next statement of a goroutine that is inside \<open>Deliver\<close>, \<open>Close\<close> or \<open>Next\<close>; the context
  of a \<open>Next\<close> is named by a number.
\<close>

datatype pc =
    Idle
  | D_lock event | D_check event | D_send event | D_unlock
  | C_lock | C_check | C_set | C_close | C_unlock
  | N_select nat
  | Crashed

datatype act =
    CallDeliver event | CallClose | CallNext nat | Cancel nat string
  | Internal
  | Accepted event | Dropped | DeliverReturns
  | CloseReturns
  | NextReturns "goerr + event"
  | Panic

type_synonym stmt = "(act \<times> pc \<times> queue_source) option"

text \<open>A statement that has to wait, for the mutex or for room in the channel, is \<open>None\<close>.\<close>

definition lock :: "nat \<Rightarrow> pc \<Rightarrow> queue_source \<Rightarrow> stmt" where
  "lock g p s = (if qs_mu s = None then Some (Internal, p, s\<lparr>qs_mu := Some g\<rparr>) else None)"

fun Deliver :: "nat \<Rightarrow> pc \<Rightarrow> queue_source \<Rightarrow> stmt" where
  "Deliver g (D_lock ev) s = lock g (D_check ev) s"
| "Deliver g (D_check ev) s =
     (if qs_closed s then Some (Dropped, D_unlock, s) else Some (Internal, D_send ev, s))"
| "Deliver g (D_send ev) s =
     (case chan_send ev (qs_ch s) of
        Proceeds c \<Rightarrow> Some (Accepted ev, D_unlock, s\<lparr>qs_ch := c\<rparr>)
      | Blocks \<Rightarrow> None
      | Panics \<Rightarrow> Some (Panic, Crashed, s))"
| "Deliver g D_unlock s = Some (DeliverReturns, Idle, s\<lparr>qs_mu := None\<rparr>)"
| "Deliver g p s = None"

fun Close :: "nat \<Rightarrow> pc \<Rightarrow> queue_source \<Rightarrow> stmt" where
  "Close g C_lock s = lock g C_check s"
| "Close g C_check s = Some (Internal, (if qs_closed s then C_unlock else C_set), s)"
| "Close g C_set s = Some (Internal, C_close, s\<lparr>qs_closed := True\<rparr>)"
| "Close g C_close s =
     (case chan_close (qs_ch s) of
        Proceeds c \<Rightarrow> Some (Internal, C_unlock, s\<lparr>qs_ch := c\<rparr>)
      | Blocks \<Rightarrow> None
      | Panics \<Rightarrow> Some (Panic, Crashed, s))"
| "Close g C_unlock s = Some (CloseReturns, Idle, s\<lparr>qs_mu := None\<rparr>)"
| "Close g p s = None"

text \<open>
  The \<open>select\<close> of \<open>Next\<close>: the cases that are ready, of which Go takes any. \<open>ctxs c\<close> is the error
  of context \<open>c\<close> once it is done.
\<close>

fun Next_select :: "(nat \<Rightarrow> string option) \<Rightarrow> pc \<Rightarrow> queue_source \<Rightarrow> (act \<times> pc \<times> queue_source) list" where
  "Next_select ctxs (N_select c) s =
     (case chan_recv (qs_ch s) of
        Proceeds (Some ev, ch) \<Rightarrow> [(NextReturns (Inr ev), Idle, s\<lparr>qs_ch := ch\<rparr>)]
      | Proceeds (None, ch) \<Rightarrow> [(NextReturns (Inl ErrNoMoreEvents), Idle, s\<lparr>qs_ch := ch\<rparr>)]
      | _ \<Rightarrow> [])
     @ (case ctxs c of
          Some m \<Rightarrow> [(NextReturns (Inl (Wrapped (ErrContextDone m) ''next: context done'')), Idle, s)]
        | None \<Rightarrow> [])"
| "Next_select ctxs p s = []"

text \<open>The methods of the WebSocket source are, statement for statement, the same.\<close>

definition ws_Deliver :: "nat \<Rightarrow> pc \<Rightarrow> queue_source \<Rightarrow> stmt" where
  "ws_Deliver = Deliver"

definition ws_Close :: "nat \<Rightarrow> pc \<Rightarrow> queue_source \<Rightarrow> stmt" where
  "ws_Close = Close"

definition ws_Next_select ::
    "(nat \<Rightarrow> string option) \<Rightarrow> pc \<Rightarrow> queue_source \<Rightarrow> (act \<times> pc \<times> queue_source) list" where
  "ws_Next_select = Next_select"

section \<open>The system\<close>

record qsys =
  sy_src :: queue_source
  sy_pc :: "nat \<Rightarrow> pc"
  sy_ctx :: "nat \<Rightarrow> string option"

definition qsystem :: "queue_source \<Rightarrow> qsys" where
  "qsystem s = \<lparr>sy_src = s, sy_pc = (\<lambda>_. Idle), sy_ctx = (\<lambda>_. None)\<rparr>"

abbreviation goto :: "nat \<Rightarrow> pc \<Rightarrow> queue_source \<Rightarrow> qsys \<Rightarrow> qsys" where
  "goto g p s y \<equiv> y\<lparr>sy_src := s, sy_pc := (sy_pc y)(g := p)\<rparr>"

text \<open>A step inside a call, and a step of any kind: the environment calls methods and cancels contexts.\<close>

inductive istep :: "qsys \<Rightarrow> nat \<Rightarrow> act \<Rightarrow> qsys \<Rightarrow> bool" where
  in_Deliver: "Deliver g (sy_pc y g) (sy_src y) = Some (a, p, s) \<Longrightarrow> istep y g a (goto g p s y)"
| in_Close: "Close g (sy_pc y g) (sy_src y) = Some (a, p, s) \<Longrightarrow> istep y g a (goto g p s y)"
| in_Next: "(a, p, s) \<in> set (Next_select (sy_ctx y) (sy_pc y g) (sy_src y)) \<Longrightarrow> istep y g a (goto g p s y)"

inductive qstep :: "qsys \<Rightarrow> nat \<Rightarrow> act \<Rightarrow> qsys \<Rightarrow> bool" where
  call_Deliver: "sy_pc y g = Idle \<Longrightarrow> qstep y g (CallDeliver ev) (y\<lparr>sy_pc := (sy_pc y)(g := D_lock ev)\<rparr>)"
| call_Close: "sy_pc y g = Idle \<Longrightarrow> qstep y g CallClose (y\<lparr>sy_pc := (sy_pc y)(g := C_lock)\<rparr>)"
| call_Next: "sy_pc y g = Idle \<Longrightarrow> qstep y g (CallNext c) (y\<lparr>sy_pc := (sy_pc y)(g := N_select c)\<rparr>)"
| cancel: "sy_ctx y c = None \<Longrightarrow> qstep y g (Cancel c m) (y\<lparr>sy_ctx := (sy_ctx y)(c := Some m)\<rparr>)"
| inside: "istep y g a y' \<Longrightarrow> qstep y g a y'"

inductive runs :: "qsys \<Rightarrow> (nat \<times> act) list \<Rightarrow> qsys \<Rightarrow> bool" where
  runs_Nil: "runs y [] y"
| runs_snoc: "\<lbrakk>runs y tr y'; qstep y' g a y''\<rbrakk> \<Longrightarrow> runs y (tr @ [(g, a)]) y''"

fun act_accepted :: "act \<Rightarrow> event list" where
  "act_accepted (Accepted ev) = [ev]"
| "act_accepted a = []"

fun act_taken :: "act \<Rightarrow> event list" where
  "act_taken (NextReturns (Inr ev)) = [ev]"
| "act_taken a = []"

definition accepted :: "(nat \<times> act) list \<Rightarrow> event list" where
  "accepted tr = concat (map (act_accepted \<circ> snd) tr)"

definition taken :: "(nat \<times> act) list \<Rightarrow> event list" where
  "taken tr = concat (map (act_taken \<circ> snd) tr)"

abbreviation buffered :: "qsys \<Rightarrow> event list" where
  "buffered y \<equiv> ch_buf (qs_ch (sy_src y))"

lemma accepted_simps [simp]: "accepted [] = []" "accepted (tr @ tr') = accepted tr @ accepted tr'"
    "accepted [(g, a)] = act_accepted a"
  by (simp_all add: accepted_def)

lemma taken_simps [simp]: "taken [] = []" "taken (tr @ tr') = taken tr @ taken tr'"
    "taken [(g, a)] = act_taken a"
  by (simp_all add: taken_def)


section \<open>The invariant\<close>

fun_cases Deliver_SomeE: "Deliver g p s = Some r"
fun_cases Close_SomeE: "Close g p s = Some r"

fun holds :: "pc \<Rightarrow> bool" where
  "holds (D_check ev) = True" | "holds (D_send ev) = True" | "holds D_unlock = True"
| "holds C_check = True" | "holds C_set = True" | "holds C_close = True" | "holds C_unlock = True"
| "holds p = False"

text \<open>What a goroutine knows of the flag and of the channel at each statement.\<close>

fun pc_ok :: "pc \<Rightarrow> bool \<Rightarrow> bool \<Rightarrow> bool" where
  "pc_ok (D_check ev) cl chc \<longleftrightarrow> chc = cl"
| "pc_ok (D_send ev) cl chc \<longleftrightarrow> \<not> cl \<and> \<not> chc"
| "pc_ok D_unlock cl chc \<longleftrightarrow> chc = cl"
| "pc_ok C_check cl chc \<longleftrightarrow> chc = cl"
| "pc_ok C_set cl chc \<longleftrightarrow> \<not> cl \<and> \<not> chc"
| "pc_ok C_close cl chc \<longleftrightarrow> cl \<and> \<not> chc"
| "pc_ok C_unlock cl chc \<longleftrightarrow> cl \<and> chc"
| "pc_ok Crashed cl chc \<longleftrightarrow> False"
| "pc_ok p cl chc \<longleftrightarrow> True"

definition src_ok :: "nat \<Rightarrow> queue_source \<Rightarrow> bool" where
  "src_ok n s \<longleftrightarrow> (qs_mu s = None \<longrightarrow> qs_closed s = ch_closed (qs_ch s))
     \<and> ch_cap (qs_ch s) = n \<and> length (ch_buf (qs_ch s)) \<le> n"

definition pcs_ok :: "queue_source \<Rightarrow> (nat \<Rightarrow> pc) \<Rightarrow> bool" where
  "pcs_ok s pcs \<longleftrightarrow> (\<forall>g. (holds (pcs g) \<longleftrightarrow> qs_mu s = Some g)
     \<and> pc_ok (pcs g) (qs_closed s) (ch_closed (qs_ch s)))"

definition acts_ok :: "queue_source \<Rightarrow> (nat \<times> act) list \<Rightarrow> bool" where
  "acts_ok s tr \<longleftrightarrow> taken tr @ ch_buf (qs_ch s) = accepted tr \<and> Panic \<notin> snd ` set tr
     \<and> (NextReturns (Inl ErrNoMoreEvents) \<in> snd ` set tr \<longrightarrow> ch_closed (qs_ch s) \<and> ch_buf (qs_ch s) = [])
     \<and> (CloseReturns \<in> snd ` set tr \<longrightarrow> ch_closed (qs_ch s))"

definition qinv :: "nat \<Rightarrow> (nat \<times> act) list \<Rightarrow> qsys \<Rightarrow> bool" where
  "qinv n tr y \<longleftrightarrow> src_ok n (sy_src y) \<and> pcs_ok (sy_src y) (sy_pc y) \<and> acts_ok (sy_src y) tr"

lemma pc_ok_idle: "\<lbrakk>\<not> holds q; pc_ok q b' c'\<rbrakk> \<Longrightarrow> pc_ok q b c"
  by (cases q) simp_all

lemma pcs_ok_upd:
  assumes "pcs_ok s pcs"
    and "pc_ok p (qs_closed s') (ch_closed (qs_ch s'))" and "holds p \<longleftrightarrow> qs_mu s' = Some g"
    and others: "\<And>g'. \<lbrakk>g' \<noteq> g; holds (pcs g') \<longleftrightarrow> qs_mu s = Some g'\<rbrakk> \<Longrightarrow> (holds (pcs g') \<longleftrightarrow> qs_mu s' = Some g')
       \<and> (holds (pcs g') \<longrightarrow> qs_closed s' = qs_closed s \<and> ch_closed (qs_ch s') = ch_closed (qs_ch s))"
  shows "pcs_ok s' (pcs(g := p))"
  unfolding pcs_ok_def
proof
  fix g'
  show "(holds ((pcs(g := p)) g') \<longleftrightarrow> qs_mu s' = Some g') \<and> pc_ok ((pcs(g := p)) g') (qs_closed s') (ch_closed (qs_ch s'))"
  proof (cases "g' = g")
    case False
    have "holds (pcs g') \<longleftrightarrow> qs_mu s = Some g'" and ok: "pc_ok (pcs g') (qs_closed s) (ch_closed (qs_ch s))"
      using assms(1) by (simp_all add: pcs_ok_def)
    with others [OF False] False show ?thesis
      by (cases "holds (pcs g')") (auto intro: pc_ok_idle)
  qed (use assms(2,3) in simp)
qed

text \<open>A goroutine moves while it holds the mutex; takes the mutex; or does neither.\<close>

lemma pcs_ok_holder:
  assumes "pcs_ok s pcs" "qs_mu s = Some g" "qs_mu s' = None \<or> qs_mu s' = Some g"
    and "pc_ok p (qs_closed s') (ch_closed (qs_ch s'))" and "holds p \<longleftrightarrow> qs_mu s' = Some g"
  shows "pcs_ok s' (pcs(g := p))"
  using assms by (intro pcs_ok_upd [OF assms(1,4,5)]) auto

lemma pcs_ok_other:
  assumes "pcs_ok s pcs" "qs_mu s = None \<or> \<not> holds p" "qs_mu s' = (if holds p then Some g else qs_mu s)"
    and "qs_closed s' = qs_closed s" "ch_closed (qs_ch s') = ch_closed (qs_ch s)" "\<not> holds (pcs g)"
    and "pc_ok p (qs_closed s') (ch_closed (qs_ch s'))"
  shows "pcs_ok s' (pcs(g := p))"
proof (rule pcs_ok_upd [OF assms(1,7)])
  have "holds (pcs g) \<longleftrightarrow> qs_mu s = Some g" using assms(1) by (simp add: pcs_ok_def)
  with assms(2,3,6) show "holds p \<longleftrightarrow> qs_mu s' = Some g" by (auto split: if_splits)
qed (use assms(2-5) in \<open>auto split: if_splits\<close>)

text \<open>What one statement does to the source and to the trace.\<close>

definition moves_ok :: "nat \<Rightarrow> nat \<Rightarrow> (nat \<times> act) list \<Rightarrow> queue_source \<Rightarrow> act \<Rightarrow> pc \<Rightarrow> queue_source \<Rightarrow> bool" where
  "moves_ok n g tr s a p' s' \<longleftrightarrow> src_ok n s' \<and> acts_ok s' (tr @ [(g, a)])
     \<and> pc_ok p' (qs_closed s') (ch_closed (qs_ch s'))
     \<and> (if qs_mu s = Some g then (qs_mu s' = None \<or> qs_mu s' = Some g) \<and> (holds p' \<longleftrightarrow> qs_mu s' = Some g)
        else (qs_mu s = None \<or> \<not> holds p') \<and> qs_mu s' = (if holds p' then Some g else qs_mu s)
          \<and> qs_closed s' = qs_closed s \<and> ch_closed (qs_ch s') = ch_closed (qs_ch s))"

lemma moves_okD:
  assumes "moves_ok n g tr s a p' s'" "pcs_ok s pcs"
  shows "src_ok n s' \<and> acts_ok s' (tr @ [(g, a)]) \<and> pcs_ok s' (pcs(g := p'))"
proof (cases "qs_mu s = Some g")
  case True
  with assms(1) show ?thesis by (auto simp: moves_ok_def intro!: pcs_ok_holder [OF assms(2)])
next
  case False
  with assms show ?thesis
    by (auto simp: moves_ok_def pcs_ok_def [of s] intro!: pcs_ok_other [OF assms(2)])
qed

lemma Deliver_ok:
  assumes "Deliver g p s = Some (a, p', s')" "holds p \<longleftrightarrow> qs_mu s = Some g"
    "pc_ok p (qs_closed s) (ch_closed (qs_ch s))" "src_ok n s" "acts_ok s tr"
  shows "moves_ok n g tr s a p' s'"
  using assms
  by (cases p)
    (auto simp: moves_ok_def lock_def chan_send_def src_ok_def acts_ok_def split: if_splits)

lemma Close_ok:
  assumes "Close g p s = Some (a, p', s')" "holds p \<longleftrightarrow> qs_mu s = Some g"
    "pc_ok p (qs_closed s) (ch_closed (qs_ch s))" "src_ok n s" "acts_ok s tr"
  shows "moves_ok n g tr s a p' s'"
  using assms
  by (cases p)
    (auto simp: moves_ok_def lock_def chan_close_def src_ok_def acts_ok_def split: if_splits)

lemma Next_ok:
  assumes "(a, p', s') \<in> set (Next_select ctxs p s)" "holds p \<longleftrightarrow> qs_mu s = Some g"
    "src_ok n s" "acts_ok s tr"
  shows "moves_ok n g tr s a p' s'"
  using assms
  by (cases p)
    (auto simp: moves_ok_def chan_recv_def src_ok_def acts_ok_def split: list.splits option.splits if_splits)

lemma qinv_istep:
  assumes "qinv n tr y" "istep y g a y'"
  shows "qinv n (tr @ [(g, a)]) y'"
proof -
  have me: "holds (sy_pc y g) \<longleftrightarrow> qs_mu (sy_src y) = Some g"
    "pc_ok (sy_pc y g) (qs_closed (sy_src y)) (ch_closed (qs_ch (sy_src y)))"
    and ok: "src_ok n (sy_src y)" "acts_ok (sy_src y) tr" "pcs_ok (sy_src y) (sy_pc y)"
    using assms(1) by (simp_all add: qinv_def pcs_ok_def)
  from assms(2) obtain p s where y': "y' = goto g p s y" and "moves_ok n g tr (sy_src y) a p s"
    by cases (auto intro: Deliver_ok [OF _ me ok(1,2)] Close_ok [OF _ me ok(1,2)] Next_ok [OF _ me(1) ok(1,2)])
  from moves_okD [OF this(2) ok(3)] show ?thesis by (simp add: y' qinv_def)
qed

lemma qinv_call:
  assumes "qinv n tr y" "sy_pc y g = Idle" "p \<in> {C_lock} \<union> range D_lock \<union> range N_select"
    and "a \<in> {CallClose} \<union> range CallDeliver \<union> range CallNext"
  shows "qinv n (tr @ [(g, a)]) (y\<lparr>sy_pc := (sy_pc y)(g := p)\<rparr>)"
proof -
  have "pcs_ok (sy_src y) (sy_pc y)" using assms(1) by (simp add: qinv_def)
  moreover have "\<not> holds p" "pc_ok p b c" for b c using assms(3) by auto
  ultimately have "pcs_ok (sy_src y) ((sy_pc y)(g := p))"
    using assms(2) by (intro pcs_ok_other) simp_all
  moreover have "acts_ok (sy_src y) (tr @ [(g, a)])"
    using assms(1,4) by (auto simp: qinv_def acts_ok_def)
  ultimately show ?thesis using assms(1) by (simp add: qinv_def)
qed

lemma qinv_qstep:
  assumes "qinv n tr y" "qstep y g a y'"
  shows "qinv n (tr @ [(g, a)]) y'"
  using assms(2)
proof cases
  case inside
  then show ?thesis by (rule qinv_istep [OF assms(1)])
next
  case (cancel c m)
  with assms(1) show ?thesis by (simp add: qinv_def acts_ok_def)
qed (auto intro: qinv_call [OF assms(1)])

lemma qinv_system: "qinv (ch_cap (qs_ch s)) [] (qsystem s)"
  if "qs_mu s = None" "ch_buf (qs_ch s) = []" "qs_closed s = ch_closed (qs_ch s)"
  using that by (simp add: qinv_def qsystem_def src_ok_def pcs_ok_def acts_ok_def)

lemma qinv_runs: "\<lbrakk>runs y tr y'; qinv n tr0 y\<rbrakk> \<Longrightarrow> qinv n (tr0 @ tr) y'"
proof (induction rule: runs.induct)
  case (runs_snoc y tr y' g a y'')
  from qinv_qstep [OF runs_snoc.IH [OF runs_snoc.prems] runs_snoc.hyps(2)] show ?case by simp
qed simp


section \<open>Running a trace\<close>

lemma runs_trans: "\<lbrakk>runs y' tr' y''; runs y tr y'\<rbrakk> \<Longrightarrow> runs y (tr @ tr') y''"
proof (induction rule: runs.induct)
  case (runs_snoc y0 tr0 y1 g a y2)
  from runs.runs_snoc [OF runs_snoc.IH [OF runs_snoc.prems] runs_snoc.hyps(2)] show ?case by simp
qed simp

text \<open>A trace determines its run, since a goroutine does one thing or the other.\<close>

definition istmts :: "qsys \<Rightarrow> nat \<Rightarrow> (act \<times> pc \<times> queue_source) list" where
  "istmts y g =
     (case Deliver g (sy_pc y g) (sy_src y) of Some r \<Rightarrow> [r] | None \<Rightarrow> [])
     @ (case Close g (sy_pc y g) (sy_src y) of Some r \<Rightarrow> [r] | None \<Rightarrow> [])
     @ Next_select (sy_ctx y) (sy_pc y g) (sy_src y)"

fun replay_step :: "nat \<Rightarrow> act \<Rightarrow> qsys \<Rightarrow> qsys option" where
  "replay_step g (CallDeliver ev) y =
     (if sy_pc y g = Idle then Some (y\<lparr>sy_pc := (sy_pc y)(g := D_lock ev)\<rparr>) else None)"
| "replay_step g CallClose y = (if sy_pc y g = Idle then Some (y\<lparr>sy_pc := (sy_pc y)(g := C_lock)\<rparr>) else None)"
| "replay_step g (CallNext c) y =
     (if sy_pc y g = Idle then Some (y\<lparr>sy_pc := (sy_pc y)(g := N_select c)\<rparr>) else None)"
| "replay_step g (Cancel c m) y =
     (if sy_ctx y c = None then Some (y\<lparr>sy_ctx := (sy_ctx y)(c := Some m)\<rparr>) else None)"
| "replay_step g a y = map_option (\<lambda>(p, s). goto g p s y) (map_of (istmts y g) a)"

fun replay :: "(nat \<times> act) list \<Rightarrow> qsys \<Rightarrow> qsys option" where
  "replay [] y = Some y"
| "replay ((g, a) # tr) y = Option.bind (replay_step g a y) (replay tr)"

lemma istmts_istep: "(a, p, s) \<in> set (istmts y g) \<Longrightarrow> istep y g a (goto g p s y)"
  by (auto simp: istmts_def intro: istep.intros split: option.splits)

lemma replay_step_sound: "replay_step g a y = Some y' \<Longrightarrow> qstep y g a y'"
proof -
  have *: "qstep y g a (goto g p s y)" if "map_of (istmts y g) a = Some (p, s)" for a p s
    using map_of_SomeD [OF that] by (auto intro: inside istmts_istep)
  show "replay_step g a y = Some y' \<Longrightarrow> qstep y g a y'"
    by (cases a) (auto intro: qstep.intros * split: if_splits)
qed

lemma replay_sound: "replay tr y = Some y' \<Longrightarrow> runs y tr y'"
proof (induction tr arbitrary: y)
  case (Cons ga tr)
  obtain g a where ga: "ga = (g, a)" by force
  with Cons.prems obtain y1 where y1: "replay_step g a y = Some y1" "replay tr y1 = Some y'"
    by (auto simp: bind_eq_Some_conv)
  have "runs y [(g, a)] y1" using runs_snoc [OF runs_Nil replay_step_sound [OF y1(1)]] by simp
  from runs_trans [OF Cons.IH [OF y1(2)] this] show ?case by (simp add: ga)
qed (simp add: runs_Nil)

section \<open>Order, capacity, no panic\<close>

lemma queue_run:
  assumes "s0 = nats_NewSource \<or> s0 = ws_NewSource" "runs (qsystem s0) tr y"
  shows "qinv 64 tr y"
  using assms qinv_runs [OF assms(2), of 64 "[]"] qinv_system [of s0]
  by (auto simp: nats_NewSource_def ws_NewSource_def make_chan_def nats_sourceBufferSize_def ws_sourceBufferSize_def)

text \<open>
  C3. However deliverers, closers and readers interleave, the events readers have got followed by
  those still in the channel are the accepted events in order: none is lost, duplicated or
  overtaken. The channel never exceeds its buffer, and no goroutine panics by sending on, or
  closing, a closed channel.
\<close>

theorem queue_fifo:
  assumes "s0 = nats_NewSource \<or> s0 = ws_NewSource" "runs (qsystem s0) tr y"
  shows "taken tr @ buffered y = accepted tr \<and> length (buffered y) \<le> 64 \<and> Panic \<notin> snd ` set tr"
  using queue_run [OF assms] by (simp add: qinv_def src_ok_def acts_ok_def)

text \<open>Once the channel is closed nothing enters it.\<close>

lemma closed_qstep:
  assumes "qinv n tr y" "qstep y g a y'" "ch_closed (qs_ch (sy_src y))"
  shows "act_accepted a = [] \<and> ch_closed (qs_ch (sy_src y'))"
proof -
  have ok: "pc_ok (sy_pc y g) (qs_closed (sy_src y)) (ch_closed (qs_ch (sy_src y)))"
    using assms(1) by (simp add: qinv_def pcs_ok_def)
  from assms(2) show ?thesis
  proof cases
    case inside
    from this assms(3) ok show ?thesis
    proof cases
      case (in_Deliver p s)
      with assms(3) ok show ?thesis by (cases "sy_pc y g") (auto simp: lock_def chan_send_def split: if_splits)
    next
      case (in_Close p s)
      with assms(3) ok show ?thesis by (cases "sy_pc y g") (auto simp: lock_def chan_close_def split: if_splits)
    next
      case (in_Next p s)
      with assms(3) show ?thesis
        by (cases "sy_pc y g") (auto simp: chan_recv_def split: list.splits option.splits)
    qed
  qed (use assms(3) in auto)
qed

lemma closed_runs:
  "\<lbrakk>runs y tr' y'; qinv n tr y; ch_closed (qs_ch (sy_src y))\<rbrakk>
    \<Longrightarrow> accepted tr' = [] \<and> ch_closed (qs_ch (sy_src y'))"
proof (induction rule: runs.induct)
  case (runs_snoc y tr' y' g a y'')
  from closed_qstep [OF qinv_runs [OF runs_snoc.hyps(1) runs_snoc.prems(1)] runs_snoc.hyps(2)]
    runs_snoc.IH [OF runs_snoc.prems] show ?case by simp
qed simp

text \<open>
  C11. After a \<open>Close\<close> has returned nothing more is accepted, whatever is called afterwards, and
  once a later \<open>Next\<close> has answered \<open>ErrNoMoreEvents\<close>, every event accepted before has been
  handed out.
\<close>

theorem closed_queue_is_drained:
  assumes "s0 = nats_NewSource \<or> s0 = ws_NewSource" "runs (qsystem s0) tr y"
    and "CloseReturns \<in> snd ` set tr" "runs y tr' y'"
  shows "accepted tr' = []
    \<and> (NextReturns (Inl ErrNoMoreEvents) \<in> snd ` set tr' \<longrightarrow> taken (tr @ tr') = accepted tr)"
proof -
  note inv = queue_run [OF assms(1,2)]
  have "ch_closed (qs_ch (sy_src y))" using inv assms(3) by (simp add: qinv_def acts_ok_def)
  from closed_runs [OF assms(4) inv this] have "accepted tr' = []" by simp
  moreover have "qinv 64 (tr @ tr') y'" by (rule qinv_runs [OF assms(4) inv])
  ultimately show ?thesis by (auto simp: qinv_def acts_ok_def image_Un)
qed

section \<open>Progress\<close>

fun weight :: "pc \<Rightarrow> nat" where
  "weight (D_lock ev) = 4" | "weight (D_check ev) = 3" | "weight (D_send ev) = 2" | "weight D_unlock = 1"
| "weight C_lock = 5" | "weight C_check = 4" | "weight C_set = 3" | "weight C_close = 2" | "weight C_unlock = 1"
| "weight (N_select c) = 1"
| "weight p = 0"

definition active :: "qsys \<Rightarrow> nat set" where
  "active y = {g. sy_pc y g \<noteq> Idle}"

definition work :: "qsys \<Rightarrow> nat" where
  "work y = (\<Sum>g\<in>active y. weight (sy_pc y g))"

lemma istep_pc:
  assumes "istep y g a y'"
  obtains p s where "y' = goto g p s y" "weight p < weight (sy_pc y g)" "sy_pc y g \<noteq> Idle"
  using assms
proof cases
  case (in_Deliver p s)
  then show thesis
    by (intro that [of p s]) (cases "sy_pc y g"; auto simp: lock_def split: if_splits outcome.splits)+
next
  case (in_Close p s)
  then show thesis
    by (intro that [of p s]) (cases "sy_pc y g"; auto simp: lock_def split: if_splits outcome.splits)+
next
  case (in_Next p s)
  then show thesis
    by (intro that [of p s]) (cases "sy_pc y g"; auto split: option.splits outcome.splits)+
qed

lemma istep_work:
  assumes "istep y g a y'" "finite (active y)"
  shows "work y' < work y \<and> finite (active y')"
proof -
  obtain p s where y': "y' = goto g p s y" "weight p < weight (sy_pc y g)" "sy_pc y g \<noteq> Idle"
    using istep_pc [OF assms(1)] by blast
  have sub: "active y' \<subseteq> active y" using y' by (auto simp: active_def)
  have "work y' = (\<Sum>h\<in>active y. weight (sy_pc y' h))"
    unfolding work_def using assms(2) sub by (intro sum.mono_neutral_left) (auto simp: active_def)
  also have "\<dots> < work y"
    unfolding work_def using y' assms(2) by (intro sum_strict_mono_ex1) (auto simp: active_def)
  finally show ?thesis using sub assms(2) finite_subset by blast
qed


lemma finite_active_runs: "\<lbrakk>runs y tr y'; finite (active y)\<rbrakk> \<Longrightarrow> finite (active y')"
proof (induction rule: runs.induct)
  case (runs_snoc y tr y' g a y'')
  have fin: "finite (active y')" using runs_snoc by blast
  from runs_snoc.hyps(2) show ?case
  proof cases
    case inside
    with istep_work fin show ?thesis by blast
  qed (use fin in \<open>auto simp: active_def intro: finite_subset [of _ "insert g (active y')"]\<close>)
qed

text \<open>The actions of the environment; a run without them is the goroutines finishing their calls.\<close>

fun env_act :: "act \<Rightarrow> bool" where
  "env_act (CallDeliver ev) = True" | "env_act CallClose = True" | "env_act (CallNext c) = True"
| "env_act (Cancel c m) = True" | "env_act a = False"

lemma qstep_inside: "\<lbrakk>qstep y g a y'; \<not> env_act a\<rbrakk> \<Longrightarrow> istep y g a y'"
  by (cases rule: qstep.cases) auto

lemma iruns_bounded:
  "\<lbrakk>runs y tr y'; finite (active y); list_all (\<lambda>(g, a). \<not> env_act a) tr\<rbrakk>
    \<Longrightarrow> length tr + work y' \<le> work y"
proof (induction rule: runs.induct)
  case (runs_snoc y tr y' g a y'')
  have "istep y' g a y''" using runs_snoc by (auto intro: qstep_inside)
  from istep_work [OF this finite_active_runs [OF runs_snoc.hyps(1) runs_snoc.prems(1)]]
  show ?case using runs_snoc by simp
qed simp

definition stuck :: "qsys \<Rightarrow> bool" where
  "stuck y \<longleftrightarrow> (\<forall>g a y'. \<not> istep y g a y')"

fun reading :: "pc \<Rightarrow> bool" where
  "reading (N_select c) = True" | "reading p = False"

fun wants_room :: "pc \<Rightarrow> bool" where
  "wants_room (D_lock ev) = True" | "wants_room (D_send ev) = True" | "wants_room C_lock = True"
| "wants_room p = False"

text \<open>Where each goroutine of a system that cannot move stands.\<close>

definition blocked_at :: "qsys \<Rightarrow> pc \<Rightarrow> bool" where
  "blocked_at y p \<longleftrightarrow>
     p = Idle
   \<or> (\<exists>c. p = N_select c \<and> sy_ctx y c = None) \<and> buffered y = [] \<and> \<not> qs_closed (sy_src y)
   \<or> wants_room p \<and> length (buffered y) = ch_cap (qs_ch (sy_src y))"

lemma stuck_goroutine:
  assumes "qinv n tr y" "stuck y"
  shows "Deliver g (sy_pc y g) (sy_src y) = None" "Close g (sy_pc y g) (sy_src y) = None"
    "Next_select (sy_ctx y) (sy_pc y g) (sy_src y) = []"
  using assms(2) unfolding stuck_def
  by (metis in_Deliver not_None_eq prod_cases3, metis in_Close not_None_eq prod_cases3,
      metis in_Next last_in_set prod_cases3)

lemma stuck_holder:
  assumes "qinv n tr y" "stuck y" "qs_mu (sy_src y) = Some h"
  shows "length (buffered y) = ch_cap (qs_ch (sy_src y))"
proof -
  have "holds (sy_pc y h)" "pc_ok (sy_pc y h) (qs_closed (sy_src y)) (ch_closed (qs_ch (sy_src y)))"
    "length (buffered y) \<le> ch_cap (qs_ch (sy_src y))"
    using assms(1,3) by (simp_all add: qinv_def pcs_ok_def src_ok_def)
  with stuck_goroutine [OF assms(1,2), of h] show ?thesis
    by (cases "sy_pc y h") (auto simp: chan_send_def chan_close_def split: if_splits)
qed

lemma stuck_blocked:
  assumes "qinv n tr y" "stuck y" "0 < n"
  shows "blocked_at y (sy_pc y g)"
proof -
  have me: "holds (sy_pc y g) \<longrightarrow> qs_mu (sy_src y) = Some g"
    "pc_ok (sy_pc y g) (qs_closed (sy_src y)) (ch_closed (qs_ch (sy_src y)))"
    and src: "src_ok n (sy_src y)"
    using assms(1) by (simp_all add: qinv_def pcs_ok_def)
  note mine = stuck_goroutine [OF assms(1,2), of g]
  show ?thesis
  proof (cases "qs_mu (sy_src y)")
    case None
    with me mine src show ?thesis
      by (cases "sy_pc y g")
        (auto simp: blocked_at_def lock_def src_ok_def chan_recv_def split: list.splits if_splits option.splits)
  next
    case (Some h)
    have full: "length (buffered y) = ch_cap (qs_ch (sy_src y))" by (rule stuck_holder [OF assms(1,2) Some])
    moreover have "buffered y \<noteq> []" using full assms(3) src by (auto simp: src_ok_def)
    ultimately show ?thesis using me mine
      by (cases "sy_pc y g")
        (auto simp: blocked_at_def chan_close_def chan_recv_def split: list.splits if_splits)
  qed
qed

lemma comes_to_rest:
  "finite (active y) \<Longrightarrow> \<exists>tr' y'. runs y tr' y' \<and> list_all (\<lambda>(g, a). \<not> env_act a) tr' \<and> stuck y'"
proof (induction "work y" arbitrary: y rule: less_induct)
  case less
  show ?case
  proof (cases "stuck y")
    case True
    with runs_Nil [of y] show ?thesis by (intro exI [of _ "[]"]) auto
  next
    case False
    then obtain g a y1 where st: "istep y g a y1" by (auto simp: stuck_def)
    obtain tr' y' where r: "runs y1 tr' y'" "list_all (\<lambda>(g, a). \<not> env_act a) tr'" "stuck y'"
      using less.hyps istep_work [OF st less.prems] by blast
    have "runs y [(g, a)] y1" using runs_snoc [OF runs_Nil inside [OF st]] by simp
    moreover have "\<not> env_act a"
      using st
    proof cases
      case (in_Deliver p s)
      then show ?thesis by (cases "sy_pc y g") (auto simp: lock_def split: if_splits outcome.splits)
    next
      case (in_Close p s)
      then show ?thesis by (cases "sy_pc y g") (auto simp: lock_def split: if_splits outcome.splits)
    next
      case (in_Next p s)
      then show ?thesis by (cases "sy_pc y g") (auto split: option.splits outcome.splits)
    qed
    ultimately show ?thesis
      using runs_trans [OF r(1), of y "[(g, a)]"] r(2,3) by (intro exI [of _ "[(g, a)] @ tr'"] exI [of _ y']) simp
  qed
qed

text \<open>
  C4. Left alone, the goroutines inside calls come to rest after at most \<open>work\<close> statements,
  and then every call has returned, except a \<open>Next\<close> of an empty open queue whose context is
  alive, and a \<open>Deliver\<close> or \<open>Close\<close> that waits for room in a full channel.
\<close>

theorem queue_calls_finish:
  assumes "s0 = nats_NewSource \<or> s0 = ws_NewSource" "runs (qsystem s0) tr y"
  shows "(\<forall>tr' y'. runs y tr' y' \<and> list_all (\<lambda>(g, a). \<not> env_act a) tr'
            \<longrightarrow> length tr' \<le> work y \<and> (stuck y' \<longrightarrow> (\<forall>g. blocked_at y' (sy_pc y' g))))
    \<and> (\<exists>tr' y'. runs y tr' y' \<and> list_all (\<lambda>(g, a). \<not> env_act a) tr' \<and> stuck y')"
proof -
  have "finite (active (qsystem s0))" by (simp add: active_def qsystem_def)
  note fin = finite_active_runs [OF assms(2) this]
  have "length tr' \<le> work y \<and> (stuck y' \<longrightarrow> (\<forall>g. blocked_at y' (sy_pc y' g)))"
    if r: "runs y tr' y'" "list_all (\<lambda>(g, a). \<not> env_act a) tr'" for tr' y'
    using iruns_bounded [OF r(1) fin r(2)] stuck_blocked [OF qinv_runs [OF r(1) queue_run [OF assms]]] by auto
  with comes_to_rest [OF fin] show ?thesis by blast
qed

section \<open>A full queue without a reader\<close>

text \<open>One undisturbed call of \<open>Deliver\<close>, and many of them.\<close>

lemma deliver_one:
  assumes "sy_pc y g = Idle" "qs_mu (sy_src y) = None" "\<not> qs_closed (sy_src y)" "\<not> ch_closed (qs_ch (sy_src y))"
    and "length (buffered y) < ch_cap (qs_ch (sy_src y))"
  shows "runs y [(g, CallDeliver ev), (g, Internal), (g, Internal), (g, Accepted ev), (g, DeliverReturns)]
    (y\<lparr>sy_src := (sy_src y)\<lparr>qs_ch := (qs_ch (sy_src y))\<lparr>ch_buf := buffered y @ [ev]\<rparr>\<rparr>\<rparr>)"
    (is "runs y ?tr ?y'")
proof -
  let ?s = "sy_src y"
  let ?y1 = "y\<lparr>sy_pc := (sy_pc y)(g := D_lock ev)\<rparr>"
  let ?y2 = "goto g (D_check ev) (?s\<lparr>qs_mu := Some g\<rparr>) ?y1"
  let ?y3 = "goto g (D_send ev) (?s\<lparr>qs_mu := Some g\<rparr>) ?y2"
  let ?s4 = "?s\<lparr>qs_mu := Some g, qs_ch := (qs_ch ?s)\<lparr>ch_buf := buffered y @ [ev]\<rparr>\<rparr>"
  let ?y4 = "goto g D_unlock ?s4 ?y3"
  let ?y5 = "goto g Idle (?s4\<lparr>qs_mu := None\<rparr>) ?y4"
  have r1: "runs y [(g, CallDeliver ev)] ?y1"
    using runs_snoc [OF runs_Nil call_Deliver [of y g ev]] assms(1) by simp
  have r2: "runs y ([(g, CallDeliver ev)] @ [(g, Internal)]) ?y2"
    using assms(2) by (intro runs_snoc [OF r1] inside in_Deliver) (simp add: lock_def)
  have r3: "runs y (([(g, CallDeliver ev)] @ [(g, Internal)]) @ [(g, Internal)]) ?y3"
    using assms(3) by (intro runs_snoc [OF r2] inside in_Deliver) simp
  have r4: "runs y ((([(g, CallDeliver ev)] @ [(g, Internal)]) @ [(g, Internal)]) @ [(g, Accepted ev)]) ?y4"
    using assms(4,5) by (intro runs_snoc [OF r3] inside in_Deliver) (simp add: chan_send_def)
  have r5: "runs y (((([(g, CallDeliver ev)] @ [(g, Internal)]) @ [(g, Internal)]) @ [(g, Accepted ev)])
      @ [(g, DeliverReturns)]) ?y5"
    by (intro runs_snoc [OF r4] inside in_Deliver) simp
  moreover have "?y5 = ?y'"
    using assms(1,2) by (cases y; cases ?s) (auto simp: fun_eq_iff)
  ultimately show ?thesis by simp
qed


lemma deliver_many:
  assumes "sy_pc y g = Idle" "qs_mu (sy_src y) = None" "\<not> qs_closed (sy_src y)" "\<not> ch_closed (qs_ch (sy_src y))"
    and "length (buffered y) + length evs \<le> ch_cap (qs_ch (sy_src y))"
  shows "\<exists>tr. runs y tr (y\<lparr>sy_src := (sy_src y)\<lparr>qs_ch := (qs_ch (sy_src y))\<lparr>ch_buf := buffered y @ evs\<rparr>\<rparr>\<rparr>)"
  using assms
proof (induction evs arbitrary: y)
  case Nil
  have "y\<lparr>sy_src := (sy_src y)\<lparr>qs_ch := (qs_ch (sy_src y))\<lparr>ch_buf := buffered y @ []\<rparr>\<rparr>\<rparr> = y" by simp
  with runs_Nil [of y] show ?case by metis
next
  case (Cons ev evs)
  let ?y1 = "y\<lparr>sy_src := (sy_src y)\<lparr>qs_ch := (qs_ch (sy_src y))\<lparr>ch_buf := buffered y @ [ev]\<rparr>\<rparr>\<rparr>"
  from Cons.prems obtain tr1 where r1: "runs y tr1 ?y1" using deliver_one [of y g ev] by auto
  have "\<exists>tr. runs ?y1 tr (?y1\<lparr>sy_src := (sy_src ?y1)\<lparr>qs_ch := (qs_ch (sy_src ?y1))\<lparr>ch_buf := buffered ?y1 @ evs\<rparr>\<rparr>\<rparr>)"
    using Cons.prems by (intro Cons.IH) simp_all
  with runs_trans [OF _ r1] show ?case by fastforce
qed

text \<open>A \<open>Deliver\<close> that waits for room holds the mutex, and nobody reads.\<close>

definition jammed :: "nat \<Rightarrow> nat \<Rightarrow> qsys \<Rightarrow> bool" where
  "jammed d c y \<longleftrightarrow> qs_mu (sy_src y) = Some d \<and> (\<exists>ev. sy_pc y d = D_send ev) \<and> sy_pc y c = C_lock
     \<and> length (buffered y) = ch_cap (qs_ch (sy_src y)) \<and> \<not> ch_closed (qs_ch (sy_src y))
     \<and> (\<forall>g. sy_pc y g = Idle \<or> wants_room (sy_pc y g)) \<and> (\<forall>g ev. sy_pc y g = D_send ev \<longrightarrow> g = d)"

lemma jammed_istep: "jammed d c y \<Longrightarrow> \<not> istep y g a y'"
proof
  assume j: "jammed d c y" and "istep y g a y'"
  have p: "sy_pc y g = Idle \<or> wants_room (sy_pc y g)" using j by (simp add: jammed_def)
  from \<open>istep y g a y'\<close> show False
  proof cases
    case (in_Deliver q s)
    with j p show ?thesis
      by (cases "sy_pc y g") (auto simp: jammed_def lock_def chan_send_def)
  next
    case (in_Close q s)
    with j p show ?thesis by (cases "sy_pc y g") (auto simp: jammed_def lock_def)
  next
    case (in_Next q s)
    with p show ?thesis by (cases "sy_pc y g") auto
  qed
qed

lemma jammed_qstep:
  assumes "jammed d c y" "qstep y g a y'" "\<forall>x. a \<noteq> CallNext x"
  shows "jammed d c y'"
  using assms(2)
proof cases
  case inside
  with jammed_istep [OF assms(1)] show ?thesis by blast
qed (use assms(1,3) in \<open>auto simp: jammed_def\<close>)

lemma jammed_runs:
  "\<lbrakk>runs y tr y'; jammed d c y; \<forall>g x. (g, CallNext x) \<notin> set tr\<rbrakk> \<Longrightarrow> jammed d c y'"
proof (induction rule: runs.induct)
  case (runs_snoc y tr y' g a y'')
  then have "jammed d c y'" by simp
  with runs_snoc show ?case by (auto intro: jammed_qstep)
qed

text \<open>
  C35. \<open>Close\<close> does not stop a source whose channel is full and whose reader has left: a
  \<open>Deliver\<close> waiting for room holds the mutex, so neither call returns until somebody calls
  \<open>Next\<close> again.
\<close>

theorem close_waits_for_reader:
  "\<exists>tr y. runs (qsystem nats_NewSource) tr y \<and> (1, CallClose) \<in> set tr
     \<and> (\<forall>tr' y'. runs y tr' y' \<and> (\<forall>g c. (g, CallNext c) \<notin> set tr')
          \<longrightarrow> sy_pc y' 1 = C_lock \<and> (\<exists>ev. sy_pc y' 0 = D_send ev))"
proof -
  fix ev :: event
  define evs where "evs = replicate 64 ev"
  define y0 where "y0 = qsystem nats_NewSource"
  note s = nats_NewSource_def make_chan_def nats_sourceBufferSize_def
  obtain tr1 y1 where r1: "runs y0 tr1 y1" and y1: "sy_pc y1 = (\<lambda>_. Idle)" "qs_mu (sy_src y1) = None"
      "\<not> qs_closed (sy_src y1)" "\<not> ch_closed (qs_ch (sy_src y1))" "length (buffered y1) = ch_cap (qs_ch (sy_src y1))"
    using deliver_many [of y0 0 evs] by (fastforce simp: y0_def qsystem_def s evs_def)
  let ?y2 = "y1\<lparr>sy_pc := (sy_pc y1)(0 := D_lock ev)\<rparr>"
  let ?y3 = "goto 0 (D_check ev) ((sy_src y1)\<lparr>qs_mu := Some 0\<rparr>) ?y2"
  let ?y4 = "goto 0 (D_send ev) ((sy_src y1)\<lparr>qs_mu := Some 0\<rparr>) ?y3"
  let ?y5 = "?y4\<lparr>sy_pc := (sy_pc ?y4)(1 := C_lock)\<rparr>"
  have r2: "runs y0 (tr1 @ [(0, CallDeliver ev)]) ?y2"
    using y1 by (intro runs_snoc [OF r1] call_Deliver) simp
  have r3: "runs y0 ((tr1 @ [(0, CallDeliver ev)]) @ [(0, Internal)]) ?y3"
    using y1 by (intro runs_snoc [OF r2] inside in_Deliver) (simp add: lock_def)
  have r4: "runs y0 (((tr1 @ [(0, CallDeliver ev)]) @ [(0, Internal)]) @ [(0, Internal)]) ?y4"
    using y1 by (intro runs_snoc [OF r3] inside in_Deliver) simp
  have r5: "runs y0 ((((tr1 @ [(0, CallDeliver ev)]) @ [(0, Internal)]) @ [(0, Internal)]) @ [(1, CallClose)]) ?y5"
    using y1 by (intro runs_snoc [OF r4] call_Close) simp
  have j5: "jammed 0 1 ?y5" using y1 by (simp add: jammed_def)
  have stay: "sy_pc y' 1 = C_lock \<and> (\<exists>ev. sy_pc y' 0 = D_send ev)"
    if "jammed 0 1 y" "runs y tr' y'" "\<forall>g c. (g, CallNext c) \<notin> set tr'" for y tr' y'
    using jammed_runs [OF that(2,1,3)] by (simp add: jammed_def)
  obtain tr y where "runs y0 tr y" "(1, CallClose) \<in> set tr" "jammed 0 1 y"
    using r5 j5 by (metis in_set_conv_decomp)
  with stay show ?thesis unfolding y0_def by blast
qed

theorem close_waits_for_reader_witness:
  "\<exists>tr y. runs (qsystem nats_NewSource) tr y \<and> (1, CallClose) \<in> set tr \<and> sy_pc y 1 = C_lock"
proof -
  obtain tr y where "runs (qsystem nats_NewSource) tr y" "(1, CallClose) \<in> set tr"
    and "\<forall>tr' y'. runs y tr' y' \<and> (\<forall>g c. (g, CallNext c) \<notin> set tr')
          \<longrightarrow> sy_pc y' 1 = C_lock \<and> (\<exists>ev. sy_pc y' 0 = D_send ev)"
    using close_waits_for_reader by blast
  with runs_Nil [of y] show ?thesis by (metis empty_iff empty_set)
qed

section \<open>One reader\<close>

text \<open>
  A single goroutine calling \<open>Next\<close> with a context that is never done sees the source as a
  \<open>Source\<close>; a call that has to wait for a delivery is \<open>None\<close>.
\<close>

definition queue_Next :: "queue_source source" where
  "queue_Next s =
     (case Next_select (\<lambda>_. None) (N_select 0) s of
        (NextReturns r, p, s') # rest \<Rightarrow> Some (r, s')
      | _ \<Rightarrow> None)"

interpretation queue: event_source queue_Next "\<lambda>s. ch_buf (qs_ch s)" "\<lambda>s. ch_closed (qs_ch s)"
  by unfold_locales (auto simp: queue_Next_def chan_recv_def)


text \<open>A run with a full life cycle: deliver, close, and what the readers then get.\<close>

definition ping :: event where
  "ping = \<lparr>ev_ID = [], ev_Event = EventTypePing, ev_Data = ''{}''\<rparr>"

definition demo_run :: "(nat \<times> act) list" where
  "demo_run = [(0, CallDeliver ping), (1, CallNext 0), (0, Internal), (2, CallClose), (0, Internal),
     (0, Accepted ping), (0, DeliverReturns), (2, Internal), (2, Internal), (2, Internal), (2, Internal), (2, CloseReturns)]"

definition demo_rest :: "(nat \<times> act) list" where
  "demo_rest = [(1, NextReturns (Inr ping)), (1, CallNext 0), (1, NextReturns (Inl ErrNoMoreEvents))]"

lemmas replay_eval = demo_run_def demo_rest_def istmts_def lock_def chan_send_def chan_recv_def
  chan_close_def qsystem_def nats_NewSource_def nats_sourceBufferSize_def make_chan_def

lemma demo_run: "\<exists>y y'. runs (qsystem nats_NewSource) demo_run y \<and> runs y demo_rest y'
  \<and> buffered y = [ping] \<and> work y = 1"
proof -
  obtain y where y: "replay demo_run (qsystem nats_NewSource) = Some y"
    and src: "buffered y = [ping]" "\<forall>g. sy_pc y g = (if g = 1 then N_select 0 else Idle)"
    by (simp add: replay_eval)
  moreover obtain y' where "replay demo_rest y = Some y'"
    using y by (auto simp: replay_eval)
  moreover have "active y = {1}" using src(2) by (auto simp: active_def)
  ultimately show ?thesis
    using src by (intro exI [of _ y] exI [of _ y']) (simp add: replay_sound work_def)
qed

theorem queue_fifo_witness: "\<exists>y. runs (qsystem nats_NewSource) demo_run y \<and> taken demo_run @ buffered y = [ping]"
proof -
  obtain y where y: "runs (qsystem nats_NewSource) demo_run y" using demo_run by blast
  from queue_fifo [OF _ y] show ?thesis
    using y by (intro exI [of _ y]) (simp add: demo_run_def accepted_def)
qed

theorem closed_queue_is_drained_witness: "accepted demo_rest = [] \<and> taken (demo_run @ demo_rest) = [ping]"
proof -
  obtain y y' where "runs (qsystem nats_NewSource) demo_run y" "runs y demo_rest y'" using demo_run by blast
  from closed_queue_is_drained [OF disjI1 [OF refl] this(1) _ this(2)] show ?thesis
    by (simp add: demo_run_def demo_rest_def accepted_def)
qed

theorem queue_calls_finish_witness:
  "\<exists>y tr' y'. runs (qsystem nats_NewSource) demo_run y \<and> runs y tr' y' \<and> stuck y' \<and> length tr' \<le> 1"
proof -
  obtain y where y: "runs (qsystem nats_NewSource) demo_run y" "work y = 1" using demo_run by blast
  from queue_calls_finish [OF disjI1 [OF refl] y(1)] y show ?thesis by fastforce
qed

end
