(* ===== verification/Message_Sinks.thy ===== *)
theory Message_Sinks
  imports Queue_Source Reassemble
begin

text \<open>
  \<open>nats/sink.go\<close> and \<open>ws/sink.go\<close>: the sinks of the message-oriented transports, over any
  publisher and any connection, and the whole way of a stream from such a sink to the reader of
  a queue source.
\<close>

section \<open>NATS\<close>

text \<open>The interface \<open>Publisher\<close> of \<open>nats/publisher.go\<close> is its one method.\<close>

type_synonym 'w publish_call = "string \<Rightarrow> string \<Rightarrow> 'w \<Rightarrow> goerr option \<times> 'w"

record 'w NatsSink =
  ns_publisher :: "'w publish_call"
  ns_subjectPrefix :: string

definition subjectSeparator :: string where "subjectSeparator = ''.''"

definition nats_NewSink :: "'w publish_call \<Rightarrow> string \<Rightarrow> 'w NatsSink" where
  "nats_NewSink p subjectPrefix = \<lparr>ns_publisher = p, ns_subjectPrefix = subjectPrefix\<rparr>"

definition nats_subject :: "'w NatsSink \<Rightarrow> string \<Rightarrow> string" where
  "nats_subject s eventType =
     (if ns_subjectPrefix s = [] then eventType
      else ns_subjectPrefix s @ subjectSeparator @ eventType)"

definition nats_Emit :: "'w NatsSink \<Rightarrow> 'w sink" where
  "nats_Emit s ev w =
     (case ns_publisher s (nats_subject s (ev_Event ev)) (ev_Data ev) w of
        (Some err, w') \<Rightarrow> (Some (Wrapped err ''publish event''), w')
      | (None, w') \<Rightarrow> (None, w'))"

text \<open>
  The subscriber is the application's code: \<open>typeOf\<close> is its function from a subject to the event
  type. All that is used of it is the subject scheme \<open>nats/README.md\<close> documents: prefix, dot,
  event type, or the bare type. The event it delivers has the payload, and no id.
\<close>

definition reads_subjects :: "string \<Rightarrow> (string \<Rightarrow> string) \<Rightarrow> bool" where
  "reads_subjects p typeOf \<longleftrightarrow> (\<forall>t. typeOf (if p = [] then t else p @ ''.'' @ t) = t)"

definition subject_event :: "(string \<Rightarrow> string) \<Rightarrow> string \<times> string \<Rightarrow> event" where
  "subject_event typeOf m = \<lparr>ev_ID = [], ev_Event = typeOf (fst m), ev_Data = snd m\<rparr>"

text \<open>A publisher that takes exactly the messages whose \<open>Publish\<close> returned no error.\<close>

definition publishes_to :: "'w publish_call \<Rightarrow> ('w \<Rightarrow> (string \<times> string) list) \<Rightarrow> bool" where
  "publishes_to publish msgs \<longleftrightarrow>
     (\<forall>sub d w. msgs (snd (publish sub d w)) =
        msgs w @ (if fst (publish sub d w) = None then [(sub, d)] else []))"

text \<open>The message of an event.\<close>

definition nats_message :: "'w NatsSink \<Rightarrow> event \<Rightarrow> string \<times> string" where
  "nats_message s ev = (nats_subject s (ev_Event ev), ev_Data ev)"

lemma subject_event_message:
  "reads_subjects p typeOf \<Longrightarrow> subject_event typeOf (nats_message (nats_NewSink publish p) ev) = ev\<lparr>ev_ID := []\<rparr>"
  by (cases ev; cases "p = []")
    (simp_all add: reads_subjects_def subject_event_def nats_message_def nats_subject_def nats_NewSink_def subjectSeparator_def)

lemma nats_Emit_messages:
  assumes "publishes_to publish msgs" and "nats_Emit (nats_NewSink publish p) ev w = (r, w')"
  shows "msgs w' = msgs w @ (if r = None then [nats_message (nats_NewSink publish p) ev] else [])"
proof (cases "publish (nats_subject (nats_NewSink publish p) (ev_Event ev)) (ev_Data ev) w")
  case (Pair r1 w1)
  with assms(2) have "w' = w1" "r = None \<longleftrightarrow> r1 = None"
    by (auto simp: nats_Emit_def nats_NewSink_def split: option.splits)
  moreover have "msgs w1 = msgs w @ (if r1 = None then [(nats_subject (nats_NewSink publish p) (ev_Event ev), ev_Data ev)] else [])"
    using assms(1) Pair unfolding publishes_to_def by (metis fst_conv snd_conv)
  ultimately show ?thesis by (simp add: nats_message_def)
qed

lemma nats_emit_all_messages:
  assumes "publishes_to publish msgs"
  shows "emit_all (nats_Emit (nats_NewSink publish p)) evs w = (r, w') \<Longrightarrow>
    \<exists>n. msgs w' = msgs w @ map (nats_message (nats_NewSink publish p)) (take n evs) \<and> (r = None \<longrightarrow> take n evs = evs)"
proof (induction evs arbitrary: w)
  case (Cons ev evs)
  obtain q w1 where e: "nats_Emit (nats_NewSink publish p) ev w = (q, w1)" by force
  note m = nats_Emit_messages [OF assms e]
  show ?case
  proof (cases q)
    case None
    with Cons.prems e have "emit_all (nats_Emit (nats_NewSink publish p)) evs w1 = (r, w')" by simp
    with Cons.IH obtain n where "msgs w' = msgs w1 @ map (nats_message (nats_NewSink publish p)) (take n evs)"
      "r = None \<longrightarrow> take n evs = evs" by blast
    with m None show ?thesis by (intro exI [of _ "Suc n"]) simp
  next
    case (Some x)
    with Cons.prems e m show ?thesis by (intro exI [of _ 0]) auto
  qed
qed auto

section \<open>WebSocket\<close>

text \<open>The interface \<open>Conn\<close> of \<open>ws/conn.go\<close> is its one method; the mutex makes \<open>Emit\<close> one step.\<close>

type_synonym 'w conn = "event \<Rightarrow> 'w \<Rightarrow> goerr option \<times> 'w"

record 'w WsSink =
  wk_conn :: "'w conn"

definition ws_NewSink :: "'w conn \<Rightarrow> 'w WsSink" where
  "ws_NewSink c = \<lparr>wk_conn = c\<rparr>"

definition ws_Emit :: "'w WsSink \<Rightarrow> 'w sink" where
  "ws_Emit s ev w =
     (case wk_conn s ev w of
        (Some err, w') \<Rightarrow> (Some (Wrapped err ''write event''), w')
      | (None, w') \<Rightarrow> (None, w'))"

text \<open>A WebSocket sink hands on what its connection does, event for event.\<close>

lemma ws_sink_contract:
  assumes "\<And>ev w. sent (snd (c ev w)) = sent w @ (if fst (c ev w) = None then [ev] else [])"
  shows "sink_contract (ws_Emit (ws_NewSink c)) sent (\<lambda>_. True)"
proof
  fix w e w' x
  show "ws_Emit (ws_NewSink c) e w = (None, w') \<Longrightarrow> True \<and> sent w' = sent w @ [e]"
    using assms [of e w] by (cases "c e w") (auto simp: ws_Emit_def ws_NewSink_def split: option.splits)
  show "ws_Emit (ws_NewSink c) e w = (Some x, w') \<Longrightarrow> True \<and> sent w' = sent w"
    using assms [of e w] by (cases "c e w") (auto simp: ws_Emit_def ws_NewSink_def split: option.splits)
qed

section \<open>From sink to reader\<close>

lemma handle_no_id: "handle ord (e\<lparr>ev_ID := i\<rparr>) r = handle ord e r"
  by (simp add: handle_def)

lemma reassemble_events_no_id: "reassemble_events ord (map (\<lambda>e. e\<lparr>ev_ID := []\<rparr>) es) = reassemble_events ord es"
proof -
  have "handle_all ord (map (\<lambda>e. e\<lparr>ev_ID := []\<rparr>) es) r = handle_all ord es r" for es r
    by (induction es arbitrary: r) (simp_all add: handle_no_id)
  moreover have "takeWhile not_stop (map (\<lambda>e. e\<lparr>ev_ID := []\<rparr>) es) = map (\<lambda>e. e\<lparr>ev_ID := []\<rparr>) (takeWhile not_stop es)"
    by (simp add: takeWhile_map not_stop_def [abs_def] comp_def)
  ultimately show ?thesis by (simp add: reassemble_events_def)
qed

lemma Reassemble_slice: "Reassemble ord SliceSource_Next (NewSliceSource es) = Some (reassemble_events ord es)"
  using slice.Reassemble_pending [where s = "NewSliceSource es" and ord = ord] by (simp add: slice_pending_def NewSliceSource_def)

text \<open>
  \<open>Reassemble\<close> on a queue that is still being filled: its \<open>Next\<close> is that of goroutine \<open>g\<close>, whose
  answers are in the trace.
\<close>

fun answer :: "act \<Rightarrow> (goerr + event) list" where
  "answer (NextReturns r) = [r]"
| "answer a = []"

definition answers :: "nat \<Rightarrow> (nat \<times> act) list \<Rightarrow> (goerr + event) list" where
  "answers g tr = concat (map (\<lambda>(h, a). if h = g then answer a else []) tr)"

definition sole_reader :: "nat \<Rightarrow> (nat \<times> act) list \<Rightarrow> bool" where
  "sole_reader g tr \<longleftrightarrow> (\<forall>(h, a) \<in> set tr. h \<noteq> g \<longrightarrow> answer a = [])"

definition answered :: "(goerr + event) list source" where
  "answered rs = (case rs of [] \<Rightarrow> None | r # rs' \<Rightarrow> Some (r, rs'))"

fun event_of :: "goerr + event \<Rightarrow> event list" where
  "event_of (Inr e) = [e]"
| "event_of (Inl x) = []"

lemma events_of_answers: "concat (map event_of (map Inr xs @ [Inl x])) = xs"
  by (induction xs) simp_all

interpretation answered: event_source answered "\<lambda>rs. concat (map event_of rs)"
    "\<lambda>rs. \<exists>xs. rs = map Inr xs @ [Inl ErrNoMoreEvents]"
proof
  fix rs e es
  assume "\<exists>xs. rs = map Inr xs @ [Inl ErrNoMoreEvents]" and p: "concat (map event_of rs) = e # es"
  then obtain xs where rs: "rs = map Inr xs @ [Inl ErrNoMoreEvents]" by blast
  with p have "xs = e # es" by (simp only: events_of_answers)
  with rs show "\<exists>s'. answered rs = Some (Inr e, s') \<and> (\<exists>xs. s' = map Inr xs @ [Inl ErrNoMoreEvents])
      \<and> concat (map event_of s') = es"
    by (intro exI [of _ "map Inr es @ [Inl ErrNoMoreEvents]"]) (simp only: events_of_answers, auto simp: answered_def)
next
  fix rs
  assume "\<exists>xs. rs = map Inr xs @ [Inl ErrNoMoreEvents]" and p: "concat (map event_of rs) = []"
  then obtain xs where rs: "rs = map Inr xs @ [Inl ErrNoMoreEvents]" by blast
  with p have "xs = []" by (simp only: events_of_answers)
  with rs show "\<exists>s'. answered rs = Some (Inl ErrNoMoreEvents, s')" by (simp add: answered_def)
qed

lemma taken_answers: "sole_reader g tr \<Longrightarrow> taken tr = concat (map event_of (answers g tr))"
proof (induction tr)
  case (Cons ha tr)
  obtain h a where ha: "ha = (h, a)" by force
  have "act_taken a = concat (map event_of (answer a))"
    by (rule act_taken.cases [of a]) auto
  with Cons ha show ?case by (auto simp: sole_reader_def taken_def answers_def)
qed (simp add: taken_def answers_def)

text \<open>A reader that starts on a closed queue reassembles all that was accepted.\<close>

lemma closed_queue_reassembled:
  assumes "runs (qsystem nats_NewSource) tr y" "CloseReturns \<in> snd ` set tr" "taken tr = []"
  shows "Reassemble ord queue_Next (sy_src y) = Some (reassemble_events ord (accepted tr))"
  using event_source.Reassemble_pending [OF queue.event_source_axioms, of "sy_src y" ord] queue_run [OF disjI1 [OF refl] assms(1)] assms(2,3)
  by (auto simp: qinv_def acts_ok_def)

text \<open>A run that delivers and reads event after event, then closes and reads the end.\<close>

definition relay :: "event \<Rightarrow> (nat \<times> act) list" where
  "relay ev = [(0, CallDeliver ev), (0, Internal), (0, Internal), (0, Accepted ev), (0, DeliverReturns),
     (1, CallNext 0), (1, NextReturns (Inr ev))]"

definition hang_up :: "(nat \<times> act) list" where
  "hang_up = [(0, CallClose), (0, Internal), (0, Internal), (0, Internal), (0, Internal), (0, CloseReturns),
     (1, CallNext 0), (1, NextReturns (Inl ErrNoMoreEvents))]"

lemma relay_run: "runs (qsystem nats_NewSource) (relay ev) (qsystem nats_NewSource)"
proof -
  have "\<exists>y. replay (relay ev) (qsystem nats_NewSource) = Some y \<and> y = qsystem nats_NewSource"
    by (simp add: relay_def replay_eval fun_upd_twist fun_upd_idem)
  then show ?thesis using replay_sound by blast
qed

lemma relay_all: "\<exists>tr y. runs (qsystem nats_NewSource) tr y \<and> accepted tr = evs
  \<and> answers 1 tr = map Inr evs @ [Inl ErrNoMoreEvents] \<and> sole_reader 1 tr"
proof -
  let ?tr = "concat (map relay evs)"
  have "runs (qsystem nats_NewSource) ?tr (qsystem nats_NewSource)"
  proof (induction evs)
    case (Cons ev evs)
    with runs_trans [OF _ relay_run] show ?case by fastforce
  qed (simp add: runs_Nil)
  moreover have "\<exists>y. replay hang_up (qsystem nats_NewSource) = Some y"
    by (simp add: hang_up_def replay_eval)
  then obtain y where "runs (qsystem nats_NewSource) hang_up y" using replay_sound by blast
  ultimately have "runs (qsystem nats_NewSource) (?tr @ hang_up) y"
    by (intro runs_trans)
  moreover have "accepted (?tr @ hang_up) = evs"
    by (induction evs) (simp_all add: relay_def hang_up_def accepted_def)
  moreover have "answers 1 (?tr @ hang_up) = map Inr evs @ [Inl ErrNoMoreEvents]"
    by (induction evs) (simp_all add: relay_def hang_up_def answers_def)
  moreover have "sole_reader 1 (?tr @ hang_up)"
    by (auto simp: relay_def hang_up_def sole_reader_def)
  ultimately show ?thesis by blast
qed

lemma subseq_map_split: "subseq ms (map f xs) \<Longrightarrow> \<exists>es. subseq es xs \<and> ms = map f es"
  by (auto simp: subseq_conv_nths nths_map)



end
