(* ===== verification/Turn_Wire.thy ===== *)
theory Turn_Wire
  imports Elelem_Run Sse_Sink Message_Sinks
begin

text \<open>
  What the components need of each other when they are put together: JSON output has no control
  character, so an event of the publisher is not changed by the SSE framing; the reassembler does
  not look at ids; and a turn cut short is a turn of which a prefix of the text is known.
\<close>

section \<open>JSON output has no control characters\<close>

definition no_control :: "string \<Rightarrow> bool" where
  "no_control s \<longleftrightarrow> (\<forall>c\<in>set s. 0x20 \<le> byte c)"

lemma no_control_simps [simp]:
  "no_control []" "no_control (c # s) \<longleftrightarrow> 0x20 \<le> byte c \<and> no_control s"
  "no_control (s @ t) \<longleftrightarrow> no_control s \<and> no_control t"
  by (auto simp: no_control_def)

lemma no_control_hexdig: "n < 16 \<Longrightarrow> 0x20 \<le> byte (hexdig n)"
proof -
  assume "n < 16"
  then have "hexdig n \<in> set ''0123456789abcdef''" by (simp add: hexdig_def del: set_simps)
  then show ?thesis by auto
qed

lemma no_control_escape_ascii: "byte c < 0x80 \<Longrightarrow> no_control (escape_ascii c)"
  by (auto simp: escape_ascii_def intro!: no_control_hexdig)

lemma no_control_json_escape: "no_control (json_escape s)"
proof (induction s rule: json_escape.induct)
  case (1 s)
  consider "s = []" | "s \<noteq> []" "rune_width s = 0" | "s \<noteq> []" "rune_width s = 1"
    | "s \<noteq> []" "2 \<le> rune_width s"
    by (metis One_nat_def Suc_1 less_2_cases not_less)
  then show ?case
  proof cases
    case 3
    then obtain c t where s: "s = c # t" by (cases s) auto
    have "byte c < 0x80" using 3 rune_width_not_ascii [of c t] s by fastforce
    with 1(2) 3 s show ?thesis by (simp add: json_escape.simps [of "c # t"] no_control_escape_ascii)
  next
    case 4
    then obtain b t where s: "s = b # t" by (cases s) auto
    have "\<not> byte b < 0x80" using 4 s by (auto dest: rune_width_ascii)
    with rune_width_high [OF refl this] have "\<forall>c\<in>set (take (rune_width s) s). 0x80 \<le> byte c" by (auto simp: s not_less)
    then have "no_control (take (rune_width s) s)" by (force simp: no_control_def)
    then have "no_control (escape_rune (take (rune_width s) s))" by (simp add: escape_rune_def)
    with 1(3) 4 show ?thesis by (simp add: json_escape.simps [of s])
  qed (use 1(1) in \<open>simp_all add: json_escape.simps\<close>)
qed

lemma no_control_quote: "no_control (quote_string s)"
  by (simp add: quote_string_def no_control_json_escape)

lemma no_control_int_dec: "no_control (int_dec i)"
proof -
  have "no_control (nat_dec n)" for n
    using nat_dec_digits [of n] by (auto simp: no_control_def list_all_iff is_digit_def)
  then show ?thesis by (simp add: int_dec_def)
qed

lemma no_control_print:
  "printable d v \<Longrightarrow> no_control (print_val v)"
  "printable_elems d vs \<Longrightarrow> no_control (print_elems vs)"
  "printable_members d ms \<Longrightarrow> no_control (print_members ms)"
  by (induction d v and d vs and d ms rule: printable_printable_elems_printable_members.induct)
    (auto simp: print_val.simps print_elems.simps print_members.simps no_control_quote no_control_int_dec)


section \<open>Well-formed events\<close>

text \<open>What every event on the wire is: of a known type, with a payload that is JSON without control characters.\<close>

definition known_types :: "string list" where
  "known_types = [EventTypeMessageStart, EventTypeContentBlockStart, EventTypePing, EventTypeContentBlockDelta,
     EventTypeContentBlockStop, EventTypeMessageDelta, EventTypeMessageStop]"

definition wire_event :: "event \<Rightarrow> bool" where
  "wire_event e \<longleftrightarrow> ev_Event e \<in> set known_types \<and> json_parse (ev_Data e) \<noteq> None \<and> no_control (ev_Data e)"

lemma wire_payload:
  assumes "json_marshal d = Inr (print_val v)" and "printable maxNestingDepth v" and "t \<in> set known_types"
  shows "wire_event (payload_event t d)"
  using no_control_print(1) [OF assms(2)] json_parse_print [OF assms(2)] assms(1,3)
  by (simp add: wire_event_def payload_event_def)

lemma wire_payloads:
  "wire_event (payload_event EventTypeMessageStart (pl_MessageStart a b c))"
  "wire_event (payload_event EventTypePing (PPing p))"
  "wire_event (payload_event EventTypeContentBlockStart (pl_BlockStart ty i))"
  "wire_event (payload_event EventTypeContentBlockDelta (pl_BlockDelta ty i x))"
  "wire_event (payload_event EventTypeContentBlockStop (pl_BlockStop i))"
  "wire_event (payload_event EventTypeMessageDelta (pl_MessageDelta r k))"
  "wire_event (payload_event EventTypeMessageStop (PMessageStop q))"
  "wire_event (payload_event EventTypeContentBlockStart (pl_ToolUseStart i u n))"
  "wire_event (payload_event EventTypeContentBlockDelta (pl_ToolInputDelta i x))"
  "wire_event (payload_event EventTypeContentBlockStart (pl_ToolResultStart i u f))"
  "wire_event (payload_event EventTypeContentBlockDelta (pl_ToolResultDelta i x))"
  by (rule wire_payload, simp add: payload_defs, simp add: payload_defs wire_enc omit_empty_def maxNestingDepth_def,
      simp add: known_types_def)+

section \<open>The publisher's events on the SSE wire\<close>

text \<open>An event whose type and payload the framing leaves alone.\<close>

definition plain_event :: "event \<Rightarrow> bool" where
  "plain_event e \<longleftrightarrow> sanitizeFieldValue (ev_Event e) = ev_Event e \<and> CR \<notin> set (ev_Data e)"

lemma wire_event_plain: "wire_event e \<Longrightarrow> plain_event e"
  by (auto simp: wire_event_def plain_event_def known_types_def no_control_def sanitizeFieldValue_def wire_consts)

lemma wire_segs: "list_all wire_event (segs_events i ss)"
proof (induction i ss rule: segs_events.induct)
  case (2 i s ss)
  then show ?case
    by (cases s) (simp_all add: list_all_iff start_event_def delta_event_def stop_event_def tool_use_event_def
        tool_input_event_def tool_result_event_def tool_text_event_def wire_payloads ball_Un)
qed simp

lemma wire_turn: "list_all wire_event (turn_events a b c ss r k)"
  using wire_segs [of 0 ss] by (simp add: turn_events_def preamble_events_def epilogue_events_def wire_payloads)

lemma plain_turn: "list_all plain_event (turn_events a b c ss r k)"
  using wire_turn by (auto simp: list_all_iff wire_event_plain)

lemma received_plain:
  "list_all plain_event es \<Longrightarrow> map (\<lambda>e. e\<lparr>ev_ID := []\<rparr>) (received_all i (map FEvent es)) = map (\<lambda>e. e\<lparr>ev_ID := []\<rparr>) es"
  by (induction es arbitrary: i) (simp_all add: received_def plain_event_def normalize_id)

lemma reassemble_received:
  assumes "list_all plain_event es"
  shows "reassemble_events ord (received_all [] (map FEvent es)) = reassemble_events ord es"
  using reassemble_events_no_id [of ord es] reassemble_events_no_id [of ord "received_all [] (map FEvent es)"]
  by (simp add: received_plain [OF assms])

section \<open>The turn as far as it got\<close>

lemma list_all_take: "list_all P xs \<Longrightarrow> list_all P (take n xs)"
  by (auto simp: list_all_iff dest: in_set_takeD)

lemma takeWhile_take_prefix: "prefix (takeWhile P (take n xs)) (takeWhile P xs)"
  by (induction xs arbitrary: n) (auto simp: take_Cons split: nat.split)

lemma reassemble_take_text:
  "prefix (PS_Text (reassemble_events ord (take n es))) (PS_Text (reassemble_events ord es))"
proof -
  have "prefix (concat (map f xs)) (concat (map f ys))" if "prefix xs ys" for f :: "event \<Rightarrow> string" and xs ys
    using that by (auto simp: prefix_def)
  then show ?thesis by (simp add: reassembled_text takeWhile_take_prefix)
qed

lemma clean_reader_source:
  assumes "byte_reader rd content io_EOF rok"
  shows "event_source (Next rd) (byte_reader.so_pending content) (byte_reader.so_ok content io_EOF rok)"
  using byte_reader.Next_event [OF assms] byte_reader.Next_end [OF assms] byte_reader.end_error_def [OF assms]
  by (intro event_source.intro) auto

text \<open>What a reader of the written bytes sees of a turn whose writer may have failed.\<close>

lemma read_back:
  assumes "byte_writer wr bytes" and "bytes w = []"
    and "emit_all (WriterSink_Emit (NewWriterSink wr)) es w = (r, w')"
    and "byte_reader rd content io_EOF rok" and "rok i" and "content i = bytes w'"
    and "lines_fit (bytes w')" and "list_all plain_event es"
  shows "\<exists>n. Reassemble ord (Next rd) (NewSource i) = Some (reassemble_events ord (take n es))
    \<and> (r = None \<longrightarrow> n = length es)"
proof -
  from byte_writer.emit_all_frames [OF assms(1,3)] assms(2) obtain k p where
    kp: "bytes w' = concat (map FrameLines (take k es)) @ p"
    "if r = None then k = length es \<and> p = [] else k < length es \<and> prefix p (FrameLines (es ! k))"
    by (auto split: if_splits)
  have "\<exists>n. (r = None \<longrightarrow> n = length es) \<and> sse_events (bytes w') = received_all [] (map FEvent (take n es))"
  proof (cases "r = None")
    case True
    with kp show ?thesis by (auto simp: sse_events_events)
  next
    case False
    with kp sse_events_cut_frame [of k es p] show ?thesis by auto
  qed
  then obtain n where n: "r = None \<longrightarrow> n = length es" "sse_events (bytes w') = received_all [] (map FEvent (take n es))"
    by blast
  have "Reassemble ord (Next rd) (NewSource i) = Some (reassemble_events ord (sse_events (bytes w')))"
    using event_source.Reassemble_pending [OF clean_reader_source [OF assms(4)], of "NewSource i" ord] byte_reader.NewSource_ok [OF assms(4,5)] assms(6,7) by simp
  with n reassemble_received [OF list_all_take [OF assms(8)]] show ?thesis by auto
qed


section \<open>A writer that broke\<close>

text \<open>
  A writer whose first error is not its last: once a write has failed, later ones write nothing and
  fail too, as a closed connection or a \<open>bufio.Writer\<close> does.
\<close>

locale breaking_writer = byte_writer wr bytes for wr :: "'w writer" and bytes +
  fixes broken :: "'w \<Rightarrow> bool"
  assumes write_breaks: "wr bs w = (Some e, w') \<Longrightarrow> broken w'"
    and stays_broken: "\<lbrakk>broken w; bs \<noteq> []\<rbrakk> \<Longrightarrow> \<exists>e w'. wr bs w = (Some e, w') \<and> bytes w' = bytes w"
begin

lemma emit_broken:
  assumes "broken w"
  shows "\<exists>x w'. WriterSink_Emit (NewWriterSink wr) ev w = (Some x, w') \<and> bytes w' = bytes w \<and> broken w'"
proof -
  have "FrameLines ev \<noteq> []" by (simp add: FrameLines_lines frame_lines_def)
  with stays_broken [OF assms] obtain e w' where "wr (FrameLines ev) w = (Some e, w')" "bytes w' = bytes w" by blast
  with write_breaks [OF this(1)] show ?thesis by (simp add: WriterSink_Emit_def NewWriterSink_def)
qed

lemma emit_all_broken:
  "\<lbrakk>broken w; emit_all (WriterSink_Emit (NewWriterSink wr)) es w = (r, v)\<rbrakk> \<Longrightarrow> bytes v = bytes w \<and> broken v"
proof (cases es)
  case (Cons e fs)
  assume b: "broken w" and e: "emit_all (WriterSink_Emit (NewWriterSink wr)) es w = (r, v)"
  from emit_broken [OF b, of e] e Cons show ?thesis by auto
qed auto

lemma emit_each_broken:
  "\<lbrakk>broken w; emit_each (WriterSink_Emit (NewWriterSink wr)) gs w = (r, v)\<rbrakk> \<Longrightarrow> bytes v = bytes w \<and> broken v"
proof (induction gs arbitrary: w r)
  case (Cons g gs)
  obtain r1 w1 q where 1: "emit_all (WriterSink_Emit (NewWriterSink wr)) g w = (r1, w1)"
    "emit_each (WriterSink_Emit (NewWriterSink wr)) gs w1 = (q, v)"
    using Cons.prems(2) by (auto split: prod.splits)
  from emit_all_broken [OF Cons.prems(1) 1(1)] Cons.IH [OF _ 1(2)] show ?case by simp
qed simp

lemma emit_all_breaks:
  "emit_all (WriterSink_Emit (NewWriterSink wr)) es w = (Some x, v) \<Longrightarrow> broken v"
proof (induction es arbitrary: w)
  case (Cons e es)
  obtain q w1 where w1: "wr (FrameLines e) w = (q, w1)" by fastforce
  from Cons.IH [of w1] Cons.prems write_breaks [of "FrameLines e" w _ w1] w1 emit_step [OF w1, of es]
  show ?case by (cases q) simp_all
qed simp

text \<open>What a plan writes is what the plain loop over its events writes, however it goes on after a failure.\<close>

lemma emit_each_bytes:
  assumes "emit_each (WriterSink_Emit (NewWriterSink wr)) gs w = (r, v)"
  shows "\<exists>q u. emit_all (WriterSink_Emit (NewWriterSink wr)) (concat gs) w = (q, u)
    \<and> (q = None \<longleftrightarrow> r = None) \<and> bytes u = bytes v \<and> (r \<noteq> None \<longrightarrow> broken v)"
  using assms
proof (induction gs arbitrary: w r)
  case (Cons g gs)
  obtain r1 w1 q where 1: "emit_all (WriterSink_Emit (NewWriterSink wr)) g w = (r1, w1)"
    "emit_each (WriterSink_Emit (NewWriterSink wr)) gs w1 = (q, v)" "r = (if r1 = None then q else r1)"
    using Cons.prems by (auto split: prod.splits if_splits)
  show ?case
  proof (cases r1)
    case None
    with Cons.IH [OF 1(2)] 1 show ?thesis by (auto simp: emit_all_append)
  next
    case (Some x)
    with emit_all_breaks 1(1) have "broken w1" by blast
    from emit_each_broken [OF this 1(2)] Some 1 show ?thesis by (simp add: emit_all_append)
  qed
qed simp

lemma emit_plan_bytes:
  assumes "emit_plan (WriterSink_Emit (NewWriterSink wr)) phs w = (r, v)"
  shows "\<exists>q u. emit_all (WriterSink_Emit (NewWriterSink wr)) (plan_events phs) w = (q, u)
    \<and> (q = None \<longleftrightarrow> r = None) \<and> bytes u = bytes v"
  using assms
proof (induction phs arbitrary: w r)
  case (Cons ph phs)
  obtain q w1 where ph: "emit_phase (WriterSink_Emit (NewWriterSink wr)) ph w = (q, w1)" by force
  have one: "\<exists>q' u. emit_all (WriterSink_Emit (NewWriterSink wr)) (phase_events ph) w = (q', u)
      \<and> (q' = None \<longleftrightarrow> q = None) \<and> bytes u = bytes w1"
    using ph emit_each_bytes by (cases ph) fastforce+
  show ?case
  proof (cases q)
    case None
    with ph have "emit_all (WriterSink_Emit (NewWriterSink wr)) (phase_events ph) w = (None, w1)"
      by (cases ph) (simp_all add: emit_each_None)
    with None Cons.prems ph Cons.IH [of w1 r] show ?thesis by (simp add: emit_all_append)
  next
    case (Some x)
    with one Cons.prems ph show ?thesis by (auto simp: emit_all_append)
  qed
qed simp

end

interpretation limited_breaks: breaking_writer "limited_write n" "\<lambda>w. w" "\<lambda>w. n \<le> length w" for n
proof
  show "limited_write n bs w = (Some e, w') \<Longrightarrow> n \<le> length w'" for bs w e w'
    by (auto simp: limited_write_def split: if_splits)
  show "\<lbrakk>n \<le> length w; bs \<noteq> []\<rbrakk> \<Longrightarrow> \<exists>e w'. limited_write n bs w = (Some e, w') \<and> w' = w" for w bs
    by (cases bs) (auto simp: limited_write_def)
qed

section \<open>Lines that fit\<close>

text \<open>A bound on the printed length of a value, which needs no printing.\<close>

fun print_bound :: "jval \<Rightarrow> nat" and elems_bound :: "jval list \<Rightarrow> nat"
  and members_bound :: "(string \<times> jval) list \<Rightarrow> nat" where
  "print_bound JNull = 4"
| "print_bound (JBool b) = 5"
| "print_bound (JNum l) = length l"
| "print_bound (JStr s) = 2 + 6 * length s"
| "print_bound (JArr vs) = 2 + elems_bound vs"
| "print_bound (JObj ms) = 2 + members_bound ms"
| "elems_bound [] = 0"
| "elems_bound (v # vs) = print_bound v + 1 + elems_bound vs"
| "members_bound [] = 0"
| "members_bound ((k, v) # ms) = 4 + 6 * length k + print_bound v + members_bound ms"

lemma length_json_escape: "length (json_escape s) \<le> 6 * length s"
proof (induction s rule: json_escape.induct)
  case (1 s)
  have asc: "length (escape_ascii c) \<le> 6" for c by (simp add: escape_ascii_def)
  consider "s = []" | "s \<noteq> []" "rune_width s = 0" | "s \<noteq> []" "rune_width s = 1" | "s \<noteq> []" "2 \<le> rune_width s"
    by (metis One_nat_def Suc_1 less_2_cases not_less)
  then show ?case
  proof cases
    case 2
    then obtain c t where "s = c # t" by (cases s) auto
    with 1(1) 2 show ?thesis by (simp add: json_escape.simps [of "c # t"])
  next
    case 3
    then obtain c t where "s = c # t" by (cases s) auto
    with 1(2) 3 asc [of c] show ?thesis by (simp add: json_escape.simps [of "c # t"])
  next
    case 4
    have "length (escape_rune (take (rune_width s) s)) \<le> 6 * rune_width s"
      using 4 by (auto simp: escape_rune_def)
    moreover have "length (drop (rune_width s) s) = length s - rune_width s" by simp
    ultimately show ?thesis
      using 1(3) 4 rune_width_le [of s] by (simp add: json_escape.simps [of s])
  qed (simp add: json_escape.simps)
qed

lemma length_print:
  "length (print_val v) \<le> print_bound v" "length (print_elems vs) \<le> elems_bound vs"
  "length (print_members ms) \<le> members_bound ms"
proof (induction v and vs and ms rule: print_bound_elems_bound_members_bound.induct)
  case (4 s)
  then show ?case using length_json_escape [of s] by (simp add: print_val.simps quote_string_def)
next
  case (10 k v ms)
  then show ?case using length_json_escape [of k] by (auto simp: print_members.simps quote_string_def)
qed (auto simp: print_val.simps print_elems.simps print_members.simps)

definition short_event :: "event \<Rightarrow> bool" where
  "short_event e \<longleftrightarrow> ev_ID e = [] \<and> wire_event e \<and> length (ev_Data e) + 8 \<le> maxLineSize"

lemma wire_event_type: "wire_event e \<Longrightarrow> length (ev_Event e) \<le> 19"
  by (auto simp: wire_event_def known_types_def wire_consts)

lemma wire_event_data: "wire_event e \<Longrightarrow> CR \<notin> set (ev_Data e) \<and> LF \<notin> set (ev_Data e)"
  by (auto simp: wire_event_def no_control_def)

lemma split_LF_one: "LF \<notin> set s \<Longrightarrow> split_LF s = [s]"
  by (induction s) auto

lemma frame_lines_short:
  assumes "short_event e" and "l \<in> set (frame_lines e)"
  shows "length l + 2 \<le> maxLineSize"
proof -
  have e: "wire_event e" "ev_ID e = []" "length (ev_Data e) + 8 \<le> maxLineSize" using assms(1) by (simp_all add: short_event_def)
  have t: "sanitizeFieldValue (ev_Event e) = ev_Event e" using wire_event_plain [OF e(1)] by (simp add: plain_event_def)
  have "split_LF (normalize (ev_Data e)) = [ev_Data e]" using wire_event_data [OF e(1)] by (simp add: normalize_id split_LF_one)
  with assms(2) e(2) t have "l = field ''event'' (ev_Event e) \<or> l = field ''data'' (ev_Data e) \<or> l = []"
    by (auto simp: frame_lines_def split: if_splits)
  with e(3) wire_event_type [OF e(1)] show ?thesis by (elim disjE) (simp_all add: field_def maxLineSize_def)
qed

lemma lines_fit_short: "list_all short_event es \<Longrightarrow> lines_fit (concat (map FrameLines es))"
proof (induction es)
  case (Cons e es)
  have "sse_lines (concat (map FrameLines (e # es))) = frame_lines e @ sse_lines (concat (map FrameLines es))"
    using sse_lines_concat [OF frame_lines_plain, of e] by (simp add: FrameLines_lines)
  with Cons frame_lines_short [of e] show ?case by (auto simp: lines_fit_def)
qed (simp add: lines_fit_def)

lemma lines_fit_bound: "length s + 2 \<le> maxLineSize \<Longrightarrow> lines_fit s"
proof -
  have "l \<in> set (sse_lines s) \<Longrightarrow> length l \<le> length s" for l
  proof (induction s rule: sse_lines.induct)
    case (1 s)
    then show ?case
      using length_line_of [of s] length_after_line [of s] by (fastforce simp: sse_lines.simps [of s] split: if_splits)
  qed
  then show "length s + 2 \<le> maxLineSize \<Longrightarrow> lines_fit s" by (fastforce simp: lines_fit_def)
qed

lemma limited_emit_all:
  "\<lbrakk>emit_all (WriterSink_Emit (NewWriterSink (limited_write n))) es w = (r, v); length w \<le> n\<rbrakk> \<Longrightarrow> length v \<le> n"
proof (induction es arbitrary: w)
  case (Cons e es)
  obtain q w1 where w1: "limited_write n (FrameLines e) w = (q, w1)" by fastforce
  then have "length w1 \<le> n" using Cons.prems(2) by (auto simp: limited_write_def split: if_splits)
  with Cons.IH [of w1] Cons.prems(1) limited.emit_step [OF w1, of es] show ?case by (cases q) simp_all
qed simp

end
