(* ===== verification/Reassemble_Total.thy ===== *)
theory Reassemble_Total
  imports Reassemble Sse_Source
begin

text \<open>
  \<open>Reassemble\<close> on a source that ends with any error: it returns, it keeps what it has seen, and
  it reports the error unless the stream had ended before.
\<close>

section \<open>The handlers do not touch the error\<close>

definition error_of :: "reassembler \<Rightarrow> goerr option" where
  "error_of r = PS_Error (re_result r)"

lemma error_of_close [simp]:
  "error_of (closeTextBlock r) = error_of r" "error_of (closeThinkingBlock r) = error_of r"
  by (simp_all add: error_of_def close_defs Let_def)

lemma error_of_finalize_block [simp]:
  "error_of (finalizeTool t r) = error_of r" "error_of (finalizeResult u r) = error_of r"
  by (simp_all add: error_of_def finalizeTool_def finalizeResult_def Let_def split: option.split)

lemma error_of_upd [simp]:
  "error_of (r\<lparr>re_tools := b\<rparr>) = error_of r" "error_of (r\<lparr>re_results := c\<rparr>) = error_of r"
  "error_of (r\<lparr>re_textIndex := d\<rparr>) = error_of r" "error_of (r\<lparr>re_thinkingIndex := d\<rparr>) = error_of r"
  "error_of (r\<lparr>re_curThinkingParts := f\<rparr>) = error_of r" "error_of (r\<lparr>re_curTextParts := g\<rparr>) = error_of r"
  "error_of (r\<lparr>re_result := q\<rparr>) = PS_Error q"
  "PS_Error (re_result r) = error_of r"
  by (simp_all add: error_of_def)

lemma error_of_folds [simp]:
  "error_of (fold flush_tool ks r) = error_of r" "error_of (fold flush_result ks r) = error_of r"
  by (rule fold_keeps, simp add: flush_tool_def flush_result_def split: option.split)+

lemma error_of_finalize [simp]: "error_of (finalize ord r) = error_of r"
proof -
  have "error_of (flushAll ord r) = error_of r" by (simp add: flushAll_def Let_def)
  then show ?thesis by (simp add: finalize_def Let_def)
qed

lemma error_of_handle [simp]: "error_of (handle ord e r) = error_of r"
proof -
  have "error_of (onContentBlockStart d r) = error_of r" for d
    by (simp add: onContentBlockStart_def start_tool_use_def start_tool_result_def
        startTextThinkingOrUnknown_def Let_def split: option.split)
  moreover have "error_of (onMessageStart d r) = error_of r" for d
    by (simp add: onMessageStart_def split: option.split)
  moreover have "error_of (onContentBlockStop d r) = error_of r" for d
    by (simp add: onContentBlockStop_def stop_block_def Let_def split: option.split)
  moreover have "error_of (onContentBlockDelta d r) = error_of r" for d
    by (simp add: onContentBlockDelta_def handleTextOrThinkingDelta_def handleTextDelta_def handleThinkingDelta_def
        tool_input_delta_def tool_result_delta_def split: option.split)
  ultimately show ?thesis by (simp add: handle_def handleEvent_def)
qed

lemma error_of_handle_all [simp]: "error_of (handle_all ord es r) = error_of r"
  by (induction es arbitrary: r) simp_all

section \<open>Any source that ends\<close>

definition stopped :: "event list \<Rightarrow> bool" where
  "stopped es \<longleftrightarrow> (\<exists>e\<in>set es. ev_Event e = EventTypeMessageStop)"

lemma text_so_far_error [simp]:
  "text_so_far (r\<lparr>re_result := q\<rparr>) = text_so_far r"
  by (rule text_so_far_upd)

lemma reassemble_ends:
  assumes step: "\<And>s e es. \<lbrakk>ok s; pending s = e # es\<rbrakk> \<Longrightarrow> \<exists>s'. nxt s = Some (Inr e, s') \<and> ok s' \<and> pending s' = es"
    and stop: "\<And>s. \<lbrakk>ok s; pending s = []\<rbrakk> \<Longrightarrow> \<exists>s'. nxt s = Some (Inl err, s')"
    and "ok s"
  shows "\<exists>p. reassemble ord nxt r s = Some p
    \<and> PS_Error p = (if stopped (pending s) \<or> errors_is err ErrNoMoreEvents then error_of r
        else Some (Wrapped err ''read next event''))
    \<and> PS_Text p = text_so_far r @ concat (map delta_text (takeWhile not_stop (pending s)))"
  using \<open>ok s\<close>
proof (induction "pending s" arbitrary: s r)
  case Nil
  with stop show ?case
    by (force simp: reassemble.simps [of ord nxt r s] stopped_def final_text)
next
  case (Cons e es)
  from step [OF Cons.prems Cons.hyps(2) [symmetric]] obtain s' where
    s': "nxt s = Some (Inr e, s')" "ok s'" "pending s' = es" by blast
  show ?case
  proof (cases "ev_Event e = EventTypeMessageStop")
    case True
    then have "handleEvent ord (ev_Event e) (ev_Data e) r = finalize ord r"
      by (simp add: handleEvent_def wire_consts)
    with True s' Cons.hyps(2) [symmetric] show ?thesis
      by (simp add: reassemble.simps [of ord nxt r s] not_stop_def stopped_def final_text)
  next
    case False
    have "stopped (pending s) = stopped (pending s')"
      using False Cons.hyps(2) [symmetric] s'(3) by (simp add: stopped_def)
    moreover have "text_so_far (handle ord e r) = text_so_far r @ delta_text e"
      using False by (intro text_so_far_handle) (simp add: not_stop_def)
    moreover have "reassemble ord nxt r s = reassemble ord nxt (handle ord e r) s'"
      using False s'(1) by (simp add: reassemble.simps [of ord nxt r s] handle_def)
    moreover have "takeWhile not_stop (pending s) = e # takeWhile not_stop (pending s')"
      using False Cons.hyps(2) [symmetric] s'(3) by (simp add: not_stop_def)
    moreover note Cons.hyps(1) [OF s'(3) [symmetric] s'(2), of "handle ord e r", unfolded error_of_handle]
    ultimately show ?thesis by simp
  qed
qed

text \<open>
  C19. \<open>Reassemble\<close> returns on every byte stream whose lines fit the buffer: malformed,
  misordered or cut off as it may be, in any chunks and however the connection ends. The text
  is that of the deltas up to \<open>message_stop\<close>, and the error is set exactly when the connection
  ended, other than cleanly, before one came.
\<close>

theorem reassemble_returns:
  assumes "byte_reader rd content fin rok" and "rok i" and "lines_fit (content i)"
  shows "\<exists>p. Reassemble ord (Next rd) (NewSource i) = Some p
    \<and> PS_Text p = concat (map delta_text (takeWhile not_stop (sse_events (content i))))
    \<and> (PS_Error p = None \<longleftrightarrow> stopped (sse_events (content i)) \<or> fin = io_EOF \<or> errors_is fin ErrNoMoreEvents)"
proof -
  let ?err = "byte_reader.end_error fin"
  note ok = byte_reader.NewSource_ok [OF assms]
  have new: "error_of new_reassembler = None" "text_so_far new_reassembler = []"
    by (simp_all add: error_of_def new_reassembler_def empty_stream_def text_so_far_def)
  have err: "errors_is ?err ErrNoMoreEvents \<longleftrightarrow> fin = io_EOF \<or> errors_is fin ErrNoMoreEvents"
    by (simp add: byte_reader.end_error_def [OF assms(1)])
  obtain p where p: "Reassemble ord (Next rd) (NewSource i) = Some p"
    "PS_Error p = (if stopped (sse_events (content i)) \<or> errors_is ?err ErrNoMoreEvents then None
        else Some (Wrapped ?err ''read next event''))"
    "PS_Text p = concat (map delta_text (takeWhile not_stop (sse_events (content i))))"
  proof -
    have "\<exists>p. reassemble ord (Next rd) new_reassembler (NewSource i) = Some p
      \<and> PS_Error p = (if stopped (byte_reader.so_pending content (NewSource i)) \<or> errors_is ?err ErrNoMoreEvents
          then error_of new_reassembler else Some (Wrapped ?err ''read next event''))
      \<and> PS_Text p = text_so_far new_reassembler
          @ concat (map delta_text (takeWhile not_stop (byte_reader.so_pending content (NewSource i))))"
      using byte_reader.Next_event [OF assms(1)] byte_reader.Next_end [OF assms(1)] ok
      by (intro reassemble_ends [where ok = "byte_reader.so_ok content fin rok"]) blast+
    with that ok show ?thesis by (auto simp only: Reassemble_def new append_Nil)
  qed
  show ?thesis
    by (intro exI [of _ p] conjI p(1,3)) (simp add: p(2) err)
qed

theorem reassemble_returns_witness:
  "\<exists>p. Reassemble rev (Next (chunk_read (ErrOther ''reset''))) (NewSource [''da'', ''ta: {'']) = Some p
    \<and> PS_Text p = [] \<and> PS_Error p \<noteq> None"
proof -
  have "plain ''data: {''" by simp
  then have lines: "sse_lines (concat [''da'', ''ta: {'']) = [''data: {'']"
    using sse_lines_unfinished by simp
  have "sse_events (concat [''da'', ''ta: {'']) = []"
    using on_line_no_event [of "''data: {''" new_parser]
    by (simp only: sse_events_def lines) (simp add: new_parser_def case_prod_beta)
  then show ?thesis
    using reassemble_returns [OF chunks.byte_reader_axioms [of "ErrOther ''reset''"],
        where i = "[''da'', ''ta: {'']" and ord = rev] lines
    by (auto simp: stopped_def lines_fit_def maxLineSize_def io_EOF_def)
qed

end
