(* ===== verification/Reassemble_Parallel.thy ===== *)
theory Reassemble_Parallel
  imports Reassemble
begin

text \<open>
  Blocks in flight at the same time: tool and result blocks whose events are interleaved in any
  way, each block's own events in order; and the order in which \<open>flushAll\<close> visits the blocks
  that were never stopped. The proofs follow every block through its states; a handler moves
  one block and leaves the others alone (\<open>touches\<close>).
\<close>

section \<open>Interleavings\<close>

inductive interleaved :: "'a list list \<Rightarrow> 'a list \<Rightarrow> bool" where
  il_done: "list_all (\<lambda>xs. xs = []) xss \<Longrightarrow> interleaved xss []"
| il_step: "\<lbrakk>k < length xss; xss ! k = x # xs; interleaved (xss[k := xs]) ys\<rbrakk> \<Longrightarrow> interleaved xss (x # ys)"

inductive_cases interleaved_NilE: "interleaved xss []"
inductive_cases interleaved_ConsE: "interleaved xss (x # ys)"
inductive_simps interleaved_Nil: "interleaved xss []"

section \<open>The states of a block\<close>

datatype bstate =
    TFresh int string string "string list"
  | TOpen int string string "string list" "string list"
  | RFresh int string bool "string list"
  | ROpen int string "string list" "string list"
  | BDone

fun b_events :: "bstate \<Rightarrow> event list" where
  "b_events (TFresh i u n ds) = tool_use_event i u n # map (tool_input_event i) ds @ [stop_event i]"
| "b_events (TOpen i u n got ds) = map (tool_input_event i) ds @ [stop_event i]"
| "b_events (RFresh i u x ds) = tool_result_event i u x # map (tool_text_event i) ds @ [stop_event i]"
| "b_events (ROpen i u got ds) = map (tool_text_event i) ds @ [stop_event i]"
| "b_events BDone = []"

fun b_next :: "bstate \<Rightarrow> bstate" where
  "b_next (TFresh i u n ds) = TOpen i u n [] ds"
| "b_next (TOpen i u n got (d # ds)) = TOpen i u n (got @ [d]) ds"
| "b_next (RFresh i u x ds) = ROpen i u [] ds"
| "b_next (ROpen i u got (d # ds)) = ROpen i u (got @ [d]) ds"
| "b_next _ = BDone"

fun b_idx :: "bstate \<Rightarrow> int list" where
  "b_idx (TFresh i u n ds) = [i]"
| "b_idx (TOpen i u n got ds) = [i]"
| "b_idx (RFresh i u x ds) = [i]"
| "b_idx (ROpen i u got ds) = [i]"
| "b_idx BDone = []"

text \<open>What a block adds to the turn, given the calls already reported.\<close>

fun b_tools :: "bstate \<Rightarrow> ToolCall list" where
  "b_tools (TFresh i u n ds) = [tool_call u n ds]"
| "b_tools (TOpen i u n got ds) = [tool_call u n (got @ ds)]"
| "b_tools _ = []"

fun b_execs :: "ToolCall list \<Rightarrow> bstate \<Rightarrow> ToolExecution list" where
  "b_execs calls (RFresh i u x ds) = executions_of calls u ds"
| "b_execs calls (ROpen i u got ds) = executions_of calls u (got @ ds)"
| "b_execs calls _ = []"

text \<open>How a block's state shows in the reassembler.\<close>

abbreviation calls_of :: "reassembler \<Rightarrow> ToolCall list" where
  "calls_of r \<equiv> PS_Tools (re_result r)"

definition known_call :: "reassembler \<Rightarrow> string \<Rightarrow> bool" where
  "known_call r u \<longleftrightarrow> find (\<lambda>t. TC_ToolUseID t = to_valid_utf8 u) (calls_of r) \<noteq> None"

fun b_rel :: "reassembler \<Rightarrow> bstate \<Rightarrow> bool" where
  "b_rel r (TFresh i u n ds) \<longleftrightarrow> int64_range i"
| "b_rel r (TOpen i u n got ds) \<longleftrightarrow> int64_range i \<and> map_of (re_tools r) i
     = Some \<lparr>it_name = to_valid_utf8 n, it_toolUseID = to_valid_utf8 u, it_params = map to_valid_utf8 got\<rparr>"
| "b_rel r (RFresh i u x ds) \<longleftrightarrow> int64_range i \<and> map_of (re_tools r) i = None \<and> known_call r u"
| "b_rel r (ROpen i u got ds) \<longleftrightarrow> int64_range i \<and> map_of (re_tools r) i = None \<and> known_call r u
     \<and> map_of (re_results r) i = Some \<lparr>ir_toolUseID = to_valid_utf8 u, ir_parts = map to_valid_utf8 got\<rparr>"
| "b_rel r BDone \<longleftrightarrow> True"

definition calm :: "reassembler \<Rightarrow> bool" where
  "calm r \<longleftrightarrow> re_curTextParts r = [] \<and> re_curThinkingParts r = []
     \<and> re_textIndex r = -1 \<and> re_thinkingIndex r = -1"

text \<open>\<open>touches i r r'\<close>: only block \<open>i\<close> changed, and calls were only added.\<close>

definition touches :: "int \<Rightarrow> reassembler \<Rightarrow> reassembler \<Rightarrow> bool" where
  "touches i r r' \<longleftrightarrow> (\<forall>j. j \<noteq> i \<longrightarrow> map_of (re_tools r') j = map_of (re_tools r) j
       \<and> map_of (re_results r') j = map_of (re_results r) j)
     \<and> (\<exists>ts. calls_of r' = calls_of r @ ts) \<and> (calm r \<longrightarrow> calm r')"

lemma find_append: "find P (xs @ ys) = (case find P xs of Some x \<Rightarrow> Some x | None \<Rightarrow> find P ys)"
  by (induction xs) auto

lemma known_call_mono: "\<lbrakk>touches i r r'; known_call r u\<rbrakk> \<Longrightarrow> known_call r' u"
  by (auto simp: touches_def known_call_def find_append)

lemma executions_mono:
  "\<lbrakk>touches i r r'; known_call r u\<rbrakk> \<Longrightarrow> executions_of (calls_of r') u ds = executions_of (calls_of r) u ds"
  by (auto simp: touches_def known_call_def executions_of_def find_append)

lemma b_rel_frame: "\<lbrakk>touches i r r'; b_rel r b; i \<notin> set (b_idx b)\<rbrakk> \<Longrightarrow> b_rel r' b"
  by (cases b) (auto simp: touches_def known_call_mono)

lemma b_execs_frame: "\<lbrakk>touches i r r'; b_rel r b\<rbrakk> \<Longrightarrow> b_execs (calls_of r') b = b_execs (calls_of r) b"
  by (cases b) (simp_all add: executions_mono)

lemma calm_close:
  "calm r \<Longrightarrow> closeThinkingBlock (closeTextBlock r) = r"
  by (simp add: calm_def close_defs)

section \<open>One step\<close>

text \<open>\<open>moved r b r' b'\<close>: the block went from \<open>b\<close> to \<open>b'\<close>; nothing of it is lost or counted twice.\<close>

fun in_flight_tool :: "int \<Rightarrow> bstate \<Rightarrow> bool" where
  "in_flight_tool j (TOpen i u n got ds) \<longleftrightarrow> i = j"
| "in_flight_tool j _ \<longleftrightarrow> False"

fun in_flight_result :: "int \<Rightarrow> bstate \<Rightarrow> bool" where
  "in_flight_result j (ROpen i u got ds) \<longleftrightarrow> i = j"
| "in_flight_result j _ \<longleftrightarrow> False"

definition moved :: "reassembler \<Rightarrow> bstate \<Rightarrow> reassembler \<Rightarrow> bstate \<Rightarrow> bool" where
  "moved r b r' b' \<longleftrightarrow> (\<exists>i. b_idx b = [i] \<and> set (b_idx b') \<subseteq> {i} \<and> touches i r r' \<and> b_rel r' b'
     \<and> mset (calls_of r') + mset (b_tools b') = mset (calls_of r) + mset (b_tools b)
     \<and> mset (PS_Executions (re_result r')) + mset (b_execs (calls_of r') b')
         = mset (PS_Executions (re_result r)) + mset (b_execs (calls_of r) b)
     \<and> (map_of (re_tools r') i \<noteq> None \<longrightarrow> in_flight_tool i b')
     \<and> (map_of (re_results r') i \<noteq> None \<longrightarrow> in_flight_result i b'))"

lemmas moved_intro = moved_def touches_def calm_def known_call_def update_conv' delete_conv'

lemma moved_TFresh:
  assumes "calm r" and "b_rel r (TFresh i u n ds)" and "map_of (re_results r) i = None"
  shows "moved r (TFresh i u n ds) (handle ord (tool_use_event i u n) r) (TOpen i u n [] ds)"
  using assms calm_close [OF assms(1)] by (simp add: handled Let_def) (simp add: moved_intro)

lemma moved_TOpen:
  assumes "calm r" and "b_rel r (TOpen i u n got (d # ds))" and "map_of (re_results r) i = None"
  shows "moved r (TOpen i u n got (d # ds)) (handle ord (tool_input_event i d) r) (TOpen i u n (got @ [d]) ds)"
  using assms by (simp add: handled) (simp add: moved_intro)

lemma moved_TStop:
  assumes "calm r" and "b_rel r (TOpen i u n got [])" and "map_of (re_results r) i = None"
  shows "moved r (TOpen i u n got []) (handle ord (stop_event i) r) BDone"
  using assms
  by (simp add: handled stop_block_def finalizeTool_def Let_def)
    (simp add: moved_intro tool_call_def decoded_text_def)

lemma moved_RFresh:
  assumes "calm r" and "b_rel r (RFresh i u x ds)"
  shows "moved r (RFresh i u x ds) (handle ord (tool_result_event i u x) r) (ROpen i u [] ds)"
  using assms calm_close [OF assms(1)] by (simp add: handled Let_def) (simp add: moved_intro)

lemma moved_ROpen:
  assumes "calm r" and "b_rel r (ROpen i u got (d # ds))"
  shows "moved r (ROpen i u got (d # ds)) (handle ord (tool_text_event i d) r) (ROpen i u (got @ [d]) ds)"
  using assms by (simp add: handled) (simp add: moved_intro)

lemma moved_RStop:
  assumes "calm r" and "b_rel r (ROpen i u got [])"
  shows "moved r (ROpen i u got []) (handle ord (stop_event i) r) BDone"
  using assms
  by (simp add: handled stop_block_def finalizeResult_def decoded_text_def Let_def split: option.split)
    (auto simp: moved_intro executions_of_def decoded_text_def)

lemma b_step:
  assumes "calm r" and "b_rel r b" and "b_events b = e # es"
    and "\<And>i. i \<in> set (b_idx b) \<Longrightarrow> \<not> in_flight_result i b \<Longrightarrow> map_of (re_results r) i = None"
  shows "b_events (b_next b) = es \<and> moved r b (handle ord e r) (b_next b)"
proof (cases b)
  case (TFresh i u n ds)
  with assms moved_TFresh show ?thesis by auto
next
  case (TOpen i u n got ds)
  with assms moved_TOpen moved_TStop show ?thesis by (cases ds) auto
next
  case (RFresh i u x ds)
  with assms moved_RFresh show ?thesis by auto
next
  case (ROpen i u got ds)
  with assms moved_ROpen moved_RStop show ?thesis by (cases ds) auto
next
  case BDone
  with assms show ?thesis by simp
qed

section \<open>All steps\<close>

definition par_inv :: "bstate list \<Rightarrow> reassembler \<Rightarrow> bool" where
  "par_inv bs r \<longleftrightarrow> calm r \<and> distinct (concat (map b_idx bs)) \<and> (\<forall>b \<in> set bs. b_rel r b)
     \<and> (\<forall>j. map_of (re_tools r) j \<noteq> None \<longrightarrow> (\<exists>b \<in> set bs. in_flight_tool j b))
     \<and> (\<forall>j. map_of (re_results r) j \<noteq> None \<longrightarrow> (\<exists>b \<in> set bs. in_flight_result j b))"

lemma in_flight_idx: "in_flight_tool j b \<or> in_flight_result j b \<Longrightarrow> b_idx b = [j]"
  by (cases b) auto

text \<open>Only one block has a given index.\<close>

lemma split_idx:
  assumes "distinct (concat (map b_idx (as @ b # cs)))" and "b_idx b = [i]" and "c \<in> set as \<union> set cs"
  shows "i \<notin> set (b_idx c)"
  using assms by (fastforce simp: )

lemma b_idx_short: "length (b_idx b) \<le> 1"
  by (cases b) simp_all

lemma swap_middle:
  assumes "mset x' + mset q' = mset x + mset q"
  shows "mset x' + mset (concat (map f as @ q' # map f cs)) = mset x + mset (concat (map f as @ q # map f cs))"
proof -
  have "mset y + mset (concat (map f as @ p # map f cs))
      = (mset y + mset p) + (mset (concat (map f as)) + mset (concat (map f cs)))" for y p
    by (simp add: ac_simps)
  with assms show ?thesis by metis
qed

lemma par_step:
  assumes inv: "par_inv (as @ b # cs) r" and ev: "b_events b = e # es"
  shows "b_events (b_next b) = es \<and> par_inv (as @ b_next b # cs) (handle ord e r)
    \<and> mset (calls_of (handle ord e r)) + mset (concat (map b_tools (as @ b_next b # cs)))
        = mset (calls_of r) + mset (concat (map b_tools (as @ b # cs)))
    \<and> mset (PS_Executions (re_result (handle ord e r)))
          + mset (concat (map (b_execs (calls_of (handle ord e r))) (as @ b_next b # cs)))
        = mset (PS_Executions (re_result r)) + mset (concat (map (b_execs (calls_of r)) (as @ b # cs)))"
proof -
  let ?r = "handle ord e r" and ?b = "b_next b"
  have dist: "distinct (concat (map b_idx (as @ b # cs)))" and calm: "calm r"
    and rel: "\<And>c. c \<in> set (as @ b # cs) \<Longrightarrow> b_rel r c"
    and tools: "\<And>j. map_of (re_tools r) j \<noteq> None \<Longrightarrow> \<exists>c \<in> set (as @ b # cs). in_flight_tool j c"
    and results: "\<And>j. map_of (re_results r) j \<noteq> None \<Longrightarrow> \<exists>c \<in> set (as @ b # cs). in_flight_result j c"
    using inv by (auto simp: par_inv_def)
  have own: "map_of (re_results r) i = None" if "i \<in> set (b_idx b)" "\<not> in_flight_result i b" for i
  proof (rule ccontr)
    assume "map_of (re_results r) i \<noteq> None"
    from results [OF this] obtain c where c: "c \<in> set (as @ b # cs)" "in_flight_result i c" by blast
    with that have "c \<in> set as \<union> set cs" by auto
    moreover have "b_idx b = [i]" using that(1) by (cases b) auto
    moreover have "b_idx c = [i]" using in_flight_idx c(2) by blast
    ultimately show False using split_idx [OF dist] by fastforce
  qed
  from b_step [OF calm rel ev own, of ord] have step: "b_events ?b = es" "moved r b ?r ?b" by auto
  from step(2) obtain i where i: "b_idx b = [i]" "set (b_idx ?b) \<subseteq> {i}" "touches i r ?r" "b_rel ?r ?b"
    "mset (calls_of ?r) + mset (b_tools ?b) = mset (calls_of r) + mset (b_tools b)"
    "mset (PS_Executions (re_result ?r)) + mset (b_execs (calls_of ?r) ?b)
       = mset (PS_Executions (re_result r)) + mset (b_execs (calls_of r) b)"
    "map_of (re_tools ?r) i \<noteq> None \<longrightarrow> in_flight_tool i ?b" "map_of (re_results ?r) i \<noteq> None \<longrightarrow> in_flight_result i ?b"
    by (auto simp: moved_def)
  have others: "i \<notin> set (b_idx c)" if "c \<in> set as \<union> set cs" for c
    by (rule split_idx [OF dist i(1) that])
  have rel': "b_rel ?r c" if "c \<in> set as \<union> set cs" for c
    using b_rel_frame [OF i(3) _ others [OF that]] rel that by auto
  have execs: "map (b_execs (calls_of ?r)) as = map (b_execs (calls_of r)) as"
    "map (b_execs (calls_of ?r)) cs = map (b_execs (calls_of r)) cs"
    using b_execs_frame [OF i(3)] rel by auto
  have "length (b_idx ?b) \<le> 1" by (rule b_idx_short)
  then have "distinct (concat (map b_idx (as @ ?b # cs)))"
    using dist i(1,2) by (cases "b_idx ?b") (auto simp: distinct_append)
  moreover have "calm ?r" using i(3) calm by (simp add: touches_def)
  moreover have "\<exists>c \<in> set (as @ ?b # cs). in_flight_tool j c" if "map_of (re_tools ?r) j \<noteq> None" for j
  proof (cases "j = i")
    case True
    with that i(7) show ?thesis by auto
  next
    case False
    with that i(3) have "map_of (re_tools r) j \<noteq> None" by (simp add: touches_def)
    from tools [OF this] False in_flight_idx i(1) show ?thesis by fastforce
  qed
  moreover have "\<exists>c \<in> set (as @ ?b # cs). in_flight_result j c" if "map_of (re_results ?r) j \<noteq> None" for j
  proof (cases "j = i")
    case True
    with that i(8) show ?thesis by auto
  next
    case False
    with that i(3) have "map_of (re_results r) j \<noteq> None" by (simp add: touches_def)
    from results [OF this] False in_flight_idx i(1) show ?thesis by fastforce
  qed
  ultimately have "par_inv (as @ ?b # cs) ?r"
    using rel' i(4) by (auto simp: par_inv_def)
  moreover have "mset (calls_of ?r) + mset (concat (map b_tools (as @ ?b # cs)))
      = mset (calls_of r) + mset (concat (map b_tools (as @ b # cs)))"
    using swap_middle [OF i(5), of b_tools as cs] by simp
  moreover have "mset (PS_Executions (re_result ?r)) + mset (concat (map (b_execs (calls_of ?r)) (as @ ?b # cs)))
      = mset (PS_Executions (re_result r)) + mset (concat (map (b_execs (calls_of r)) (as @ b # cs)))"
    using swap_middle [OF i(6), of "b_execs (calls_of r)" as cs] by (simp add: execs)
  ultimately show ?thesis using step(1) by blast
qed

lemma par_run:
  assumes "interleaved xss es" and "xss = map b_events bs" and "par_inv bs r"
  shows "idle (handle_all ord es r)
    \<and> mset (calls_of (handle_all ord es r)) = mset (calls_of r) + mset (concat (map b_tools bs))
    \<and> mset (PS_Executions (re_result (handle_all ord es r)))
        = mset (PS_Executions (re_result r)) + mset (concat (map (b_execs (calls_of r)) bs))"
  using assms
proof (induction arbitrary: bs r rule: interleaved.induct)
  case (il_done xss)
  have ev: "b_events b = [] \<longleftrightarrow> b = BDone" for b by (cases b) auto
  then have fin: "b = BDone" if "b \<in> set bs" for b
    using il_done.hyps il_done.prems(1) that by (auto simp: list_all_iff)
  then have "\<forall>b \<in> set bs. b_tools b = [] \<and> b_execs (calls_of r) b = []" by force
  then have "concat (map b_tools bs) = []" "concat (map (b_execs (calls_of r)) bs) = []" by auto
  moreover have none: "map_of (re_tools r) j = None" "map_of (re_results r) j = None" for j
    using il_done.prems(2) fin by (force simp: par_inv_def)+
  have "xs = []" if "\<And>j. map_of xs j = None" for xs :: "(int \<times> 'x) list"
  proof (rule ccontr)
    assume "xs \<noteq> []"
    then show False using that [of "fst (hd xs)"] by (cases xs) auto
  qed
  with none have "re_tools r = []" "re_results r = []" by blast+
  ultimately show ?case using il_done.prems(2) by (simp add: idle_def par_inv_def calm_def)
next
  case (il_step k xss e xs ys)
  then have k: "k < length bs" "b_events (bs ! k) = e # xs" by auto
  let ?as = "take k bs" and ?b = "bs ! k" and ?cs = "drop (Suc k) bs"
  have bs: "?as @ ?b # ?cs = bs" by (simp add: id_take_nth_drop [OF k(1), symmetric])
  have inv: "par_inv (?as @ ?b # ?cs) r" using il_step.prems(2) by (simp only: bs)
  note step = par_step [OF inv k(2), of ord]
  let ?bs = "?as @ b_next ?b # ?cs" and ?r = "handle ord e r"
  have upd: "?bs = bs[k := b_next ?b]" using k(1) by (simp add: upd_conv_take_nth_drop)
  have "xss[k := xs] = map b_events ?bs"
    unfolding upd using step il_step.prems(1) by (simp add: map_update)
  from il_step.IH [OF this, of ?r] step show ?case by (simp only: handle_all.simps bs)
qed

section \<open>Parallel blocks\<close>

fun seg_calls :: "seg \<Rightarrow> ToolCall list" where
  "seg_calls (ToolSeg u n ts) = [tool_call u n ts]"
| "seg_calls _ = []"

fun seg_execs :: "ToolCall list \<Rightarrow> seg \<Rightarrow> ToolExecution list" where
  "seg_execs calls (ResultSeg u x ts) = executions_of calls u ts"
| "seg_execs calls _ = []"

text \<open>A tool block, or a result block for a call that was already reported.\<close>

fun parallel_ok :: "reassembler \<Rightarrow> seg \<Rightarrow> bool" where
  "parallel_ok r (ToolSeg u n ts) \<longleftrightarrow> True"
| "parallel_ok r (ResultSeg u x ts) \<longleftrightarrow> known_call r u"
| "parallel_ok r _ \<longleftrightarrow> False"

fun fresh_block :: "int \<times> seg \<Rightarrow> bstate" where
  "fresh_block (i, ToolSeg u n ts) = TFresh i u n ts"
| "fresh_block (i, ResultSeg u x ts) = RFresh i u x ts"
| "fresh_block _ = BDone"

lemma fresh_block_simps:
  assumes "parallel_ok r s"
  shows "b_events (fresh_block (i, s)) = seg_events i s" "b_idx (fresh_block (i, s)) = [i]"
    "b_tools (fresh_block (i, s)) = seg_calls s" "b_execs calls (fresh_block (i, s)) = seg_execs calls s"
    "idle r \<Longrightarrow> int64_range i \<Longrightarrow> b_rel r (fresh_block (i, s))"
  using assms by (cases s; simp add: idle_def)+

lemma parallel_run:
  assumes "idle r" and "distinct (map fst ibs)" and "\<And>i s. (i, s) \<in> set ibs \<Longrightarrow> int64_range i \<and> parallel_ok r s"
    and "interleaved (map (\<lambda>(i, s). seg_events i s) ibs) es"
  shows "idle (handle_all ord es r)
    \<and> mset (calls_of (handle_all ord es r)) = mset (calls_of r) + mset (concat (map (seg_calls \<circ> snd) ibs))
    \<and> mset (PS_Executions (re_result (handle_all ord es r)))
        = mset (PS_Executions (re_result r)) + mset (concat (map (seg_execs (calls_of r) \<circ> snd) ibs))"
proof -
  let ?bs = "map fresh_block ibs"
  have x: "b_events (fresh_block x) = seg_events (fst x) (snd x) \<and> b_idx (fresh_block x) = [fst x]
      \<and> b_tools (fresh_block x) = seg_calls (snd x) \<and> b_execs (calls_of r) (fresh_block x) = seg_execs (calls_of r) (snd x)
      \<and> b_rel r (fresh_block x)" if "x \<in> set ibs" for x
    using assms(1) assms(3) [of "fst x" "snd x"] that fresh_block_simps [where r = r and s = "snd x" and i = "fst x"] by simp
  then have eqs: "map (\<lambda>(i, s). seg_events i s) ibs = map b_events ?bs" "map b_idx ?bs = map (\<lambda>x. [fst x]) ibs"
    "map b_tools ?bs = map (seg_calls \<circ> snd) ibs"
    "map (b_execs (calls_of r)) ?bs = map (seg_execs (calls_of r) \<circ> snd) ibs"
    by (simp_all add: case_prod_beta)
  have "concat (map (\<lambda>x. [fst x]) ibs) = map fst ibs" by (induction ibs) auto
  then have "par_inv ?bs r"
    unfolding par_inv_def eqs(2) using assms(1,2) x by (auto simp: calm_def idle_def)
  from par_run [OF assms(4) eqs(1) this] show ?thesis by (simp only: eqs(3,4))
qed

text \<open>
  C21. Parallel tools: tool and result blocks with different indices, interleaved in any way
  that keeps each block's own events in order, are reassembled to the calls and executions
  each of them stands for, whatever the interleaving: every delta reaches its own block, no
  call or result is lost or counted twice, and nothing stays in flight.
\<close>

theorem parallel_blocks_reassembled:
  assumes "idle r" and "distinct (map fst ibs)" and "\<forall>(i, s) \<in> set ibs. int64_range i \<and> parallel_ok r s"
    and "interleaved (map (\<lambda>(i, s). seg_events i s) ibs) es"
  shows "idle (handle_all ord es r)
    \<and> mset (PS_Tools (view (handle_all ord es r)))
        = mset (PS_Tools (view r)) + mset (concat (map (seg_calls \<circ> snd) ibs))
    \<and> mset (PS_Executions (view (handle_all ord es r)))
        = mset (PS_Executions (view r)) + mset (concat (map (seg_execs (PS_Tools (view r)) \<circ> snd) ibs))"
  using parallel_run [OF assms(1,2) _ assms(4)] assms(3) by (auto simp: view_def)

theorem parallel_blocks_reassembled_witness:
  "mset (PS_Tools (view (handle_all rev
      [tool_use_event 0 ''a'' ''ls'', tool_use_event 1 ''b'' ''cat'', tool_input_event 0 ''{'', tool_input_event 1 ''[]'',
       stop_event 1, tool_input_event 0 ''}'', stop_event 0] new_reassembler)))
   = {# \<lparr>TC_Name = ''ls'', TC_Params = ''{}'', TC_ToolUseID = ''a''\<rparr>,
        \<lparr>TC_Name = ''cat'', TC_Params = ''[]'', TC_ToolUseID = ''b''\<rparr> #}"
proof -
  let ?xss = "map (\<lambda>(i, s). seg_events i s) [(0, ToolSeg ''a'' ''ls'' [''{'', ''}'']), (1, ToolSeg ''b'' ''cat'' [''[]''])]"
  have "interleaved ?xss [tool_use_event 0 ''a'' ''ls'', tool_use_event 1 ''b'' ''cat'', tool_input_event 0 ''{'',
      tool_input_event 1 ''[]'', stop_event 1, tool_input_event 0 ''}'', stop_event 0]"
    by (rule il_step [where k = 0], simp, simp, rule il_step [where k = 1], simp, simp,
        rule il_step [where k = 0], simp, simp, rule il_step [where k = 1], simp, simp,
        rule il_step [where k = 1], simp, simp, rule il_step [where k = 0], simp, simp,
        rule il_step [where k = 0], simp, simp, rule il_done, simp)
  moreover have "idle new_reassembler" "PS_Tools (view new_reassembler) = []"
    by (simp_all add: idle_def new_reassembler_def view_def empty_stream_def)
  ultimately show ?thesis
    using parallel_blocks_reassembled [of new_reassembler
        "[(0, ToolSeg ''a'' ''ls'' [''{'', ''}'']), (1, ToolSeg ''b'' ''cat'' [''[]''])]" _ rev]
    by (simp add: int64_range_def tool_call_def decoded_text_def to_valid_ascii del: handle_all.simps)
qed

section \<open>The order of ranging over the maps\<close>

definition keys_ok :: "reassembler \<Rightarrow> bool" where
  "keys_ok r \<longleftrightarrow> distinct (map fst (re_tools r))"

lemma keys_ok_close [simp]:
  "keys_ok (closeTextBlock r) = keys_ok r" "keys_ok (closeThinkingBlock r) = keys_ok r"
  by (simp_all add: keys_ok_def close_defs Let_def)

lemma keys_ok_upd [simp]:
  "keys_ok (r\<lparr>re_result := a\<rparr>) = keys_ok r" "keys_ok (r\<lparr>re_results := c\<rparr>) = keys_ok r"
  "keys_ok (r\<lparr>re_textIndex := d\<rparr>) = keys_ok r" "keys_ok (r\<lparr>re_thinkingIndex := d\<rparr>) = keys_ok r"
  "keys_ok (r\<lparr>re_curThinkingParts := f\<rparr>) = keys_ok r" "keys_ok (r\<lparr>re_curTextParts := g\<rparr>) = keys_ok r"
  "keys_ok (r\<lparr>re_result := a, re_tools := b\<rparr>) = keys_ok (r\<lparr>re_tools := b\<rparr>)"
  by (simp_all add: keys_ok_def)

lemma keys_ok_tools:
  "keys_ok r \<Longrightarrow> re_tools q = re_tools r \<Longrightarrow> keys_ok (q\<lparr>re_tools := AList.update i b (re_tools r)\<rparr>)"
  "keys_ok r \<Longrightarrow> re_tools q = re_tools r \<Longrightarrow> keys_ok (q\<lparr>re_tools := AList.delete i (re_tools r)\<rparr>)"
  by (simp_all add: keys_ok_def distinct_update distinct_delete)

lemma tools_finalize [simp]:
  "re_tools (finalizeTool t r) = re_tools r" "re_tools (finalizeResult u r) = re_tools r"
  by (simp_all add: finalizeTool_def finalizeResult_def Let_def split: option.split)

lemma tools_close [simp]: "re_tools (closeTextBlock r) = re_tools r" "re_tools (closeThinkingBlock r) = re_tools r"
  by (simp_all add: close_defs Let_def)

lemma keys_ok_handle: "\<lbrakk>keys_ok r; not_stop e\<rbrakk> \<Longrightarrow> keys_ok (handle ord e r)"
proof -
  assume k: "keys_ok r" and e: "not_stop e"
  have fin: "keys_ok (finalizeResult u r)" for u using k by (simp add: keys_ok_def)
  have "keys_ok (onMessageStart d r)" for d
    using k by (simp add: onMessageStart_def split: option.split)
  moreover have "keys_ok (onContentBlockStart d r)" for d
    using k by (auto simp: onContentBlockStart_def start_tool_use_def start_tool_result_def
        startTextThinkingOrUnknown_def Let_def keys_ok_def distinct_update split: option.split)
  moreover have "keys_ok (onContentBlockDelta d r)" for d
    using k by (auto simp: onContentBlockDelta_def handleTextOrThinkingDelta_def handleTextDelta_def
        handleThinkingDelta_def tool_input_delta_def tool_result_delta_def keys_ok_tools split: option.split)
  moreover have "keys_ok (onContentBlockStop d r)" for d
    using k fin by (auto simp: onContentBlockStop_def stop_block_def Let_def keys_ok_tools split: option.split)
  ultimately show ?thesis using k e by (simp add: handle_def handleEvent_def not_stop_def)
qed

lemma keys_ok_handle_all: "\<lbrakk>keys_ok r; list_all not_stop es\<rbrakk> \<Longrightarrow> keys_ok (handle_all ord es r)"
  by (induction es arbitrary: r) (simp_all add: keys_ok_handle)

lemma handle_all_ord: "list_all not_stop es \<Longrightarrow> handle_all ord es r = handle_all ord' es r"
  by (induction es arbitrary: r) (simp_all add: handle_def handleEvent_def not_stop_def)

text \<open>The calls that flushing the blocks with the given keys reports.\<close>

definition flushed_call :: "(int \<times> inflightTool) list \<Rightarrow> int \<Rightarrow> ToolCall list" where
  "flushed_call tools k = (case map_of tools k of None \<Rightarrow> []
     | Some t \<Rightarrow> calls_of (finalizeTool t new_reassembler))"

lemma calls_flush_tool: "calls_of (flush_tool k r) = calls_of r @ flushed_call (re_tools r) k"
  by (simp add: flush_tool_def flushed_call_def finalizeTool_def Let_def new_reassembler_def empty_stream_def
      split: option.split)

lemma tools_flush_tool: "map_of (re_tools (flush_tool k r)) = (map_of (re_tools r))(k := None)"
  by (auto simp: flush_tool_def delete_conv' split: option.split)

lemma calls_flush_tools:
  "distinct ks \<Longrightarrow> calls_of (fold flush_tool ks r) = calls_of r @ concat (map (flushed_call (re_tools r)) ks)"
proof (induction ks arbitrary: r)
  case (Cons k ks)
  have "map (flushed_call (re_tools (flush_tool k r))) ks = map (flushed_call (re_tools r)) ks"
    using Cons.prems by (auto simp: flushed_call_def tools_flush_tool)
  moreover have "calls_of (fold flush_tool ks (flush_tool k r))
      = calls_of (flush_tool k r) @ concat (map (flushed_call (re_tools (flush_tool k r))) ks)"
    by (rule Cons.IH) (use Cons.prems in simp)
  ultimately show ?case by (simp only: fold_simps list.map concat.simps calls_flush_tool append_assoc)
qed simp

lemma calls_flush_results [simp]: "calls_of (fold flush_result ks r) = calls_of r"
  by (rule fold_keeps) (simp add: flush_result_def finalizeResult_def Let_def split: option.split)

lemma calls_close [simp]: "calls_of (closeTextBlock r) = calls_of r" "calls_of (closeThinkingBlock r) = calls_of r"
  by (simp_all add: close_defs Let_def)

lemma calls_finalize:
  assumes "map_order ord" and "keys_ok r"
  shows "mset (calls_of (finalize ord r))
    = mset (calls_of r) + (\<Sum>k \<in># mset (map fst (re_tools r)). mset (flushed_call (re_tools r) k))"
proof -
  have o: "mset (ord (map fst (re_tools r))) = mset (map fst (re_tools r))" using assms(1) by (simp add: map_order_def)
  then have "distinct (ord (map fst (re_tools r)))"
    using assms(2) mset_eq_imp_distinct_iff by (fastforce simp: keys_ok_def)
  then have "calls_of (finalize ord r) = calls_of r @ concat (map (flushed_call (re_tools r)) (ord (map fst (re_tools r))))"
    by (simp add: finalize_def flushAll_def Let_def calls_flush_tools)
  moreover have "mset (concat (map (flushed_call (re_tools r)) ks)) = (\<Sum>k \<in># mset ks. mset (flushed_call (re_tools r) k))" for ks
    by (induction ks) simp_all
  ultimately show ?thesis by (simp add: o del: mset_map)
qed

lemma allThinking_flush [simp]:
  "re_allThinkingParts (fold flush_tool ks r) = re_allThinkingParts r"
  "re_allThinkingParts (fold flush_result ks r) = re_allThinkingParts r"
  by (rule fold_keeps, simp add: flush_tool_def flush_result_def finalizeTool_def finalizeResult_def Let_def
      split: option.split)+

text \<open>
  C24. The order in which the code ranges over its maps, which Go leaves open, cannot be seen in
  the text or the reasoning, nor in which tool calls are reported, and how often each is.
\<close>

theorem map_order_irrelevant:
  assumes "map_order ord" and "map_order ord'"
  shows "PS_Text (reassemble_events ord es) = PS_Text (reassemble_events ord' es)
    \<and> PS_Thinking (reassemble_events ord es) = PS_Thinking (reassemble_events ord' es)
    \<and> mset (PS_Tools (reassemble_events ord es)) = mset (PS_Tools (reassemble_events ord' es))"
proof -
  let ?es = "takeWhile not_stop es"
  have ns: "list_all not_stop ?es" by (auto simp: list_all_iff dest: set_takeWhileD)
  obtain r where r: "r = handle_all ord ?es new_reassembler" "r = handle_all ord' ?es new_reassembler"
    using handle_all_ord [OF ns] by metis
  have "keys_ok r" using keys_ok_handle_all [OF _ ns] r(1) by (simp add: keys_ok_def new_reassembler_def)
  from calls_finalize [OF assms(1) this] calls_finalize [OF assms(2) this] show ?thesis
    unfolding reassembled_text unfolding reassemble_events_def r(1) [symmetric] r(2) [symmetric]
    by (simp add: finalize_def flushAll_def Let_def)
qed

theorem map_order_irrelevant_witness:
  "mset (PS_Tools (reassemble_events rev [tool_use_event 0 ''a'' ''ls'', tool_use_event 1 ''b'' ''cat'']))
   = mset (PS_Tools (reassemble_events (\<lambda>ks. ks) [tool_use_event 0 ''a'' ''ls'', tool_use_event 1 ''b'' ''cat'']))"
  using map_order_irrelevant [of rev "\<lambda>ks. ks"] by (simp add: map_order_def)

section \<open>Where the code does something else than its comments say\<close>

text \<open>Members that are not read as a given field leave it alone.\<close>

lemma dec_members_append: "dec_members fs r (ms @ ns) = Option.bind (dec_members fs r ms) (\<lambda>r'. dec_members fs r' ns)"
  by (induction fs r ms rule: dec_members.induct) (auto split: option.split bind_splits)

definition no_field :: "string \<Rightarrow> (string \<times> jval) list \<Rightarrow> bool" where
  "no_field f ms \<longleftrightarrow> (\<forall>(k, v) \<in> set ms. fold_name k \<noteq> fold_name f)"

lemma dec_members_keeps:
  assumes "\<And>k g r v r'. \<lbrakk>find_field fs k = Some g; fold_name k \<noteq> fold_name f; g r v = Some r'\<rbrakk> \<Longrightarrow> sel r' = sel r"
    and "no_field f ms" and "dec_members fs r ms = Some r'"
  shows "sel r' = sel r"
  using assms(2,3)
proof (induction ms arbitrary: r)
  case (Cons m ms)
  obtain k v where m: "m = (k, v)" by force
  with Cons.prems obtain r1 where r1: "(case find_field fs k of None \<Rightarrow> Some r | Some g \<Rightarrow> g r v) = Some r1"
      "dec_members fs r1 ms = Some r'" "fold_name k \<noteq> fold_name f" "no_field f ms"
    by (auto simp: no_field_def bind_eq_Some_conv)
  with assms(1) [of k _ r v r1] have "sel r1 = sel r" by (auto split: option.splits)
  with Cons.IH r1 show ?case by simp
qed simp

definition index_zero :: "(string \<times> jval) list" where
  "index_zero = [(''index'', JNum ''0'')]"

lemma dec_index_zero: "int_of_literal ''0'' = Some 0"
  by code_simp

lemma index_unchanged:
  "CBP_Index x = 0 \<Longrightarrow> x\<lparr>CBP_Index := 0\<rparr> = x"
  "CTU_Index y = 0 \<Longrightarrow> y\<lparr>CTU_Index := 0\<rparr> = y"
  "CTR_Index z = 0 \<Longrightarrow> z\<lparr>CTR_Index := 0\<rparr> = z"
  by (cases x; cases y; cases z; simp)+

lemma dec_members_index_zero:
  assumes "\<And>k g r v r'. \<lbrakk>find_field fs k = Some g; fold_name k \<noteq> fold_name ''index''; g r v = Some r'\<rbrakk> \<Longrightarrow> sel r' = sel r"
    and "\<And>r. sel r = sel z \<Longrightarrow> (case find_field fs ''index'' of None \<Rightarrow> Some r | Some g \<Rightarrow> g r (JNum ''0'')) = Some r"
    and "no_field ''index'' ms"
  shows "dec_members fs z (ms @ index_zero) = dec_members fs z ms"
proof (cases "dec_members fs z ms")
  case (Some r)
  from dec_members_keeps [where sel = sel, OF assms(1) assms(3) Some] have "sel r = sel z" .
  from assms(2) [OF this] Some show ?thesis
    by (simp add: dec_members_append index_zero_def)
qed (simp add: dec_members_append)

lemma ContentBlockStopData_missing_index:
  assumes "no_field ''index'' ms"
  shows "dec_ContentBlockStopData \<lparr>CBP_Type = t, CBP_Index = 0\<rparr> (JObj (ms @ index_zero)) = dec_ContentBlockStopData \<lparr>CBP_Type = t, CBP_Index = 0\<rparr> (JObj ms)"
  unfolding dec_ContentBlockStopData_def dec_struct.simps
proof (rule dec_members_index_zero [where sel = CBP_Index])
qed (auto simp: find_field_def dec_index_zero index_unchanged assms split: if_splits)

lemma ContentBlockStartToolUseData_missing_index:
  assumes "no_field ''index'' ms"
  shows "dec_ContentBlockStartToolUseData \<lparr>CTU_Type = t, CTU_Index = 0, CTU_ContentBlock = b\<rparr> (JObj (ms @ index_zero)) = dec_ContentBlockStartToolUseData \<lparr>CTU_Type = t, CTU_Index = 0, CTU_ContentBlock = b\<rparr> (JObj ms)"
  unfolding dec_ContentBlockStartToolUseData_def dec_struct.simps
proof (rule dec_members_index_zero [where sel = CTU_Index])
qed (auto simp: find_field_def dec_index_zero index_unchanged assms split: if_splits)

lemma ContentBlockStartToolResultData_missing_index:
  assumes "no_field ''index'' ms"
  shows "dec_ContentBlockStartToolResultData \<lparr>CTR_Type = t, CTR_Index = 0, CTR_ContentBlock = b\<rparr> (JObj (ms @ index_zero)) = dec_ContentBlockStartToolResultData \<lparr>CTR_Type = t, CTR_Index = 0, CTR_ContentBlock = b\<rparr> (JObj ms)"
  unfolding dec_ContentBlockStartToolResultData_def dec_struct.simps
proof (rule dec_members_index_zero [where sel = CTR_Index])
qed (auto simp: find_field_def dec_index_zero index_unchanged assms split: if_splits)

lemma generic_missing_index:
  assumes "no_field ''index'' ms"
  shows "dec_generic s (JObj (ms @ index_zero)) = dec_generic s (JObj ms)"
  unfolding dec_generic_def dec_struct.simps
proof (rule dec_members_index_zero [where sel = "\<lambda>_. ()"])
qed (auto simp: find_field_def dec_index_zero index_unchanged assms split: if_splits)

lemmas missing_index = ContentBlockStopData_missing_index ContentBlockStartToolUseData_missing_index
  ContentBlockStartToolResultData_missing_index generic_missing_index

text \<open>
  C39. A \<open>content_block_start\<close> without an \<open>index\<close> is not dropped: whatever its block, and however
  the other members are, it is handled exactly as one that carries index 0.
\<close>

theorem missing_index_opens_block_zero:
  assumes "json_parse data = Some (JObj ms)" and "no_field ''index'' ms"
    and "json_parse data' = Some (JObj (ms @ index_zero))"
  shows "handleEvent ord EventTypeContentBlockStart data r = handleEvent ord EventTypeContentBlockStart data' r"
proof -
  have "unmarshal_ContentBlockStopData data = unmarshal_ContentBlockStopData data'"
    "unmarshal_ContentBlockStartToolUseData data = unmarshal_ContentBlockStartToolUseData data'"
    "unmarshal_ContentBlockStartToolResultData data = unmarshal_ContentBlockStartToolResultData data'"
    "unmarshal_generic data = unmarshal_generic data'"
    using missing_index [OF assms(2)] assms(1,3)
    by (simp_all add: json_unmarshal_def unmarshal_ContentBlockStopData_def unmarshal_ContentBlockStartToolUseData_def
        unmarshal_ContentBlockStartToolResultData_def unmarshal_generic_def)
  then show ?thesis
    by (simp add: handleEvent_def event_types_distinct onContentBlockStart_def decoded_def startTextThinkingOrUnknown_def
        split: option.split)
qed

theorem missing_index_opens_block_zero_witness:
  "map_of (re_tools (handleEvent rev EventTypeContentBlockStart
      (print_val (JObj [(''content_block'', JObj [(''type'', JStr ''tool_use''), (''id'', JStr ''t1''), (''name'', JStr ''ls'')])]))
      new_reassembler)) 0 = Some \<lparr>it_name = ''ls'', it_toolUseID = ''t1'', it_params = []\<rparr>"
proof -
  let ?b = "[(''content_block'', JObj [(''type'', JStr ''tool_use''), (''id'', JStr ''t1''), (''name'', JStr ''ls'')])]"
  let ?d = "print_val (JObj ?b)" and ?d' = "print_val (JObj (?b @ index_zero))"
  let ?e' = "print_val (JObj [(''content_block'', JObj [(''type'', JStr ''tool_use''), (''id'', JStr ''t1''), (''name'', JStr ''ls'')]), (''index'', JNum ''0'')])"
  have zero: "''0'' = int_dec 0" by code_simp
  have parse: "json_parse ?d = Some (JObj ?b)" "json_parse ?d' = Some (JObj (?b @ index_zero))"
    unfolding index_zero_def zero
    by (subst json_parse_print; simp add: maxNestingDepth_def to_valid_ascii)+
  note parse' = parse(2) [unfolded index_zero_def append.simps]
  have nf: "no_field ''index'' ?b" by (simp add: no_field_def)
  have "decoded unmarshal_ContentBlockStartToolUseData (\<lambda>x. TUB_Type (CTU_ContentBlock x) = ContentBlockTypeToolUse) ?e'
      = Some \<lparr>CTU_Type = [], CTU_Index = 0,
          CTU_ContentBlock = \<lparr>TUB_Type = ''tool_use'', TUB_ID = ''t1'', TUB_Name = ''ls'', TUB_Input = JNull\<rparr>\<rparr>"
    by (simp add: unmarshal_ContentBlockStartToolUseData_def decoded_def json_unmarshal_def parse' wire_dec
        find_field_def dec_index_zero wire_consts dec_any_def)
  moreover have "unmarshal_ContentBlockStopData ?e' = Some \<lparr>CBP_Type = [], CBP_Index = 0\<rparr>"
    by (simp add: unmarshal_ContentBlockStopData_def json_unmarshal_def parse' wire_dec find_field_def dec_index_zero)
  ultimately show ?thesis
    unfolding missing_index_opens_block_zero [OF parse(1) nf parse(2)]
    by (simp add: index_zero_def handleEvent_def event_types_distinct onContentBlockStart_def start_tool_use_def new_reassembler_def
        close_defs Let_def)
qed



end
