(* ===== verification/Spec2Isabelle.thy ===== *)
theory Spec2Isabelle
  imports Turn_Wire Reassemble_Total Reassemble_Parallel
begin

text \<open>
  essessey streams the turns of a language model to a client as typed events. This development
  models its Go code; file names are relative to \<open>src/\<close>.

  The program. A \<open>Publisher\<close> (\<open>publisher.go\<close>) builds the protocol's events (\<open>types.go\<close>,
  \<open>event.go\<close>) and hands them to a \<open>Sink\<close>. Streamers (\<open>streamer.go\<close>) turn chunks of text into
  content blocks; the elelem adapter (\<open>elelemstream\<close>) turns an engine's callbacks into blocks
  with the right indices. Sinks collect (\<open>memory.go\<close>), fan out (\<open>multisink.go\<close>), retain for
  resumption (\<open>store.go\<close>), write SSE frames (\<open>sse/sink.go\<close>, \<open>sse/codec.go\<close>) or messages
  (\<open>nats/sink.go\<close>, \<open>ws/sink.go\<close>). Sources read the events back: from a list (\<open>memory.go\<close>),
  from a byte stream (\<open>sse/source.go\<close>), from a delivery callback (\<open>nats/source.go\<close>,
  \<open>ws/source.go\<close>). \<open>Reassemble\<close> (\<open>reassemble.go\<close>) folds a source into the texts, tool calls
  and timeline of a turn.

  The theories, in the order they build on each other:

  \<^item> \<open>Prelude\<close>: bytes, errors as chains (\<open>goerr\<close>, \<open>errors_is\<close>), shared by all.
  \<^item> \<open>Utf8\<close>, \<open>Json_String\<close>, \<open>Json\<close>, \<open>Json_Correct\<close>: the part of \<open>encoding/json\<close> and
    \<open>unicode/utf8\<close> the code uses: values, printing with Go's escapes, parsing, and that parsing
    a printed value gives it back with invalid bytes replaced.
  \<^item> \<open>Wire\<close>, \<open>Wire_Roundtrip\<close>: the records of \<open>types.go\<close> and \<open>event.go\<close>, their JSON tags as
    encoders and decoders, and the round trip of every payload.
  \<^item> \<open>Publisher\<close>: \<open>publisher.go\<close>; the interface \<open>Sink\<close> is the locale \<open>sink_contract\<close>, a sink
    that never fails \<open>reliable_sink\<close>. The composite methods refine the plain loop \<open>emit_all\<close>.
  \<^item> \<open>Sinks\<close>: \<open>memory.go\<close>, \<open>multisink.go\<close>; the interface \<open>Source\<close> is the locale
    \<open>event_source\<close>.
  \<^item> \<open>Streamer\<close>: \<open>TextStreamer\<close> and \<open>LineStreamer\<close>, as well-formed blocks on any sink.
  \<^item> \<open>Store\<close>: \<open>store.go\<close>, a ring buffer with an index that refines a bounded log; resumption.
  \<^item> \<open>Sse_Codec\<close>, \<open>Sse_Scanner\<close>, \<open>Sse_Source\<close>, \<open>Sse_Sink\<close>: the \<open>sse\<close> package over any
    reader (\<open>byte_reader\<close>) and writer (\<open>byte_writer\<close>), with \<open>bufio.Scanner\<close> below it.
  \<^item> \<open>Reassemble\<close>, \<open>Reassemble_Parallel\<close>, \<open>Reassemble_Total\<close>: \<open>reassemble.go\<close>, against the
    blocks of a turn (\<open>seg\<close>), one after the other or interleaved, and on any byte stream.
  \<^item> \<open>Queue_Source\<close>: the channel-backed source of the message transports, a step relation over
    goroutines with an invariant, progress, and the case in which \<open>Close\<close> has to wait.
  \<^item> \<open>Message_Sinks\<close>: the NATS and WebSocket sinks, and the way from sink to reader.
  \<^item> \<open>Elelem\<close>, \<open>Elelem_Run\<close>: \<open>elelemstream\<close>, and that its callbacks carry out, on every sink,
    the plan of their rounds (\<open>round_plan\<close>): blocks in order, those of the results all attempted.
  \<^item> \<open>Turn_Wire\<close> and this theory: the components put together; \<open>breaking_writer\<close> is a writer that
    fails for good once it has failed.

  How code and model correspond. A struct is a record, a method a function of the same name
  from the receiver to its result and the next receiver; the world behind a sink, writer or
  publisher is a type variable passed along. An \<open>error\<close> is \<open>goerr option\<close>, and every early
  return is a branch. A method that runs under the value's mutex is one step; \<open>Queue_Source\<close>,
  where a method blocks while it holds the mutex, goes statement by statement. Strings are
  lists of bytes, as in Go.

  Bounds and fuel. The loops of \<open>Reassemble\<close>, of \<open>Next\<close> and of the consumers may run forever
  on a source that never ends and are \<open>partial_function (option)\<close>; the theorems say that they
  return. The JSON parser takes fuel, and \<open>parse_fuel\<close> is shown to be enough for printed values.
  The SSE line buffer is 1 MiB as in the code; the queue holds 64 events as in the code.
  Block indices and sequence numbers are unbounded integers; the theorems that decode indices
  assume that they fit 64 bits.

  Parameters. Readers, writers, flushers, the NATS publisher and the WebSocket connection are
  arguments of the definitions, and so are the NATS messages that arrive, of those published, and
  the subscriber's function from subjects to event types. The order in which Go ranges over a map
  is an argument. The elelem engine is vendored: which callbacks it makes in a round, and what a
  failure stops, is \<open>fire_round\<close> (after \<open>engine.go\<close>), and of its types there are the fields that
  the adapter reads.

  Not modelled: failures of the engine's own (a driver, a tool, a limit), log output (except the fields of \<open>Publish\<close>'s log line), contexts other than
  the one \<open>Next\<close> of a queue waits on, nil publishers of the adapter, package documentation,
  vendored packages, scripts.
\<close>

section \<open>Every event is well formed\<close>

lemma adapter_turn_plan:
  assumes "adapter_turn (NewPublisher emit) a b c rds k t w = (r, v)"
  obtains q where "emit_plan emit (turn_plan a b c rds k t) w = (q, v)" "r = None \<longleftrightarrow> q = None"
proof -
  obtain q u where "emit_plan emit (turn_plan a b c rds k t) w = (q, u)" by force
  with adapter_turn_outcome [of emit a b c rds k t w] assms that show thesis
    by (auto simp: same_outcome_def split: option.splits)
qed

text \<open>
  C13. Whatever the deltas, tool calls and results of a run hold, and wherever its sink fails,
  every event that reaches the sink is well formed: its type is one of the protocol's, and its
  payload is JSON without a control character, hence one line on a line-based transport.
\<close>

theorem turn_events_well_formed:
  assumes "sink_contract emit delivered ok" and "ok w"
    and "adapter_turn (NewPublisher emit) msgID streamID model rds stopReason tokens w = (r, w')"
  shows "\<exists>es. delivered w' = delivered w @ es \<and> list_all wire_event es"
proof -
  let ?phs = "turn_plan msgID streamID model rds stopReason tokens"
  obtain q where "emit_plan emit ?phs w = (q, w')"
    by (rule adapter_turn_plan [OF assms(3)])
  from sink_contract.emit_plan_delivers [OF assms(1,2) this] obtain es where
    "subseq es (plan_events ?phs)" "delivered w' = delivered w @ es" by blast
  with wire_turn show ?thesis
    by (metis list_all_iff notin_set_nthsI subseq_conv_nths turn_plan_events)
qed

section \<open>A run over SSE\<close>

text \<open>
  C1. A run of the engine, streamed through the adapter, the publisher and a \<open>WriterSink\<close>, read
  back by a \<open>Source\<close> in any chunks and reassembled, when every line on the wire fits the
  source's 1 MiB buffer (a longer payload makes \<open>Next\<close> fail). Reassembly returns. If no write
  failed, it gives exactly the reasoning, answers, tool calls and results of all rounds. If a
  write failed, in the middle of a frame perhaps, on a writer that fails from then on, as a
  broken connection does, the answer text is a prefix of it, although the engine goes on
  reporting the results of its round.
\<close>

theorem turn_over_sse:
  assumes "byte_writer wr bytes" and "bytes w = []"
    and "adapter_turn (NewPublisher (WriterSink_Emit (NewWriterSink wr))) msgID streamID model rds stopReason tokens w = (r, w')"
    and "byte_reader rd content io_EOF rok" and "rok i" and "content i = bytes w'" and "lines_fit (bytes w')"
    and "map_order ord" and "int (length (concat (map round_segs rds))) \<le> 2 ^ 63"
  shows "\<exists>p. Reassemble ord (Next rd) (NewSource i) = Some p
    \<and> (let turn = foldl apply_seg (empty_stream\<lparr>PS_StreamID := to_valid_utf8 streamID\<rparr>) (concat (map round_segs rds))
       in (r = None \<longrightarrow> p = turn)
        \<and> (breaking_writer wr bytes broken \<longrightarrow> prefix (PS_Text p) (PS_Text turn)))"
proof -
  let ?W = "WriterSink_Emit (NewWriterSink wr)"
  let ?phs = "turn_plan msgID streamID model rds stopReason tokens"
  let ?es = "turn_events msgID streamID model (concat (map round_segs rds)) stopReason tokens"
  obtain q where q: "emit_plan ?W ?phs w = (q, w')" "r = None \<longleftrightarrow> q = None"
    by (rule adapter_turn_plan [OF assms(3)])
  define p where "p = reassemble_events ord (sse_events (bytes w'))"
  have p: "Reassemble ord (Next rd) (NewSource i) = Some p"
    using event_source.Reassemble_pending [OF clean_reader_source [OF assms(4)], of "NewSource i" ord]
      byte_reader.NewSource_ok [OF assms(4,5)] assms(6,7) by (simp add: p_def)
  have turn: "reassemble_events ord ?es
      = foldl apply_seg (empty_stream\<lparr>PS_StreamID := to_valid_utf8 streamID\<rparr>) (concat (map round_segs rds))"
    using reassemble_turn [OF assms(8,9), where es = "[]"] by simp
  have reads: "\<exists>n. p = reassemble_events ord (take n ?es) \<and> (y = None \<longrightarrow> n = length ?es)"
    if "emit_all ?W ?es w = (y, u)" "bytes u = bytes w'" for y u
    using read_back [OF assms(1,2) that(1) assms(4,5) _ _ plain_turn, of ord] assms(6,7) that(2) p by auto
  have "p = reassemble_events ord ?es" if "r = None"
    using reads [of None w'] q that emit_plan_None [of ?W ?phs w w'] by (auto simp: turn_plan_events)
  moreover have "prefix (PS_Text p) (PS_Text (reassemble_events ord ?es))" if b: "breaking_writer wr bytes broken"
  proof -
    obtain y u where "emit_all ?W ?es w = (y, u)" "bytes u = bytes w'"
      using breaking_writer.emit_plan_bytes [OF b q(1)] by (auto simp: turn_plan_events)
    with reads reassemble_take_text [of ord _ ?es] show ?thesis by blast
  qed
  ultimately show ?thesis by (auto simp: p turn Let_def)
qed

lemma adapter_turn_ok:
  "emit_all emit (turn_events a b c (concat (map round_segs rds)) r k) w = (None, v)
    \<Longrightarrow> adapter_turn (NewPublisher emit) a b c rds r k w = (None, v)"
  using adapter_turn_outcome [of emit a b c rds r k w] emit_plan_None [of emit "turn_plan a b c rds r k" w v]
  by (cases "adapter_turn (NewPublisher emit) a b c rds r k w")
    (auto simp: same_outcome_def turn_plan_events split: option.splits)

definition hello_round :: elelem_round where
  "hello_round = \<lparr>rd_deltas = [\<lparr>ed_Text = ''Hi'', ed_Reasoning = []\<rparr>], rd_calls = []\<rparr>"

lemma hello_segs: "round_segs hello_round = [TextSeg [''Hi'']]"
  by (simp add: round_segs_def call_segs_def hello_round_def round_texts_def content_segs_def tool_segs_def result_segs_def)

lemma hello_short:
  "list_all short_event (turn_events ''m'' ''chat'' ''gpt'' [TextSeg [''Hi'']] StopReasonEndTurn 3)"
proof -
  have short: "short_event (payload_event t d)" if "wire_event (payload_event t d)" "json_marshal d = Inr (print_val v)"
      "print_bound v + 8 \<le> maxLineSize" for t d v
    using that length_print(1) [of v] by (simp add: short_event_def payload_event_def)
  show ?thesis
    unfolding turn_events_def preamble_events_def epilogue_events_def segs_events.simps seg_events.simps
      start_event_def delta_event_def stop_event_def list.map kind_block.simps kind_delta.simps append.simps list.pred_inject
    by (intro conjI, (rule short, rule wire_payloads, simp add: payload_defs,
        simp add: payload_defs wire_enc omit_empty_def maxLineSize_def int_dec_def enc_ptr_def wire_consts nat_dec.simps [of 0] nat_dec.simps [of 3])+) simp
qed

lemma emit_all_buffer:
  "emit_all (WriterSink_Emit (NewWriterSink buffer_write)) es w = (None, w @ concat (map FrameLines es))"
  by (induction es arbitrary: w) (simp_all add: WriterSink_Emit_def NewWriterSink_def buffer_write_def)

theorem turn_over_sse_witness:
  "(\<exists>bytes. adapter_turn (NewPublisher (WriterSink_Emit (NewWriterSink buffer_write))) ''m'' ''chat'' ''gpt''
       [hello_round] (MapStopReason ''stop'' False) 3 [] = (None, bytes)
     \<and> map_option PS_Text (Reassemble rev (Next (chunk_read io_EOF)) (NewSource [bytes])) = Some ''Hi'')
   \<and> (\<exists>r bytes p. adapter_turn (NewPublisher (WriterSink_Emit (NewWriterSink (limited_write 99)))) ''m'' ''chat'' ''gpt''
       [hello_round] StopReasonEndTurn 3 [] = (r, bytes)
     \<and> Reassemble rev (Next (chunk_read io_EOF)) (NewSource (filter (\<lambda>c. c \<noteq> []) [bytes])) = Some p
     \<and> prefix (PS_Text p) ''Hi'')"
proof
  let ?es = "turn_events ''m'' ''chat'' ''gpt'' [TextSeg [''Hi'']] StopReasonEndTurn 3"
  let ?b = "concat (map FrameLines ?es)"
  have hi: "PS_Text (foldl apply_seg (empty_stream\<lparr>PS_StreamID := to_valid_utf8 ''chat''\<rparr>) [TextSeg [''Hi'']]) = ''Hi''"
    by (simp add: decoded_text_def to_valid_ascii empty_stream_def Let_def)
  have ord: "map_order rev" by (simp add: map_order_def)
  have stop: "MapStopReason ''stop'' False = StopReasonEndTurn" by (simp add: MapStopReason_def IsTruncated_def)
  have run: "adapter_turn (NewPublisher (WriterSink_Emit (NewWriterSink buffer_write))) ''m'' ''chat'' ''gpt''
      [hello_round] (MapStopReason ''stop'' False) 3 [] = (None, ?b)"
    by (rule adapter_turn_ok) (simp add: stop hello_segs emit_all_buffer)
  have ne: "?b \<noteq> []" by (simp add: turn_events_def preamble_events_def FrameLines_lines frame_lines_def)
  have "\<exists>p. Reassemble rev (Next (chunk_read io_EOF)) (NewSource [?b]) = Some p \<and> PS_Text p = ''Hi''"
    using turn_over_sse [OF buffer.byte_writer_axioms refl run chunks.byte_reader_axioms, of "[?b]" rev]
      ne lines_fit_short [OF hello_short] ord hi
    by (auto simp: hello_segs Let_def)
  with run show "\<exists>bytes. adapter_turn (NewPublisher (WriterSink_Emit (NewWriterSink buffer_write))) ''m'' ''chat'' ''gpt''
       [hello_round] (MapStopReason ''stop'' False) 3 [] = (None, bytes)
     \<and> map_option PS_Text (Reassemble rev (Next (chunk_read io_EOF)) (NewSource [bytes])) = Some ''Hi''" by auto
  obtain r v where cut: "adapter_turn (NewPublisher (WriterSink_Emit (NewWriterSink (limited_write 99)))) ''m'' ''chat'' ''gpt''
       [hello_round] StopReasonEndTurn 3 [] = (r, v)" by force
  then obtain q where "emit_plan (WriterSink_Emit (NewWriterSink (limited_write 99)))
      (turn_plan ''m'' ''chat'' ''gpt'' [hello_round] StopReasonEndTurn 3) [] = (q, v)"
    by (rule adapter_turn_plan)
  from limited_breaks.emit_plan_bytes [OF this] limited_emit_all have "length v \<le> 99" by fastforce
  then have "lines_fit v" by (intro lines_fit_bound) (simp add: maxLineSize_def)
  then have "\<exists>p. Reassemble rev (Next (chunk_read io_EOF)) (NewSource (filter (\<lambda>c. c \<noteq> []) [v])) = Some p \<and> prefix (PS_Text p) ''Hi''"
    using turn_over_sse [OF limited.byte_writer_axioms refl cut chunks.byte_reader_axioms, of "filter (\<lambda>c. c \<noteq> []) [v]" rev "\<lambda>w. 99 \<le> length w"]
      limited_breaks.breaking_writer_axioms [of 99] ord hi
    by (auto simp: hello_segs Let_def split: if_splits)
  with cut show "\<exists>r bytes p. adapter_turn (NewPublisher (WriterSink_Emit (NewWriterSink (limited_write 99)))) ''m'' ''chat'' ''gpt''
       [hello_round] StopReasonEndTurn 3 [] = (r, bytes)
     \<and> Reassemble rev (Next (chunk_read io_EOF)) (NewSource (filter (\<lambda>c. c \<noteq> []) [bytes])) = Some p
     \<and> prefix (PS_Text p) ''Hi''" by blast
qed

theorem turn_events_well_formed_witness:
  "\<exists>s. adapter_turn (NewPublisher InMemorySink_Emit) ''m'' ''chat'' ''gpt'' [hello_round] StopReasonEndTurn 3 NewInMemorySink
      = (None, s) \<and> list_all wire_event (InMemorySink_Events s) \<and> InMemorySink_Len s = 7"
proof -
  let ?es = "turn_events ''m'' ''chat'' ''gpt'' [TextSeg [''Hi'']] StopReasonEndTurn 3"
  obtain s where s: "emit_all InMemorySink_Emit ?es NewInMemorySink = (None, s)"
      "InMemorySink_Events s = InMemorySink_Events NewInMemorySink @ ?es"
    using ims.emit_all_reliable [where w = NewInMemorySink and es = ?es] by auto
  have run: "adapter_turn (NewPublisher InMemorySink_Emit) ''m'' ''chat'' ''gpt'' [hello_round] StopReasonEndTurn 3 NewInMemorySink = (None, s)"
    by (rule adapter_turn_ok) (simp add: hello_segs s(1))
  have "list_all wire_event (InMemorySink_Events s)"
    using turn_events_well_formed [OF ims.sink_contract_axioms TrueI run] by (auto simp: InMemorySink_Events_def NewInMemorySink_def)
  moreover have "InMemorySink_Len s = 7"
    using s(2) by (simp add: InMemorySink_Len_def InMemorySink_Events_def NewInMemorySink_def turn_events_def
        preamble_events_def epilogue_events_def)
  ultimately show ?thesis using run by blast
qed

end
